(* ===== verification/GoPrelude.thy ===== *)
theory GoPrelude
  imports Main "HOL-Library.Word" "HOL-Library.Multiset"
begin

text \<open>
  What the components share: Go's machine integers, durations and instants, panics as
  values, contexts, functional options, and the interfaces of step systems (invariant,
  progress measure, forward simulation) that the concurrent components interpret.
\<close>

section \<open>Panics, contexts, options\<close>

text \<open>
  A Go call either returns or panics. The panics of the library carry a constant message.
\<close>

datatype 'a go = Return 'a | Panic string

fun go_bind :: "'a go \<Rightarrow> ('a \<Rightarrow> 'b go) \<Rightarrow> 'b go" where
  "go_bind (Return x) f = f x"
| "go_bind (Panic m) f = Panic m"

lemma go_bind_eq_Return: "go_bind m f = Return y \<longleftrightarrow> (\<exists>x. m = Return x \<and> f x = Return y)"
  by (cases m) auto

text \<open>The values of \<open>ctx.Err()\<close>: nil is \<open>None\<close>.\<close>

datatype ctx_err = Canceled | DeadlineExceeded

text \<open>The two-way select of a cancellable sleep: the timer fires or the context ends.\<close>

datatype wakeup = TimerFired | CtxDone ctx_err

text \<open>\<open>for _, opt := range opts { opt(x) }\<close>, the functional-options loop.\<close>

definition apply_opts :: "('a \<Rightarrow> 'a) list \<Rightarrow> 'a \<Rightarrow> 'a" where
  "apply_opts opts x = fold (\<lambda>opt y. opt y) opts x"

lemma apply_opts_simps [simp]:
  "apply_opts [] x = x"
  "apply_opts (opt # opts) x = apply_opts opts (opt x)"
  by (simp_all add: apply_opts_def)

lemma apply_opts_inv:
  assumes "P x" and "\<And>opt y. opt \<in> set opts \<Longrightarrow> P y \<Longrightarrow> P (opt y)"
  shows "P (apply_opts opts x)"
  using assms by (induction opts arbitrary: x) auto

section \<open>Tables of goroutines\<close>

text \<open>A quantity summed over the entries of a table changes with one entry by that entry's share.\<close>

lemma sum_list_map_update:
  fixes f :: "'a \<Rightarrow> 'b :: comm_monoid_add"
  shows "i < length xs \<Longrightarrow> sum_list (map f (xs[i := y])) + f (xs ! i) = sum_list (map f xs) + f y"
proof (induction xs arbitrary: i)
  case (Cons x xs)
  then show ?case by (cases i) (simp_all add: add_ac)
qed simp

lemma in_set_updateD: "x \<in> set (xs[p := y]) \<Longrightarrow> x = y \<or> x \<in> set xs"
  using set_update_subset_insert [of xs p y] by blast

section \<open>64-bit integers and durations\<close>

text \<open>
  Go's \<open>int\<close>, \<open>int64\<close> and \<open>time.Duration\<close> are 64-bit two's-complement integers. They are
  modelled as \<open>int\<close>; \<open>wrap64\<close> is what an arithmetic operation stores. It is written out where an
  operation can leave the range; elsewhere an invariant of the component shows that it cannot.
\<close>

definition int64_min :: int where "int64_min = - (2 ^ 63)"

definition int64_max :: int where "int64_max = 2 ^ 63 - 1"

definition in_int64 :: "int \<Rightarrow> bool" where
  "in_int64 x \<longleftrightarrow> int64_min \<le> x \<and> x \<le> int64_max"

definition wrap64 :: "int \<Rightarrow> int" where
  "wrap64 x = (x + 2 ^ 63) mod 2 ^ 64 - 2 ^ 63"

named_theorems int64_defs

lemmas [int64_defs] = int64_min_def int64_max_def in_int64_def wrap64_def

lemma wrap64_id [simp]: "in_int64 x \<Longrightarrow> wrap64 x = x"
  by (simp add: int64_defs)

lemma in_int64_wrap64 [simp]: "in_int64 (wrap64 x)"
proof -
  define y where "y = (x + 2 ^ 63) mod 2 ^ 64"
  have "0 \<le> y" "y < 2 ^ 64"
    by (simp_all add: y_def)
  moreover have "wrap64 x = y - 2 ^ 63"
    by (simp add: wrap64_def y_def)
  ultimately show ?thesis by (simp add: in_int64_def int64_min_def int64_max_def)
qed

lemma wrap64_overflow: "int64_max < x \<Longrightarrow> x < 2 ^ 64 + 2 ^ 63 \<Longrightarrow> wrap64 x = x - 2 ^ 64"
proof -
  assume h: "int64_max < x" "x < 2 ^ 64 + 2 ^ 63"
  have "(x + 2 ^ 63) mod 2 ^ 64 = ((x + 2 ^ 63 - 2 ^ 64) + 2 ^ 64) mod 2 ^ 64"
    by (simp add: add.commute)
  also have "\<dots> = (x + 2 ^ 63 - 2 ^ 64) mod 2 ^ 64"
    by (rule mod_add_self2)
  also have "\<dots> = x + 2 ^ 63 - 2 ^ 64"
    using h by (intro mod_pos_pos_trivial) (auto simp: int64_max_def)
  finally show ?thesis by (simp add: wrap64_def)
qed

text \<open>Go's integer division and remainder truncate towards zero.\<close>

definition quot64 :: "int \<Rightarrow> int \<Rightarrow> int" where
  "quot64 a b = sgn a * sgn b * (\<bar>a\<bar> div \<bar>b\<bar>)"

definition rem64 :: "int \<Rightarrow> int \<Rightarrow> int" where
  "rem64 a b = a - b * quot64 a b"

lemma quot_rem64_nonneg: "0 \<le> a \<Longrightarrow> 0 < b \<Longrightarrow> quot64 a b = a div b \<and> rem64 a b = a mod b"
  by (cases "a = 0") (auto simp: quot64_def rem64_def minus_mult_div_eq_mod)

section \<open>Instants\<close>

text \<open>
  A \<open>time.Time\<close> is an instant in nanoseconds. \<open>Sub\<close> saturates at the bounds of
  \<open>time.Duration\<close>, as the time package documents.
\<close>

type_synonym instant = int
type_synonym duration = int

definition zero_time :: instant where "zero_time = - 62135596800000000000"

definition time_Sub :: "instant \<Rightarrow> instant \<Rightarrow> duration" where
  "time_Sub t u = max int64_min (min int64_max (t - u))"

lemma in_int64_time_Sub [simp]: "in_int64 (time_Sub t u)"
  by (auto simp: time_Sub_def int64_defs)

lemma time_Sub_less_iff: "in_int64 d \<Longrightarrow> 0 < d \<Longrightarrow> d \<noteq> int64_min \<Longrightarrow> time_Sub t u < d \<longleftrightarrow> t - u < d"
  by (auto simp: time_Sub_def int64_defs)

lemma time_Sub_mono: "t \<le> t' \<Longrightarrow> time_Sub t u \<le> time_Sub t' u"
  by (auto simp: time_Sub_def)

lemma time_Sub_self [simp]: "time_Sub t t = 0"
  by (simp add: time_Sub_def int64_defs)

section \<open>Interfaces of step systems\<close>

text \<open>
  The concurrent components are transition systems: every critical section, channel
  operation and atomic access of the code is one step, and any step that is enabled may come next.
  An invariant holds at the start and is kept by every step, hence in every reachable state.
\<close>

locale step_invariant =
  fixes start :: "'s \<Rightarrow> bool"
    and step :: "'s \<Rightarrow> 's \<Rightarrow> bool"
    and inv :: "'s \<Rightarrow> bool"
  assumes inv_start: "start s \<Longrightarrow> inv s"
    and inv_step: "step s t \<Longrightarrow> inv s \<Longrightarrow> inv t"
begin

lemma inv_steps: "step\<^sup>*\<^sup>* s t \<Longrightarrow> inv s \<Longrightarrow> inv t"
  by (induction rule: rtranclp_induct) (auto intro: inv_step)

lemma inv_reachable: "start s \<Longrightarrow> step\<^sup>*\<^sup>* s t \<Longrightarrow> inv t"
  by (blast intro: inv_start inv_steps)

end

text \<open>
  A forward simulation: an abstraction of the state maps every step to a step of a specification or to
  no change of it. Every run of the system is then a run of the specification.
\<close>

locale step_simulation = step_invariant +
  fixes spec :: "'a \<Rightarrow> 'a \<Rightarrow> bool"
    and abs :: "'b \<Rightarrow> 'a"
  assumes sim_step: "step s t \<Longrightarrow> inv s \<Longrightarrow> abs t = abs s \<or> spec (abs s) (abs t)"
begin

lemma sim_steps: "step\<^sup>*\<^sup>* s t \<Longrightarrow> inv s \<Longrightarrow> spec\<^sup>*\<^sup>* (abs s) (abs t)"
proof (induction rule: rtranclp_induct)
  case (step t u)
  then show ?case using sim_step [OF step(2)] inv_steps by (metis rtranclp.rtrancl_into_rtrancl)
qed simp

lemma sim_reachable: "start s \<Longrightarrow> step\<^sup>*\<^sup>* s t \<Longrightarrow> spec\<^sup>*\<^sup>* (abs s) (abs t)"
  by (blast intro: inv_start sim_steps)

end

text \<open>
  A progress measure: unless the state is final some step is possible, and every step lowers the work
  that is left. Every run is then bounded by the work at its start, a run that cannot go on is final, and
  a final state is reached.
\<close>

definition ends_within :: "('s \<Rightarrow> 's \<Rightarrow> bool) \<Rightarrow> ('s \<Rightarrow> bool) \<Rightarrow> nat \<Rightarrow> 's \<Rightarrow> bool" where
  "ends_within step final bound s \<longleftrightarrow> (\<exists>t. step\<^sup>*\<^sup>* s t \<and> final t) \<and>
     (\<forall>k t. (step ^^ k) s t \<longrightarrow> k \<le> bound) \<and> (\<forall>t. step\<^sup>*\<^sup>* s t \<and> (\<nexists>u. step t u) \<longrightarrow> final t)"

lemma ends_within_mono:
  "ends_within step final b s \<Longrightarrow> (\<And>t. step\<^sup>*\<^sup>* s t \<Longrightarrow> final t \<Longrightarrow> final' t) \<Longrightarrow> ends_within step final' b s"
  unfolding ends_within_def by blast

locale step_progress =
  fixes step :: "'s \<Rightarrow> 's \<Rightarrow> bool"
    and inv :: "'s \<Rightarrow> bool"
    and final :: "'s \<Rightarrow> bool"
    and work :: "'s \<Rightarrow> nat"
  assumes progress_inv: "step s t \<Longrightarrow> inv s \<Longrightarrow> inv t"
    and not_stuck: "inv s \<Longrightarrow> \<not> final s \<Longrightarrow> \<exists>t. step s t"
    and work_decreases: "step s t \<Longrightarrow> inv s \<Longrightarrow> work t < work s"
begin

lemma progress_invs: "step\<^sup>*\<^sup>* s t \<Longrightarrow> inv s \<Longrightarrow> inv t"
  by (induction rule: rtranclp_induct) (auto intro: progress_inv)

lemma run_bounded: "(step ^^ k) s t \<Longrightarrow> inv s \<Longrightarrow> k + work t \<le> work s"
proof (induction k arbitrary: t)
  case (Suc k)
  then obtain u where u: "(step ^^ k) s u" "step u t" by auto
  have "inv u" using progress_invs u(1) Suc.prems(2) by (meson relpowp_imp_rtranclp)
  then show ?case using Suc.IH [OF u(1) Suc.prems(2)] work_decreases [OF u(2)] by simp
qed simp

lemma stuck_final: "step\<^sup>*\<^sup>* s t \<Longrightarrow> inv s \<Longrightarrow> \<nexists>u. step t u \<Longrightarrow> final t"
  using progress_invs not_stuck by blast

lemma final_reached: "inv s \<Longrightarrow> \<exists>t. step\<^sup>*\<^sup>* s t \<and> final t"
proof (induction "work s" arbitrary: s rule: less_induct)
  case less
  show ?case
  proof (cases "final s")
    case False
    then obtain u where u: "step s u" using not_stuck less.prems by blast
    then obtain t where "step\<^sup>*\<^sup>* u t" "final t"
      using less.hyps work_decreases progress_inv less.prems by blast
    then show ?thesis using u by (meson converse_rtranclp_into_rtranclp)
  qed blast
qed

lemma ends: "inv s \<Longrightarrow> ends_within step final (work s) s"
  unfolding ends_within_def using final_reached stuck_final run_bounded by (meson add_leD1)

end

end
