(* ===== verification/CircuitBreaker.thy ===== *)
theory CircuitBreaker
  imports GoPrelude
begin

text \<open>
  The circuit breaker of \<open>pkg/circuitbreaker\<close>: construction with its options, the three
  critical sections (\<open>admit\<close>, \<open>record\<close>, \<open>State\<close>), the call \<open>Do\<close>, and the system of any number
  of concurrent calls on one breaker. The clock reading of a critical section is an argument.
\<close>

section \<open>Data\<close>

datatype State = StateClosed | StateOpen | StateHalfOpen

primrec State_code :: "State \<Rightarrow> 8 word" where
  "State_code StateClosed = 0"
| "State_code StateOpen = 1"
| "State_code StateHalfOpen = 2"

text \<open>\<open>State.String\<close> switches on a \<open>uint8\<close>, so it has a default.\<close>

definition State_String :: "8 word \<Rightarrow> string" where
  "State_String s =
     (if s = State_code StateClosed then ''closed''
      else if s = State_code StateOpen then ''open''
      else if s = State_code StateHalfOpen then ''half-open''
      else ''unknown'')"

record breaker =
  failureThreshold :: int
  successThreshold :: int
  openTimeout :: duration
  state :: State
  generation :: "64 word"
  failures :: int
  successes :: int
  inFlight :: int
  openedAt :: instant

definition defaultFailureThreshold :: int where "defaultFailureThreshold = 5"

definition defaultSuccessThreshold :: int where "defaultSuccessThreshold = 1"

definition defaultOpenTimeout :: duration where "defaultOpenTimeout = 30 * 10 ^ 9"

lemmas breaker_defaults [simp] =
  defaultFailureThreshold_def defaultSuccessThreshold_def defaultOpenTimeout_def

definition breaker_New :: "(breaker \<Rightarrow> breaker) list \<Rightarrow> breaker" where
  "breaker_New opts = apply_opts opts
     \<lparr>failureThreshold = defaultFailureThreshold, successThreshold = defaultSuccessThreshold,
      openTimeout = defaultOpenTimeout, state = StateClosed, generation = 0, failures = 0, successes = 0, inFlight = 0,
      openedAt = zero_time\<rparr>"

definition WithFailureThreshold :: "int \<Rightarrow> (breaker \<Rightarrow> breaker) go" where
  "WithFailureThreshold n =
     (if n \<le> 0 then Panic ''circuitbreaker: failure threshold must be > 0''
      else Return (\<lambda>b. b\<lparr>failureThreshold := n\<rparr>))"

definition WithOpenTimeout :: "duration \<Rightarrow> (breaker \<Rightarrow> breaker) go" where
  "WithOpenTimeout d =
     (if d \<le> 0 then Panic ''circuitbreaker: open timeout must be > 0''
      else Return (\<lambda>b. b\<lparr>openTimeout := d\<rparr>))"

definition WithSuccessThreshold :: "int \<Rightarrow> (breaker \<Rightarrow> breaker) go" where
  "WithSuccessThreshold n =
     (if n \<le> 0 then Panic ''circuitbreaker: success threshold must be > 0''
      else Return (\<lambda>b. b\<lparr>successThreshold := n\<rparr>))"

section \<open>Critical sections\<close>

definition transition :: "breaker \<Rightarrow> State \<Rightarrow> instant \<Rightarrow> breaker" where
  "transition b to now =
     (let b' = b\<lparr>state := to, generation := generation b + 1, failures := 0,
                 successes := 0, inFlight := 0\<rparr>
      in if to = StateOpen then b'\<lparr>openedAt := now\<rparr> else b')"

datatype admission = ErrOpen | Admitted "64 word"

definition admit_probe :: "breaker \<Rightarrow> breaker \<times> admission" where
  "admit_probe b =
     (if state b = StateHalfOpen
      then if successes b + inFlight b \<ge> successThreshold b then (b, ErrOpen)
           else (b\<lparr>inFlight := inFlight b + 1\<rparr>, Admitted (generation b))
      else (b, Admitted (generation b)))"

definition admit :: "breaker \<Rightarrow> instant \<Rightarrow> breaker \<times> admission" where
  "admit b now =
     (if state b = StateOpen
      then if time_Sub now (openedAt b) < openTimeout b then (b, ErrOpen)
           else admit_probe (transition b StateHalfOpen now)
      else admit_probe b)"

definition record_outcome :: "breaker \<Rightarrow> 64 word \<Rightarrow> bool \<Rightarrow> instant \<Rightarrow> breaker" where
  "record_outcome b gen success now =
     (if gen \<noteq> generation b then b
      else case state b of
        StateClosed \<Rightarrow>
          if success then b\<lparr>failures := 0\<rparr>
          else let b' = b\<lparr>failures := failures b + 1\<rparr>
               in if failures b' \<ge> failureThreshold b' then transition b' StateOpen now else b'
      | StateHalfOpen \<Rightarrow>
          let b' = b\<lparr>inFlight := inFlight b - 1\<rparr>
          in if \<not> success then transition b' StateOpen now
             else let b'' = b'\<lparr>successes := successes b' + 1\<rparr>
                  in if successes b'' \<ge> successThreshold b''
                     then transition b'' StateClosed now else b''
      | StateOpen \<Rightarrow> b)"

definition breaker_State :: "breaker \<Rightarrow> instant \<Rightarrow> State" where
  "breaker_State b now =
     (if state b = StateOpen \<and> time_Sub now (openedAt b) \<ge> openTimeout b then StateHalfOpen
      else state b)"

section \<open>The call\<close>

text \<open>
  The guarded function runs with the breaker unlocked. It is a function on the breaker, so
  that whatever other calls do to the breaker while it runs is part of its effect; nil is \<open>None\<close>.
  \<open>FnPanics\<close> stands for any unwinding of the call, by a panic or by \<open>runtime.Goexit\<close>.
\<close>

datatype ('e, 'p) fn_result = FnReturns "'e option" | FnPanics 'p

datatype ('e, 'p) do_result =
  DoReturns "'e option" | DoCtxErr ctx_err | DoErrOpen | DoPanics 'p | DoNilPanic

type_synonym ('e, 'p) guarded = "breaker \<Rightarrow> breaker \<times> ('e, 'p) fn_result"

definition Do :: "breaker \<Rightarrow> ctx_err option \<Rightarrow> ('e, 'p) guarded option \<Rightarrow> instant \<Rightarrow> instant \<Rightarrow>
    breaker \<times> ('e, 'p) do_result" where
  "Do b ctxErr fn t0 t1 =
     (case fn of None \<Rightarrow> (b, DoNilPanic)
      | Some f \<Rightarrow>
        (case ctxErr of Some e \<Rightarrow> (b, DoCtxErr e)
         | None \<Rightarrow>
           (case admit b t0 of
              (b', ErrOpen) \<Rightarrow> (b', DoErrOpen)
            | (b', Admitted gen) \<Rightarrow>
                (case f b' of
                   (b'', FnPanics p) \<Rightarrow> (record_outcome b'' gen False t1, DoPanics p)
                 | (b'', FnReturns err) \<Rightarrow>
                     (record_outcome b'' gen (err = None) t1, DoReturns err)))))"

section \<open>Concurrent calls\<close>

text \<open>
  Any number of goroutines call \<open>Do\<close> on one breaker. A call in flight is the generation it
  was admitted under. \<open>epoch\<close> is a ghost: the number of transitions so far, of which the breaker's
  \<open>uint64\<close> generation is the residue; a call also carries the epoch of its admission. The
  outcome of the guarded function and every clock reading are arbitrary.
\<close>

record breaker_sys =
  brk :: breaker
  calls :: "(64 word \<times> nat) multiset"
  epoch :: nat

definition epoch_after :: "breaker_sys \<Rightarrow> breaker \<Rightarrow> nat" where
  "epoch_after s b = (if state b = state (brk s) then epoch s else Suc (epoch s))"

inductive breaker_step :: "breaker_sys \<Rightarrow> breaker_sys \<Rightarrow> bool" where
  call_admitted: "admit (brk s) now = (b, Admitted gen) \<Longrightarrow>
     breaker_step s (s\<lparr>brk := b, epoch := epoch_after s b,
                       calls := add_mset (gen, epoch_after s b) (calls s)\<rparr>)"
| call_rejected: "admit (brk s) now = (b, ErrOpen) \<Longrightarrow>
     breaker_step s (s\<lparr>brk := b, epoch := epoch_after s b\<rparr>)"
| call_finished: "(gen, e) \<in># calls s \<Longrightarrow> b = record_outcome (brk s) gen success now \<Longrightarrow>
     breaker_step s (s\<lparr>brk := b, epoch := epoch_after s b,
                       calls := calls s - {#(gen, e)#}\<rparr>)"

inductive_cases breaker_stepE: "breaker_step s t"

definition configured :: "breaker \<Rightarrow> bool" where
  "configured b \<longleftrightarrow> 0 < failureThreshold b \<and> 0 < successThreshold b \<and> 0 < openTimeout b"

definition breaker_start :: "breaker_sys \<Rightarrow> bool" where
  "breaker_start s \<longleftrightarrow> (\<exists>opts. brk s = breaker_New opts \<and>
      (\<forall>opt\<in>set opts. (\<exists>n. WithFailureThreshold n = Return opt) \<or>
         (\<exists>d. WithOpenTimeout d = Return opt) \<or> (\<exists>n. WithSuccessThreshold n = Return opt))) \<and>
      calls s = {#} \<and> epoch s = 0"

text \<open>The calls admitted under the current generation.\<close>

definition current_calls :: "breaker_sys \<Rightarrow> nat" where
  "current_calls s = size (filter_mset (\<lambda>c. snd c = epoch s) (calls s))"

text \<open>What each state keeps of the counters.\<close>

definition counters_ok :: "breaker \<Rightarrow> int \<Rightarrow> bool" where
  "counters_ok b n = (case state b of
     StateClosed \<Rightarrow> 0 \<le> failures b \<and> failures b < failureThreshold b \<and>
       successes b = 0 \<and> inFlight b = 0
   | StateOpen \<Rightarrow> failures b = 0 \<and> successes b = 0 \<and> inFlight b = 0 \<and> n = 0
   | StateHalfOpen \<Rightarrow> failures b = 0 \<and> 0 \<le> successes b \<and> inFlight b = n \<and>
       successes b < successThreshold b \<and> successes b + inFlight b \<le> successThreshold b)"

definition breaker_inv :: "breaker_sys \<Rightarrow> bool" where
  "breaker_inv s \<longleftrightarrow> configured (brk s) \<and> generation (brk s) = of_nat (epoch s) \<and>
     (\<forall>c\<in>#calls s. fst c = of_nat (snd c) \<and> snd c \<le> epoch s) \<and>
     counters_ok (brk s) (int (current_calls s))"

text \<open>Calls made one after the other, each with its outcome and its two clock readings.\<close>

fun run_calls :: "breaker \<Rightarrow> (bool \<times> instant \<times> instant) list \<Rightarrow> breaker" where
  "run_calls b [] = b"
| "run_calls b ((ok, t0, t1) # cs) =
     run_calls (fst (Do b None (Some (\<lambda>b. (b, FnReturns (if ok then None else Some ())))) t0 t1 ::
        breaker \<times> (unit, unit) do_result)) cs"

definition trailing_failures :: "(bool \<times> instant \<times> instant) list \<Rightarrow> nat" where
  "trailing_failures cs = length (takeWhile (\<lambda>c. \<not> fst c) (rev cs))"

text \<open>A run that trips a breaker with threshold 1 and admits one probe after the cool-down.\<close>

definition demo_start :: breaker_sys where
  "demo_start = \<lparr>brk = breaker_New [\<lambda>b. b\<lparr>failureThreshold := 1\<rparr>], calls = {#}, epoch = 0\<rparr>"

definition demo_called :: breaker_sys where
  "demo_called = demo_start\<lparr>calls := {#(0, 0)#}\<rparr>"

definition demo_tripped :: breaker_sys where
  "demo_tripped = demo_start\<lparr>brk := transition (brk demo_start) StateOpen 7, epoch := 1\<rparr>"

definition demo_probe :: breaker_sys where
  "demo_probe = demo_start\<lparr>brk := (transition (brk demo_tripped) StateHalfOpen 0)\<lparr>inFlight := 1\<rparr>,
     epoch := Suc (Suc 0), calls := {#(2, Suc (Suc 0))#}\<rparr>"

section \<open>Construction\<close>

lemma configured_New:
  assumes "\<forall>opt\<in>set opts. (\<exists>n. WithFailureThreshold n = Return opt) \<or>
    (\<exists>d. WithOpenTimeout d = Return opt) \<or> (\<exists>n. WithSuccessThreshold n = Return opt)"
  shows "configured (breaker_New opts) \<and> state (breaker_New opts) = StateClosed \<and>
    generation (breaker_New opts) = 0 \<and> failures (breaker_New opts) = 0 \<and>
    successes (breaker_New opts) = 0 \<and> inFlight (breaker_New opts) = 0"
  unfolding breaker_New_def
  by (rule apply_opts_inv)
    (use assms in \<open>auto simp: configured_def WithFailureThreshold_def WithOpenTimeout_def
        WithSuccessThreshold_def split: if_splits\<close>)

section \<open>The invariant of concurrent calls\<close>

lemmas breaker_op_defs = admit_def admit_probe_def record_outcome_def transition_def

lemma of_nat_epoch_inj:
  assumes "(of_nat e :: 64 word) = of_nat ep" and "e \<le> ep" and "ep < 2 ^ 64"
  shows "e = ep"
proof -
  have "unat (of_nat e :: 64 word) = e" "unat (of_nat ep :: 64 word) = ep"
    using assms(2,3) by (simp_all add: unat_of_nat take_bit_nat_eq_self)
  then show ?thesis using assms(1) by metis
qed

lemma current_calls_Suc:
  "\<forall>c\<in>#calls s. snd c \<le> epoch s \<Longrightarrow> size {#c \<in># calls s. snd c = Suc (epoch s)#} = 0"
  by (auto simp: filter_mset_eq_mempty_iff)

lemma size_filter_minus:
  "c \<in># M \<Longrightarrow> size (filter_mset P (M - {#c#})) =
     (if P c then size (filter_mset P M) - 1 else size (filter_mset P M))"
  by (auto simp: size_Diff_singleton)

lemma size_filter_pos: "c \<in># M \<Longrightarrow> P c \<Longrightarrow> 0 < size (filter_mset P M)"
  by (metis filter_mset_eq_mempty_iff nonempty_has_size)

lemma breaker_inv_admit:
  assumes inv: "breaker_inv s" and ad: "admit (brk s) now = (b, r)"
  shows "breaker_inv (s\<lparr>brk := b, epoch := epoch_after s b, calls :=
     (case r of ErrOpen \<Rightarrow> calls s | Admitted gen \<Rightarrow> add_mset (gen, epoch_after s b) (calls s))\<rparr>)"
proof (cases "state (brk s) = StateOpen \<and> \<not> time_Sub now (openedAt (brk s)) < openTimeout (brk s)")
  case True
  then have "b = (transition (brk s) StateHalfOpen now)\<lparr>inFlight := 1\<rparr>"
    and "r = Admitted (generation (brk s) + 1)"
    using ad inv by (auto simp: breaker_op_defs breaker_inv_def configured_def)
  with True inv show ?thesis
    using current_calls_Suc [of s]
    by (auto simp: breaker_inv_def configured_def counters_ok_def current_calls_def
        epoch_after_def transition_def le_Suc_eq)
next
  case False
  with ad inv show ?thesis
    by (auto simp: breaker_op_defs breaker_inv_def configured_def counters_ok_def
        current_calls_def epoch_after_def split: State.splits if_splits)
qed

lemma breaker_inv_stale:
  assumes "breaker_inv s" and "(gen, e) \<in># calls s" and "e \<noteq> epoch s"
  shows "breaker_inv (s\<lparr>calls := calls s - {#(gen, e)#}\<rparr>)"
  using assms by (auto simp: breaker_inv_def current_calls_def size_filter_minus
      dest: in_diffD)

lemma breaker_inv_record:
  assumes inv: "breaker_inv s" and c: "(gen, e) \<in># calls s" and ep: "epoch s < 2 ^ 64"
    and b: "b = record_outcome (brk s) gen success now"
  shows "breaker_inv (s\<lparr>brk := b, epoch := epoch_after s b, calls := calls s - {#(gen, e)#}\<rparr>)"
proof (cases "e = epoch s")
  case False
  with inv c ep have "gen \<noteq> generation (brk s)"
    using of_nat_epoch_inj [of e "epoch s"] by (fastforce simp: breaker_inv_def)
  then have "b = brk s" by (simp add: b record_outcome_def)
  with breaker_inv_stale [OF inv c False] show ?thesis by (simp add: epoch_after_def)
next
  case True
  let ?M = "calls s - {#(gen, e)#}"
  have n: "0 < current_calls s" "size {#c \<in># ?M. snd c = epoch s#} = current_calls s - 1"
    using c True size_filter_pos [OF c, of "\<lambda>c. snd c = epoch s"]
    by (auto simp: current_calls_def size_filter_minus simp del: filter_diff_mset)
  have m: "size {#c \<in># ?M. snd c = Suc (epoch s)#} = 0"
    using inv current_calls_Suc [of s] c
    by (auto simp: breaker_inv_def size_filter_minus)
  have le: "\<forall>c\<in>#?M. fst c = of_nat (snd c) \<and> snd c \<le> epoch s" "gen = generation (brk s)"
    using inv c True by (auto simp: breaker_inv_def dest: in_diffD)
  show ?thesis
    using inv n m le c True
    by (auto simp: b record_outcome_def transition_def breaker_inv_def configured_def counters_ok_def
        current_calls_def epoch_after_def Let_def le_SucI split: State.splits simp del: filter_diff_mset)
qed

lemma epoch_after_ge: "epoch s \<le> epoch_after s b"
  by (simp add: epoch_after_def)

interpretation breaker_steps: step_invariant breaker_start breaker_step
  "\<lambda>s. epoch s < 2 ^ 64 \<longrightarrow> breaker_inv s"
proof (unfold_locales, goal_cases)
  case (1 s)
  then obtain opts where "brk s = breaker_New opts" "configured (brk s)" "calls s = {#}" "epoch s = 0"
    "state (brk s) = StateClosed" "generation (brk s) = 0" "failures (brk s) = 0"
    "successes (brk s) = 0" "inFlight (brk s) = 0"
    using configured_New by (auto simp: breaker_start_def)
  then show ?case by (simp add: breaker_inv_def counters_ok_def configured_def)
next
  case (2 s t)
  then show ?case
  proof (cases rule: breaker_step.cases)
    case (call_admitted now b gen)
    with 2 show ?thesis
      using breaker_inv_admit [of s now b "Admitted gen"] epoch_after_ge [of s b] by simp
  next
    case (call_rejected now b)
    with 2 show ?thesis
      using breaker_inv_admit [of s now b ErrOpen] epoch_after_ge [of s b] by simp
  next
    case (call_finished gen e b success now)
    with 2 show ?thesis
      using breaker_inv_record [of s gen e b success now] epoch_after_ge [of s b] by simp
  qed
qed

section \<open>Sequential runs\<close>

lemma run_calls_append: "run_calls b (cs @ ds) = run_calls (run_calls b cs) ds"
  by (induction b cs rule: run_calls.induct) simp_all

lemma trailing_failures_simps [simp]:
  "trailing_failures [] = 0"
  "trailing_failures (cs @ [(True, t0, t1)]) = 0"
  "trailing_failures (cs @ [(False, t0, t1)]) = Suc (trailing_failures cs)"
  by (simp_all add: trailing_failures_def)

lemma run_closed:
  assumes "state b = StateClosed" and "failures b = 0"
    and "\<forall>k\<le>length cs. int (trailing_failures (take k cs)) < failureThreshold b"
  shows "run_calls b cs = b\<lparr>failures := int (trailing_failures cs)\<rparr>"
  using assms(3)
proof (induction cs rule: rev_induct)
  case Nil
  with assms show ?case by simp
next
  case (snoc c cs)
  obtain ok t0 t1 where c: "c = (ok, t0, t1)" by (cases c)
  have "\<forall>k\<le>length cs. int (trailing_failures (take k cs)) < failureThreshold b"
    using snoc.prems by (metis length_append_singleton le_SucI take_append append_Nil2
        diff_is_0_eq' take_eq_Nil)
  then have IH: "run_calls b cs = b\<lparr>failures := int (trailing_failures cs)\<rparr>"
    by (rule snoc.IH)
  have "int (trailing_failures (cs @ [c])) < failureThreshold b"
    using snoc.prems [rule_format, of "length (cs @ [c])"] by simp
  then show ?case using assms(1)
    by (cases ok) (auto simp: run_calls_append IH c Do_def admit_def admit_probe_def
        record_outcome_def Let_def)
qed

lemma run_trips:
  assumes "state b = StateClosed" and "failures b = 0"
    and "\<forall>k\<le>length cs. int (trailing_failures (take k cs)) < failureThreshold b"
    and "int (trailing_failures cs) + 1 = failureThreshold b"
  shows "run_calls b (cs @ [(False, t0, t1)]) = transition b StateOpen t1"
  using run_closed [OF assms(1-3)] assms(1,4)
  by (auto simp: run_calls_append Do_def admit_def admit_probe_def record_outcome_def
      transition_def Let_def)

lemma cooling_rejects:
  "state b = StateOpen \<Longrightarrow> time_Sub t0 (openedAt b) < openTimeout b \<Longrightarrow>
     Do b None (Some f) t0 t1 = (b, DoErrOpen)"
  by (simp add: Do_def admit_def)

lemma probe_success:
  assumes "state b = StateHalfOpen" and "inFlight b = 0" and "successes b < successThreshold b"
  shows "run_calls b [(True, t0, t1)] =
     (if successes b + 1 \<ge> successThreshold b
      then transition b StateClosed t1 else b\<lparr>successes := successes b + 1\<rparr>)"
  using assms
  by (auto simp: Do_def admit_def admit_probe_def record_outcome_def transition_def Let_def)

lemma probe_failure:
  assumes "state b = StateHalfOpen" and "inFlight b = 0" and "successes b < successThreshold b"
  shows "run_calls b [(False, t0, t1)] = transition b StateOpen t1"
  using assms
  by (auto simp: Do_def admit_def admit_probe_def record_outcome_def transition_def Let_def)

lemma run_half_open:
  assumes "state b = StateHalfOpen" and "inFlight b = 0" and "successes b = 0"
    and "int (length ts) < successThreshold b"
  shows "run_calls b (map (\<lambda>(t0, t1). (True, t0, t1)) ts) = b\<lparr>successes := int (length ts)\<rparr>"
  using assms(4)
proof (induction ts rule: rev_induct)
  case Nil
  with assms show ?case by simp
next
  case (snoc t ts)
  then show ?case using assms(1-3)
    by (cases t) (simp add: run_calls_append probe_success del: run_calls.simps(2))
qed

lemma first_probe:
  assumes "state b = StateOpen" and "0 < successThreshold b"
    and "\<not> time_Sub t0 (openedAt b) < openTimeout b"
  shows "run_calls b ((ok, t0, t1) # cs) =
     run_calls (transition b StateHalfOpen t0) ((ok, t0, t1) # cs)"
  using assms by (simp add: Do_def admit_def transition_def)

section \<open>The state diagram\<close>

text \<open>
  The diagram the package documents, with a count of the transitions made. A breaker takes no other
  transition, and its generation changes exactly when its state does.
\<close>

inductive diagram :: "State \<times> nat \<Rightarrow> State \<times> nat \<Rightarrow> bool" where
  trip: "diagram (StateClosed, n) (StateOpen, Suc n)"
| cool_down: "diagram (StateOpen, n) (StateHalfOpen, Suc n)"
| recover: "diagram (StateHalfOpen, n) (StateClosed, Suc n)"
| reopen: "diagram (StateHalfOpen, n) (StateOpen, Suc n)"

inductive_simps diagram_simps [simp]: "diagram (x, n) (y, m)"

lemma admit_diagram:
  "admit b now = (b', a) \<Longrightarrow> (state b' = state b \<and> generation b' = generation b) \<or>
     (state b = StateOpen \<and> state b' = StateHalfOpen \<and> generation b' = generation b + 1)"
  by (auto simp: admit_def admit_probe_def transition_def split: if_splits)

lemma record_diagram:
  "(state (record_outcome b g ok now) = state b \<and> generation (record_outcome b g ok now) = generation b) \<or>
   (diagram (state b, n) (state (record_outcome b g ok now), Suc n) \<and> generation (record_outcome b g ok now) = generation b + 1)"
  by (cases "state b") (auto simp: record_outcome_def transition_def Let_def)

interpretation breaker_diagram: step_simulation breaker_start breaker_step
  "\<lambda>s. epoch s < 2 ^ 64 \<longrightarrow> breaker_inv s" diagram "\<lambda>s. (state (brk s), epoch s)"
proof (unfold_locales, goal_cases)
  case (1 s t)
  from 1(1) show ?case
  proof cases
    case (call_admitted now b gen)
    then show ?thesis using admit_diagram [OF call_admitted(2)] by (auto simp: epoch_after_def)
  next
    case (call_rejected now b)
    then show ?thesis using admit_diagram [OF call_rejected(2)] by (auto simp: epoch_after_def)
  next
    case (call_finished gen e b success now)
    then show ?thesis using record_diagram [of "brk s" gen success now "epoch s"] by (auto simp: epoch_after_def)
  qed
qed

text \<open>A breaker that was never open has made no transition, and one that is closed again has been half-open.\<close>

lemma diagram_path: "diagram\<^sup>*\<^sup>* (StateClosed, 0) (x, n) \<Longrightarrow>
    (n = 0 \<longrightarrow> x = StateClosed) \<and> (x = StateClosed \<and> 0 < n \<longrightarrow> (\<exists>m < n. diagram\<^sup>*\<^sup>* (StateClosed, 0) (StateHalfOpen, m)))"
proof (induction "(x, n)" arbitrary: x n rule: rtranclp_induct)
  case (step y)
  then show ?case by (cases y) (auto elim!: diagram.cases)
qed auto

lemma breaker_follows_diagram:
  assumes "breaker_start s0" and "breaker_step\<^sup>*\<^sup>* s0 s"
  shows "diagram\<^sup>*\<^sup>* (StateClosed, 0) (state (brk s), epoch s)"
proof -
  have "state (brk s0) = StateClosed" "epoch s0 = 0"
    using assms(1) configured_New by (auto simp: breaker_start_def)
  then show ?thesis using breaker_diagram.sim_reachable [OF assms] by simp
qed

section \<open>Properties\<close>

text \<open>
  C1. In every state reachable by concurrent calls (fewer than \<open>2 ^ 64\<close> transitions), a half-open
  breaker has exactly as many probes in flight as its counter says, and probes in flight plus
  recorded successes never exceed the success threshold, whatever the interleaving of admissions,
  completions and clock readings.
\<close>

theorem probe_budget:
  assumes "breaker_start s" and "breaker_step\<^sup>*\<^sup>* s t" and "epoch t < 2 ^ 64"
    and "state (brk t) = StateHalfOpen"
  shows "inFlight (brk t) = int (current_calls t) \<and>
    successes (brk t) + int (current_calls t) \<le> successThreshold (brk t)"
  using breaker_steps.inv_reachable [OF assms(1,2)] assms(3,4)
  by (simp add: breaker_inv_def counters_ok_def)

lemma demo_run: "breaker_start demo_start" "breaker_step\<^sup>*\<^sup>* demo_start demo_probe"
proof -
  have opt: "WithFailureThreshold 1 = Return (\<lambda>b. b\<lparr>failureThreshold := 1\<rparr>)"
    by (simp add: WithFailureThreshold_def)
  show "breaker_start demo_start"
    unfolding breaker_start_def
    by (intro conjI exI [of _ "[\<lambda>b. b\<lparr>failureThreshold := 1\<rparr>]"])
      (use opt in \<open>auto simp: demo_start_def\<close>)
  have "breaker_step demo_start demo_called"
    using breaker_step.call_admitted [of demo_start 0 "brk demo_start" 0]
    by (simp add: demo_start_def demo_called_def breaker_New_def admit_def admit_probe_def epoch_after_def)
  moreover have "breaker_step demo_called demo_tripped"
    using breaker_step.call_finished [of 0 0 demo_called _ False 7]
    by (simp add: demo_start_def demo_called_def demo_tripped_def breaker_New_def record_outcome_def
        transition_def epoch_after_def)
  moreover have "breaker_step demo_tripped demo_probe"
    using breaker_step.call_admitted [of demo_tripped "40 * 10 ^ 9"
        "(transition (brk demo_tripped) StateHalfOpen 0)\<lparr>inFlight := 1\<rparr>" 2]
    by (simp add: demo_start_def demo_probe_def demo_tripped_def breaker_New_def admit_def admit_probe_def
        transition_def epoch_after_def time_Sub_def int64_defs)
  ultimately show "breaker_step\<^sup>*\<^sup>* demo_start demo_probe" by (meson rtranclp.rtrancl_refl rtranclp.rtrancl_into_rtrancl)
qed

theorem probe_budget_witness:
  "state (brk demo_probe) = StateHalfOpen \<and> inFlight (brk demo_probe) = int (current_calls demo_probe) \<and>
   successes (brk demo_probe) + int (current_calls demo_probe) \<le> successThreshold (brk demo_probe)"
proof -
  have "epoch demo_probe < 2 ^ 64" "state (brk demo_probe) = StateHalfOpen"
    by (simp_all add: demo_probe_def transition_def)
  then show ?thesis using probe_budget [OF demo_run] by simp
qed

text \<open>
  C2. The outcome of a call counts only against the generation that admitted it: in every
  reachable state, completing a call of an earlier generation leaves the breaker unchanged, and no
  call of the current generation is outstanding while the breaker is open, so the open branch of
  \<open>record\<close> is never taken. Generations count the transitions, and these follow the documented diagram:
  closed to open, open to half-open, half-open to closed or open, and no other.
\<close>

theorem stale_outcome_discarded:
  assumes "breaker_start s" and "breaker_step\<^sup>*\<^sup>* s t" and "epoch t < 2 ^ 64"
    and "(gen, e) \<in># calls t"
  shows "(e \<noteq> epoch t \<longrightarrow> record_outcome (brk t) gen success now = brk t) \<and>
    (gen = generation (brk t) \<longrightarrow> e = epoch t \<and> state (brk t) \<noteq> StateOpen) \<and>
    generation (brk t) = of_nat (epoch t) \<and> diagram\<^sup>*\<^sup>* (StateClosed, 0) (state (brk t), epoch t)"
proof -
  have inv: "breaker_inv t"
    using breaker_steps.inv_reachable [OF assms(1,2)] assms(3) by simp
  have gen: "gen = generation (brk t) \<longleftrightarrow> e = epoch t"
    using inv assms(3,4) of_nat_epoch_inj [of e "epoch t"] by (fastforce simp: breaker_inv_def)
  have "e = epoch t \<Longrightarrow> state (brk t) \<noteq> StateOpen"
    using inv assms(4) size_filter_pos [OF assms(4), of "\<lambda>c. snd c = epoch t"]
    by (auto simp: breaker_inv_def counters_ok_def current_calls_def simp del: size_eq_0_iff_empty)
  moreover have "generation (brk t) = of_nat (epoch t)" using inv by (simp add: breaker_inv_def)
  ultimately show ?thesis using gen breaker_follows_diagram [OF assms(1,2)] by (auto simp: record_outcome_def)
qed

theorem stale_outcome_discarded_witness:
  "(2, 2) \<in># calls demo_probe \<and> epoch demo_probe = 2 \<and> state (brk demo_probe) \<noteq> StateOpen"
proof -
  have "epoch demo_probe < 2 ^ 64" "(2, 2) \<in># calls demo_probe" "epoch demo_probe = 2"
    "generation (brk demo_probe) = 2"
    by (simp_all add: demo_probe_def demo_tripped_def demo_start_def transition_def breaker_New_def)
  then show ?thesis using stale_outcome_discarded [OF demo_run, of 2 2 True 0] by simp
qed

text \<open>
  C3. A closed breaker called sequentially trips exactly when the failure threshold is reached
  by consecutive failures: as long as no prefix of the calls ends in that many failures it stays
  closed and its counter is the number of trailing failures (a success resets it); the failure that
  reaches the threshold opens it at that call's completion time, and every call within the open
  timeout of that instant is then rejected with \<open>ErrOpen\<close>, without running the function and
  without changing the breaker.
\<close>

theorem trips_on_consecutive_failures:
  assumes "state b = StateClosed" and "failures b = 0"
    and "\<forall>k\<le>length cs. int (trailing_failures (take k cs)) < failureThreshold b"
  shows "state (run_calls b cs) = StateClosed \<and> failures (run_calls b cs) = int (trailing_failures cs) \<and>
    (int (trailing_failures cs) + 1 = failureThreshold b \<longrightarrow>
       state (run_calls b (cs @ [(False, t0, t1)])) = StateOpen \<and>
       (time_Sub t t1 < openTimeout b \<longrightarrow>
          Do (run_calls b (cs @ [(False, t0, t1)])) None (Some f) t t' =
            (run_calls b (cs @ [(False, t0, t1)]), DoErrOpen)))"
  using run_closed [OF assms] run_trips [OF assms, of t0 t1] assms(1)
  by (auto simp: transition_def intro!: cooling_rejects)

theorem trips_on_consecutive_failures_witness:
  "Do (run_calls (breaker_New [\<lambda>b. b\<lparr>failureThreshold := 2\<rparr>]) ([(False, 0, 1)] @ [(False, 2, 3)]))
     None (Some (\<lambda>b. (b, FnReturns (None :: unit option)))) 4 5 =
   (run_calls (breaker_New [\<lambda>b. b\<lparr>failureThreshold := 2\<rparr>]) ([(False, 0, 1)] @ [(False, 2, 3)]),
    DoErrOpen :: (unit, unit) do_result)"
proof -
  have "\<forall>k\<le>length [(False, 0::int, 1::int)].
      int (trailing_failures (take k [(False, 0, 1)])) < 2"
    by (auto simp: trailing_failures_def le_Suc_eq)
  then show ?thesis
    using trips_on_consecutive_failures [of "breaker_New [\<lambda>b. b\<lparr>failureThreshold := 2\<rparr>]"
        "[(False, 0, 1)]" 2 3 4 "\<lambda>b. (b, FnReturns (None :: unit option) :: (unit, unit) fn_result)" 5]
    by (simp add: breaker_New_def trailing_failures_def time_Sub_def int64_defs)
qed

text \<open>
  C4. Recovery of an open breaker whose cool-down has elapsed. The next call is a probe; any number of
  successful calls below the success threshold leaves the breaker half-open with that many successes,
  the threshold-th closes it with all counters reset. A probe that fails after any number of successes
  below the threshold reopens it, with the cool-down restarted at the probe's completion time: calls
  within the open timeout of that instant are rejected without running. In a half-open breaker that is
  shared by concurrent callers any failed probe of the current generation does the same, whatever the
  counters are.
\<close>

theorem recovers_after_cooldown:
  assumes "state b = StateOpen" and "int (length ts) < successThreshold b"
    and "\<not> time_Sub (fst (hd (ts @ [(u0, u1)]))) (openedAt b) < openTimeout b"
  shows "let oks = map (\<lambda>(t0, t1). (True, t0, t1)) ts;
      reopened = b\<lparr>state := StateOpen, generation := generation b + 2, failures := 0, successes := 0, inFlight := 0,
        openedAt := u1\<rparr>
    in (ts \<noteq> [] \<longrightarrow> run_calls b oks =
          b\<lparr>state := StateHalfOpen, generation := generation b + 1, failures := 0, successes := int (length ts), inFlight := 0\<rparr>) \<and>
       (int (length ts) + 1 = successThreshold b \<longrightarrow> run_calls b (oks @ [(True, u0, u1)]) =
          b\<lparr>state := StateClosed, generation := generation b + 2, failures := 0, successes := 0, inFlight := 0\<rparr>) \<and>
       run_calls b (oks @ [(False, u0, u1)]) = reopened \<and>
       (time_Sub t u1 < openTimeout b \<longrightarrow> Do reopened None (Some f) t t' = (reopened, DoErrOpen)) \<and>
       (state h = StateHalfOpen \<longrightarrow> record_outcome h (generation h) False now =
          h\<lparr>state := StateOpen, generation := generation h + 1, failures := 0, successes := 0, inFlight := 0, openedAt := now\<rparr>)"
proof -
  let ?h = "transition b StateHalfOpen (fst (hd (ts @ [(u0, u1)])))"
  let ?ok = "map (\<lambda>(t0, t1). (True, t0, t1)) ts"
  let ?reopened = "b\<lparr>state := StateOpen, generation := generation b + 2, failures := 0, successes := 0, inFlight := 0,
      openedAt := u1\<rparr>"
  have h: "state ?h = StateHalfOpen" "inFlight ?h = 0" "successes ?h = 0"
    "successThreshold ?h = successThreshold b"
    by (simp_all add: transition_def)
  have mid: "run_calls ?h ?ok = ?h\<lparr>successes := int (length ts)\<rparr>"
    by (rule run_half_open) (use h assms(2) in auto)
  have first: "run_calls b (?ok @ cs) = run_calls ?h (?ok @ cs)" if "ts \<noteq> []" for cs
    using that assms first_probe [of b "fst (hd ts)" True "snd (hd ts)"] by (cases ts) (auto split: prod.splits)
  have start: "run_calls b (?ok @ [(ok, u0, u1)]) = run_calls ?h (?ok @ [(ok, u0, u1)])" for ok
  proof (cases ts)
    case Nil
    with assms show ?thesis by (simp add: first_probe [of b u0 ok u1 "[]"] del: run_calls.simps(2))
  qed (use first in simp)
  have "ts \<noteq> [] \<longrightarrow> run_calls b ?ok =
      b\<lparr>state := StateHalfOpen, generation := generation b + 1, failures := 0, successes := int (length ts), inFlight := 0\<rparr>"
    using first [of "[]"] mid by (simp add: transition_def)
  moreover have "int (length ts) + 1 = successThreshold b \<longrightarrow> run_calls b (?ok @ [(True, u0, u1)]) =
      b\<lparr>state := StateClosed, generation := generation b + 2, failures := 0, successes := 0, inFlight := 0\<rparr>"
    unfolding start unfolding run_calls_append mid using h
    by (simp add: probe_success transition_def del: run_calls.simps(2))
  moreover have "run_calls b (?ok @ [(False, u0, u1)]) = ?reopened"
    unfolding start unfolding run_calls_append mid using h assms(2)
    by (simp add: probe_failure transition_def del: run_calls.simps(2))
  moreover have "time_Sub t u1 < openTimeout b \<longrightarrow> Do ?reopened None (Some f) t t' = (?reopened, DoErrOpen)"
    by (auto intro!: cooling_rejects)
  moreover have "state h = StateHalfOpen \<longrightarrow> record_outcome h (generation h) False now =
      h\<lparr>state := StateOpen, generation := generation h + 1, failures := 0, successes := 0, inFlight := 0, openedAt := now\<rparr>"
    by (simp add: record_outcome_def transition_def Let_def)
  ultimately show ?thesis unfolding Let_def by blast
qed

text \<open>With a threshold of three: closed by three successes, reopened by a failure after one.\<close>

theorem recovers_after_cooldown_witness:
  "let b = transition (breaker_New [\<lambda>b. b\<lparr>successThreshold := 3\<rparr>]) StateOpen 0; t = 30 * 10 ^ 9
   in state (run_calls b [(True, t, t + 1), (True, t + 2, t + 3)]) = StateHalfOpen \<and>
      state (run_calls b [(True, t, t + 1), (True, t + 2, t + 3), (True, t + 4, t + 5)]) = StateClosed \<and>
      state (run_calls b [(True, t, t + 1), (False, t + 2, t + 3)]) = StateOpen"
proof -
  define b where "b = transition (breaker_New [\<lambda>b. b\<lparr>successThreshold := 3\<rparr>]) StateOpen 0"
  define t where "t = (30 * 10 ^ 9 :: int)"
  let ?f = "\<lambda>b. (b, FnReturns (None :: unit option) :: (unit, unit) fn_result)"
  have b: "state b = StateOpen" "int (length [(t, t + 1), (t + 2, t + 3)]) < successThreshold b"
      "int (length [(t, t + 1)]) < successThreshold b" "\<not> time_Sub t (openedAt b) < openTimeout b" "successThreshold b = 3"
    by (simp_all add: b_def t_def transition_def breaker_New_def time_Sub_def int64_defs)
  have "state (run_calls b [(True, t, t + 1), (True, t + 2, t + 3)]) = StateHalfOpen \<and>
      state (run_calls b [(True, t, t + 1), (True, t + 2, t + 3), (True, t + 4, t + 5)]) = StateClosed"
    using recovers_after_cooldown [OF b(1,2), of "t + 4" "t + 5" 0 ?f 0 b 0] b(4,5) by (simp add: Let_def del: run_calls.simps)
  moreover have "state (run_calls b [(True, t, t + 1), (False, t + 2, t + 3)]) = StateOpen"
    using recovers_after_cooldown [OF b(1,3), of "t + 2" "t + 3" 0 ?f 0 b 0] b(4) by (simp add: Let_def del: run_calls.simps)
  ultimately show ?thesis by (simp add: b_def t_def Let_def del: run_calls.simps)
qed

text \<open>
  \<open>State\<close> is a faithful observer: it reports the state the next admission runs under, and
  it reports open exactly when a call at that instant would be rejected by the cool-down, leaving
  the breaker as it is.
\<close>

theorem State_predicts_admission:
  assumes "configured b"
  shows "(\<forall>b' gen. admit b now = (b', Admitted gen) \<longrightarrow> state b' = breaker_State b now \<and> gen = generation b') \<and>
    (breaker_State b now = StateOpen \<longleftrightarrow> state b = StateOpen \<and> admit b now = (b, ErrOpen))"
  using assms
  by (auto simp: admit_def admit_probe_def breaker_State_def transition_def configured_def split: if_splits)

theorem State_predicts_admission_witness:
  "breaker_State (transition (breaker_New []) StateOpen 0) 1 = StateOpen"
  using State_predicts_admission [of "transition (breaker_New []) StateOpen 0" 1]
  by (simp add: configured_def transition_def breaker_New_def admit_def time_Sub_def int64_defs)

end
