(* ===== verification/Float64.thy ===== *)
theory Float64
  imports GoPrelude Complex_Main "HOL-Library.Log_Nat"
begin

text \<open>
  Go's \<open>float64\<close>: IEEE-754 binary64 with round-to-nearest, ties-to-even. A finite value is the
  rational it denotes, so arithmetic is exact arithmetic followed by one rounding; the two zeros are one
  value, which no operation used here tells apart. Multiplications and additions are not fused.
\<close>

section \<open>Rounding\<close>

text \<open>The exponent of the leading bit of a positive rational.\<close>

definition ilog2 :: "rat \<Rightarrow> int" where
  "ilog2 x = (case quotient_of x of (n, d) \<Rightarrow>
     let k = bitlen n - bitlen d
     in if 2 powi k \<le> x then k else k - 1)"

definition round_even :: "rat \<Rightarrow> int" where
  "round_even x =
     (let f = \<lfloor>x\<rfloor>; r = x - of_int f
      in if r < 1 / 2 then f else if 1 / 2 < r then f + 1 else if even f then f else f + 1)"

text \<open>The exponent of the last significand bit: 53 bits, and \<open>2 powi -1074\<close> at the least.\<close>

definition ulp_exp :: "rat \<Rightarrow> int" where
  "ulp_exp x = max (ilog2 \<bar>x\<bar> - 52) (- 1074)"

definition rnd :: "rat \<Rightarrow> rat" where
  "rnd x = (if x = 0 then 0 else of_int (round_even (x / 2 powi ulp_exp x)) * 2 powi ulp_exp x)"

section \<open>Values and operations\<close>

datatype float64 = Fin rat | PInf | NInf | NaN

definition f64 :: "rat \<Rightarrow> float64" where
  "f64 x = (let r = rnd x in
     if r = 0 \<or> ilog2 \<bar>r\<bar> < 1024 then Fin r else if 0 < r then PInf else NInf)"

definition f64_of_int :: "int \<Rightarrow> float64" where
  "f64_of_int n = f64 (of_int n)"

fun fneg :: "float64 \<Rightarrow> float64" where
  "fneg (Fin a) = Fin (- a)"
| "fneg PInf = NInf"
| "fneg NInf = PInf"
| "fneg NaN = NaN"

fun fadd :: "float64 \<Rightarrow> float64 \<Rightarrow> float64" where
  "fadd (Fin a) (Fin b) = f64 (a + b)"
| "fadd NaN y = NaN"
| "fadd x NaN = NaN"
| "fadd PInf NInf = NaN"
| "fadd NInf PInf = NaN"
| "fadd PInf y = PInf"
| "fadd NInf y = NInf"
| "fadd x PInf = PInf"
| "fadd x NInf = NInf"

definition fsub :: "float64 \<Rightarrow> float64 \<Rightarrow> float64" where
  "fsub x y = fadd x (fneg y)"

definition finf :: "rat \<Rightarrow> float64" where
  "finf s = (if 0 < s then PInf else if s < 0 then NInf else NaN)"

fun fsgn :: "float64 \<Rightarrow> rat" where
  "fsgn (Fin a) = sgn a"
| "fsgn PInf = 1"
| "fsgn NInf = - 1"
| "fsgn NaN = 0"

fun fmul :: "float64 \<Rightarrow> float64 \<Rightarrow> float64" where
  "fmul (Fin a) (Fin b) = f64 (a * b)"
| "fmul x y = finf (fsgn x * fsgn y)"

text \<open>Division by zero gives an infinity, zero by zero a NaN.\<close>

fun fdiv :: "float64 \<Rightarrow> float64 \<Rightarrow> float64" where
  "fdiv (Fin a) (Fin b) = (if b = 0 then finf (sgn a) else f64 (a / b))"
| "fdiv NaN y = NaN"
| "fdiv x NaN = NaN"
| "fdiv (Fin a) y = Fin 0"
| "fdiv x (Fin b) = finf (fsgn x * (if b < 0 then - 1 else 1))"
| "fdiv x y = NaN"

fun fle :: "float64 \<Rightarrow> float64 \<Rightarrow> bool" where
  "fle (Fin a) (Fin b) \<longleftrightarrow> a \<le> b"
| "fle NaN y \<longleftrightarrow> False"
| "fle x NaN \<longleftrightarrow> False"
| "fle x PInf \<longleftrightarrow> True"
| "fle NInf y \<longleftrightarrow> True"
| "fle x y \<longleftrightarrow> False"

fun flt :: "float64 \<Rightarrow> float64 \<Rightarrow> bool" where
  "flt (Fin a) (Fin b) \<longleftrightarrow> a < b"
| "flt NaN y \<longleftrightarrow> False"
| "flt x NaN \<longleftrightarrow> False"
| "flt PInf y \<longleftrightarrow> False"
| "flt x NInf \<longleftrightarrow> False"
| "flt x y \<longleftrightarrow> True"

fun fceil :: "float64 \<Rightarrow> float64" where
  "fceil (Fin a) = Fin (of_int \<lceil>a\<rceil>)"
| "fceil x = x"

text \<open>The built-in \<open>min\<close>: a NaN operand makes the result a NaN.\<close>

definition fmin :: "float64 \<Rightarrow> float64 \<Rightarrow> float64" where
  "fmin x y = (if x = NaN \<or> y = NaN then NaN else if fle x y then x else y)"

definition trunc :: "rat \<Rightarrow> int" where
  "trunc a = (if 0 \<le> a then \<lfloor>a\<rfloor> else \<lceil>a\<rceil>)"

text \<open>
  Conversion to \<open>int64\<close> truncates. A value that does not fit gives an implementation-dependent
  result in Go: it is the parameter \<open>conv\<close>.
\<close>

definition f64_to_int64 :: "(float64 \<Rightarrow> int) \<Rightarrow> float64 \<Rightarrow> int" where
  "f64_to_int64 conv x =
     (case x of Fin a \<Rightarrow> if in_int64 (trunc a) then trunc a else conv x | _ \<Rightarrow> conv x)"

text \<open>On amd64 every such conversion yields the least \<open>int64\<close>.\<close>

definition amd64_conv :: "float64 \<Rightarrow> int" where
  "amd64_conv x = int64_min"

section \<open>The leading bit\<close>

lemma floorlog_pow:
  assumes "0 < n"
  shows "2 powi (int (floorlog 2 n) - 1) \<le> (of_nat n :: rat)" "(of_nat n :: rat) < 2 powi int (floorlog 2 n)"
proof -
  have b: "2 ^ (floorlog 2 n - 1) \<le> n" "n < 2 ^ floorlog 2 n"
    using floorlog_bounds [of n 2] assms by auto
  have "0 < floorlog 2 n" using assms by (simp add: floorlog_def)
  then have "int (floorlog 2 n) - 1 = int (floorlog 2 n - 1)" by simp
  then have "2 powi (int (floorlog 2 n) - 1) = (of_nat (2 ^ (floorlog 2 n - 1)) :: rat)"
    by (simp only: power_int_of_nat) simp
  also have "\<dots> \<le> of_nat n" using b(1) by (simp only: of_nat_le_iff)
  finally show "2 powi (int (floorlog 2 n) - 1) \<le> (of_nat n :: rat)" .
  have "(of_nat n :: rat) < of_nat (2 ^ floorlog 2 n)" using b(2) by (simp only: of_nat_less_iff)
  then show "(of_nat n :: rat) < 2 powi int (floorlog 2 n)" by simp
qed

lemma ilog2_bounds:
  assumes "0 < x"
  shows "2 powi ilog2 x \<le> x" "x < 2 powi (ilog2 x + 1)"
proof -
  obtain n d where q: "quotient_of x = (n, d)" by force
  have d: "0 < d" using quotient_of_denom_pos [OF q] .
  have x: "x = of_int n / of_int d" using quotient_of_div [OF q] .
  have n: "0 < n" using assms d unfolding x by (simp add: zero_less_divide_iff)
  define a b where "a = int (floorlog 2 (nat n))" and "b = int (floorlog 2 (nat d))"
  have N: "2 powi (a - 1) \<le> (of_int n :: rat)" "(of_int n :: rat) < 2 powi a"
    using floorlog_pow [of "nat n"] n by (simp_all add: a_def)
  have D: "2 powi (b - 1) \<le> (of_int d :: rat)" "(of_int d :: rat) < 2 powi b"
    using floorlog_pow [of "nat d"] d by (simp_all add: b_def)
  have "x < 2 powi a / 2 powi (b - 1)"
    unfolding x using N(2) D(1) d n by (intro frac_less) auto
  then have up: "x < 2 powi (a - b + 1)" by (simp add: power_int_diff power_int_add)
  have "2 powi (a - 1) / 2 powi b \<le> x"
    unfolding x using N(1) D(2) d n by (intro frac_le) auto
  then have lo: "2 powi (a - b - 1) \<le> x"
    by (simp add: power_int_diff power_int_add field_simps)
  have "ilog2 x = (if 2 powi (a - b) \<le> x then a - b else a - b - 1)"
    by (simp add: ilog2_def q a_def b_def Let_def bitlen_def)
  with up lo show "2 powi ilog2 x \<le> x" "x < 2 powi (ilog2 x + 1)" by (auto split: if_splits)
qed

lemma two_powi_less_iff: "(2 :: rat) powi a < 2 powi b \<longleftrightarrow> a < b"
  using power_int_strict_increasing [of a b "2 :: rat"] power_int_increasing [of b a "2 :: rat"]
  by fastforce

lemma two_powi_le_iff: "(2 :: rat) powi a \<le> 2 powi b \<longleftrightarrow> a \<le> b"
  by (meson linorder_not_less two_powi_less_iff)

lemma ilog2_less_iff: "0 < x \<Longrightarrow> ilog2 x < k \<longleftrightarrow> x < 2 powi k"
proof -
  assume x: "0 < x"
  note b = ilog2_bounds [OF x]
  show ?thesis
  proof
    assume "ilog2 x < k"
    then have "2 powi (ilog2 x + 1) \<le> (2 :: rat) powi k" by (simp add: two_powi_le_iff)
    with b show "x < 2 powi k" by linarith
  next
    assume "x < 2 powi k"
    with b have "2 powi ilog2 x < (2 :: rat) powi k" by linarith
    then show "ilog2 x < k" by (simp add: two_powi_less_iff)
  qed
qed

lemma ilog2_mono: "0 < x \<Longrightarrow> x \<le> y \<Longrightarrow> ilog2 x \<le> ilog2 y"
  using ilog2_less_iff [of x "ilog2 y + 1"] ilog2_bounds [of y] by fastforce

section \<open>Round to nearest even\<close>

lemma round_even_of_int [simp]: "round_even (of_int n) = n"
  by (simp add: round_even_def)

lemma round_even_near: "\<bar>of_int (round_even x) - x\<bar> \<le> 1 / 2"
proof -
  define f where "f = (of_int \<lfloor>x\<rfloor> :: rat)"
  have "f \<le> x" "x < f + 1" unfolding f_def by linarith+
  moreover have "of_int (round_even x) = (if x - f < 1 / 2 then f else if 1 / 2 < x - f then f + 1
      else if even \<lfloor>x\<rfloor> then f else f + 1)"
    by (simp add: round_even_def Let_def f_def)
  ultimately show ?thesis by (auto simp: abs_le_iff)
qed

lemma round_even_mono: "x \<le> y \<Longrightarrow> round_even x \<le> round_even y"
proof -
  assume xy: "x \<le> y"
  have b: "of_int \<lfloor>x\<rfloor> \<le> x" "x < of_int \<lfloor>x\<rfloor> + 1" "of_int \<lfloor>y\<rfloor> \<le> y" "y < of_int \<lfloor>y\<rfloor> + 1"
    by linarith+
  show ?thesis
  proof (cases "\<lfloor>x\<rfloor> = \<lfloor>y\<rfloor>")
    case True
    with xy show ?thesis by (auto simp: round_even_def Let_def)
  next
    case False
    then have "\<lfloor>x\<rfloor> + 1 \<le> \<lfloor>y\<rfloor>" using floor_mono [OF xy] by linarith
    moreover have "round_even x \<le> \<lfloor>x\<rfloor> + 1" "\<lfloor>y\<rfloor> \<le> round_even y"
      by (auto simp: round_even_def Let_def)
    ultimately show ?thesis by linarith
  qed
qed

lemma round_even_uminus: "round_even (- x) = - round_even x"
proof (cases "x = of_int \<lfloor>x\<rfloor>")
  case True
  then show ?thesis by (metis of_int_minus round_even_of_int)
next
  case False
  have f: "\<lfloor>- x\<rfloor> = - \<lfloor>x\<rfloor> - 1" using False by linarith
  show ?thesis
    using False unfolding round_even_def f Let_def by (auto simp: field_simps)
qed

section \<open>Rounding to binary64\<close>

lemma rnd_zero [simp]: "rnd 0 = 0"
  by (simp add: rnd_def)

lemma rnd_uminus: "rnd (- x) = - rnd x"
  by (simp add: rnd_def ulp_exp_def round_even_uminus)

text \<open>A value with at most 53 significant bits above the least exponent is a float.\<close>

lemma rnd_exact:
  assumes "\<bar>m\<bar> < 2 ^ 53" and "- 1074 \<le> e"
  shows "rnd (of_int m * 2 powi e) = of_int m * 2 powi e"
proof (cases "m = 0")
  case False
  let ?x = "of_int m * 2 powi e :: rat"
  have pos: "0 < \<bar>?x\<bar>" using False by simp
  have "\<bar>of_int m :: rat\<bar> < of_int (2 ^ 53)" using assms(1) by (simp only: flip: of_int_abs of_int_less_iff)
  then have "\<bar>?x\<bar> < 2 powi 53 * 2 powi e" by (simp add: abs_mult)
  also have "\<dots> = 2 powi (e + 53)" using power_int_add [of "2 :: rat" e 53] by simp
  finally have "ilog2 \<bar>?x\<bar> < e + 53" using pos by (simp add: ilog2_less_iff)
  then have "ulp_exp ?x \<le> e" using assms(2) by (simp add: ulp_exp_def)
  then obtain k where k: "e = ulp_exp ?x + int k" by (metis zle_iff_zadd)
  define u where "u = ulp_exp ?x"
  have e: "2 powi e = (2 powi u * 2 ^ k :: rat)"
    using power_int_add [of "2 :: rat" u "int k"] k by (simp flip: u_def)
  have "?x / 2 powi u = of_int (m * 2 ^ k)" by (simp add: e)
  then have "round_even (?x / 2 powi u) = m * 2 ^ k" by (simp only: round_even_of_int)
  then have "rnd ?x = of_int (m * 2 ^ k) * 2 powi u"
    using False by (simp only: rnd_def flip: u_def) simp
  then show ?thesis by (simp add: e)
qed simp

corollary rnd_of_int [simp]: "\<bar>n\<bar> < 2 ^ 53 \<Longrightarrow> rnd (of_int n) = of_int n"
  using rnd_exact [of n 0] by simp

corollary rnd_two_powi [simp]: "- 1074 \<le> e \<Longrightarrow> rnd (2 powi e) = 2 powi e"
  using rnd_exact [of 1 e] by simp

lemma rnd_pos_mono:
  assumes "0 < x" and "x \<le> y"
  shows "rnd x \<le> rnd y"
proof (cases "ulp_exp x = ulp_exp y")
  case True
  have "x / 2 powi ulp_exp y \<le> y / 2 powi ulp_exp y"
    using assms by (simp add: divide_right_mono)
  then show ?thesis
    using assms True by (auto simp: rnd_def intro!: mult_right_mono round_even_mono)
next
  case False
  let ?k = "ilog2 y"
  have "ilog2 x \<le> ?k" using assms by (rule ilog2_mono)
  with False assms have k: "ulp_exp y = ?k - 52" "ilog2 x < ?k" "ulp_exp x < ulp_exp y"
    by (auto simp: ulp_exp_def split: if_splits)
  have below: "rnd x \<le> 2 powi ?k"
  proof -
    have "ulp_exp x \<le> ?k" using k by linarith
    then obtain j where j: "?k = ulp_exp x + int j" by (metis zle_iff_zadd)
    have "x < 2 powi ?k" using k(2) assms(1) by (simp add: ilog2_less_iff)
    then have "x / 2 powi ulp_exp x \<le> of_int (2 ^ j)"
      by (simp add: j power_int_add pos_divide_le_eq mult.commute)
    then have "round_even (x / 2 powi ulp_exp x) \<le> 2 ^ j"
      using round_even_mono [of _ "of_int (2 ^ j)"] by (simp only: round_even_of_int)
    then have "of_int (round_even (x / 2 powi ulp_exp x)) \<le> (of_int (2 ^ j) :: rat)"
      by (simp only: of_int_le_iff)
    then have "of_int (round_even (x / 2 powi ulp_exp x)) * 2 powi ulp_exp x \<le> 2 ^ j * (2 :: rat) powi ulp_exp x"
      by (intro mult_right_mono) simp_all
    then show ?thesis using assms(1) by (simp add: rnd_def j power_int_add mult.commute)
  qed
  have above: "2 powi ?k \<le> rnd y"
  proof -
    have y: "2 powi ?k \<le> y" using ilog2_bounds(1) [of y] assms by simp
    have s: "2 powi ?k = (2 ^ 52 :: rat) * 2 powi ulp_exp y"
      using power_int_add [of "2 :: rat" 52 "?k - 52"] by (simp add: k(1))
    with y have "of_int (2 ^ 52) \<le> y / 2 powi ulp_exp y" by (simp add: pos_le_divide_eq)
    then have "2 ^ 52 \<le> round_even (y / 2 powi ulp_exp y)"
      using round_even_mono [of "of_int (2 ^ 52)"] by (simp only: round_even_of_int)
    then have "(of_int (2 ^ 52) :: rat) \<le> of_int (round_even (y / 2 powi ulp_exp y))"
      by (simp only: of_int_le_iff)
    then have "2 ^ 52 * (2 :: rat) powi ulp_exp y \<le> of_int (round_even (y / 2 powi ulp_exp y)) * 2 powi ulp_exp y"
      by (intro mult_right_mono) simp_all
    then show ?thesis using assms by (simp add: rnd_def s)
  qed
  from below above show ?thesis by (rule order_trans)
qed

lemma rnd_nonneg: "0 \<le> x \<Longrightarrow> 0 \<le> rnd x"
proof (cases "x = 0")
  case False
  assume "0 \<le> x"
  then have "round_even 0 \<le> round_even (x / 2 powi ulp_exp x)"
    by (intro round_even_mono) simp
  then have "0 \<le> round_even (x / 2 powi ulp_exp x)"
    using round_even_of_int [of 0] by simp
  then show ?thesis by (simp add: rnd_def)
qed simp

lemma rnd_mono: "x \<le> y \<Longrightarrow> rnd x \<le> rnd y"
proof -
  assume xy: "x \<le> y"
  consider "0 < x" | "x \<le> 0" "0 \<le> y" | "y < 0" by linarith
  then show ?thesis
  proof cases
    case 2
    then have "rnd x \<le> 0" using rnd_nonneg [of "- x"] by (simp add: rnd_uminus)
    with rnd_nonneg [OF 2(2)] show ?thesis by linarith
  next
    case 3
    then show ?thesis using rnd_pos_mono [of "- y" "- x"] xy by (simp add: rnd_uminus)
  qed (rule rnd_pos_mono [OF _ xy])
qed

lemma rnd_error: "\<bar>rnd x - x\<bar> \<le> 2 powi ulp_exp x / 2"
proof (cases "x = 0")
  case False
  let ?u = "2 powi ulp_exp x :: rat"
  have "rnd x - x = (of_int (round_even (x / ?u)) - x / ?u) * ?u"
    using False by (simp add: rnd_def field_simps)
  then have "\<bar>rnd x - x\<bar> = \<bar>of_int (round_even (x / ?u)) - x / ?u\<bar> * ?u"
    by (simp add: abs_mult)
  also have "\<dots> \<le> 1 / 2 * ?u" by (intro mult_right_mono round_even_near) simp
  finally show ?thesis by simp
qed simp

lemma rnd_relative_error: "\<bar>rnd x - x\<bar> \<le> \<bar>x\<bar> * 2 powi (- 53) + 2 powi (- 1075)"
proof (cases "x = 0")
  case False
  have b: "2 powi ilog2 \<bar>x\<bar> \<le> \<bar>x\<bar>" using ilog2_bounds(1) [of "\<bar>x\<bar>"] False by simp
  have "2 powi ulp_exp x / 2 = (2 :: rat) powi (ulp_exp x - 1)"
    by (simp add: power_int_diff)
  also have "\<dots> \<le> \<bar>x\<bar> * 2 powi (- 53) + 2 powi (- 1075)"
  proof (cases "ulp_exp x = - 1074")
    case True
    then show ?thesis by simp
  next
    case False
    then have u: "ulp_exp x - 1 = ilog2 \<bar>x\<bar> + - 53" by (auto simp: ulp_exp_def)
    have "2 powi (ulp_exp x - 1) = 2 powi ilog2 \<bar>x\<bar> * (2 :: rat) powi (- 53)"
      unfolding u by (rule power_int_add) simp
    also have "\<dots> \<le> \<bar>x\<bar> * 2 powi (- 53)" using b by (intro mult_right_mono) simp_all
    moreover have "0 \<le> (2 :: rat) powi (- 1075)" by simp
    ultimately show ?thesis by linarith
  qed
  finally show ?thesis using rnd_error [of x] by linarith
qed simp

text \<open>The same with a round absolute term, which is all that the bounds below need.\<close>

lemma rnd_err:
  "rnd x \<le> x + \<bar>x\<bar> / 2 ^ 53 + 1 / 2 ^ 100" "x - \<bar>x\<bar> / 2 ^ 53 - 1 / 2 ^ 100 \<le> rnd x"
proof -
  have "(2 :: rat) powi (- 1075) \<le> 2 powi (- 100)" by (simp only: two_powi_le_iff)
  also have "\<dots> = 1 / 2 ^ 100" by (simp add: power_int_minus_divide)
  finally have e: "(2 :: rat) powi (- 1075) \<le> 1 / 2 ^ 100" .
  have f: "\<bar>x\<bar> * 2 powi (- 53) = \<bar>x\<bar> / 2 ^ 53" by (simp add: power_int_minus_divide)
  show "rnd x \<le> x + \<bar>x\<bar> / 2 ^ 53 + 1 / 2 ^ 100" "x - \<bar>x\<bar> / 2 ^ 53 - 1 / 2 ^ 100 \<le> rnd x"
    using rnd_relative_error [of x] e f unfolding abs_le_iff by linarith+
qed

text \<open>Rounding gives a float: rounding again changes nothing.\<close>

lemma rnd_idem [simp]: "rnd (rnd x) = rnd x"
proof (cases "x = 0")
  case False
  let ?u = "ulp_exp x" and ?m = "round_even (x / 2 powi ulp_exp x)"
  have "\<bar>x\<bar> < 2 powi (ilog2 \<bar>x\<bar> + 1)" using ilog2_bounds(2) [of "\<bar>x\<bar>"] False by simp
  also have "\<dots> \<le> 2 powi (?u + 53)" by (simp add: two_powi_le_iff ulp_exp_def)
  also have "\<dots> = 2 powi ?u * 2 ^ 53" using power_int_add [of "2 :: rat" ?u 53] by simp
  finally have "x < 2 powi ?u * 2 ^ 53" "- (2 powi ?u * 2 ^ 53) < x" by linarith+
  then have "x / 2 powi ?u \<le> of_int (2 ^ 53)" "of_int (- (2 ^ 53)) \<le> x / 2 powi ?u"
    by (simp_all add: pos_divide_le_eq pos_le_divide_eq mult.commute)
  then have m: "?m \<le> 2 ^ 53" "- (2 ^ 53) \<le> ?m"
    using round_even_mono [of "x / 2 powi ?u" "of_int (2 ^ 53)"]
      round_even_mono [of "of_int (- (2 ^ 53))" "x / 2 powi ?u"]
    by (simp_all only: round_even_of_int)
  have r: "rnd x = of_int ?m * 2 powi ?u" using False by (simp add: rnd_def)
  have u: "- 1074 \<le> ?u" by (simp add: ulp_exp_def)
  have top: "2 ^ 53 * (2 :: rat) powi ?u = 2 powi (?u + 53)"
    using power_int_add [of "2 :: rat" ?u 53] by simp
  have top_exact: "rnd (2 powi (?u + 53)) = 2 powi (?u + 53)" using u by simp
  consider "\<bar>?m\<bar> < 2 ^ 53" | "?m = 2 ^ 53" | "?m = - (2 ^ 53)" using m by linarith
  then show ?thesis
  proof cases
    case 1
    then show ?thesis unfolding r using u by (rule rnd_exact)
  next
    case 2
    then have "rnd x = 2 powi (?u + 53)" using r top by simp
    with top_exact show ?thesis by simp
  next
    case 3
    then have "rnd x = - (2 powi (?u + 53))" using r top by simp
    with top_exact show ?thesis by (simp add: rnd_uminus)
  qed
qed simp

text \<open>A float below \<open>2 ^ 53\<close> loses nothing when an integer below it is taken away.\<close>

lemma rnd_minus_one:
  assumes "rnd x = x" and "1 \<le> x" and "x < 2 ^ 53"
  shows "rnd (x - 1) = x - 1"
proof -
  define u where "u = ulp_exp x"
  define m where "m = round_even (x / 2 powi u)"
  have "ilog2 x < 53" using assms by (simp add: ilog2_less_iff)
  then have "u \<le> 0" using assms(2) by (simp add: u_def ulp_exp_def)
  then obtain k where k: "u = - int k" by (metis nonpos_int_cases)
  have u: "- 1074 \<le> u" by (simp add: u_def ulp_exp_def)
  have x: "x = of_int m * 2 powi u" using assms(1,2) by (simp add: rnd_def m_def u_def)
  have one: "1 = of_int (2 ^ k) * (2 :: rat) powi u" by (simp add: k power_int_minus)
  have "x - 1 = of_int m * 2 powi u - of_int (2 ^ k) * 2 powi u"
    using x one by simp
  also have "\<dots> = of_int (m - 2 ^ k) * 2 powi u" by (simp add: left_diff_distrib)
  finally have d: "x - 1 = of_int (m - 2 ^ k) * 2 powi u" .
  have "x < 2 powi (ilog2 x + 1)" using ilog2_bounds(2) [of x] assms(2) by simp
  also have "\<dots> \<le> 2 powi (u + 53)" using assms(2) by (simp add: two_powi_le_iff u_def ulp_exp_def)
  also have "\<dots> = 2 ^ 53 * 2 powi u" using power_int_add [of "2 :: rat" u 53] by simp
  finally have "of_int m * 2 powi u < of_int (2 ^ 53) * (2 :: rat) powi u" using x by simp
  then have "of_int m < (of_int (2 ^ 53) :: rat)" by (simp only: mult_less_cancel_right) simp
  then have "m < 2 ^ 53" by (simp only: of_int_less_iff)
  moreover have "0 \<le> of_int (m - 2 ^ k) * (2 :: rat) powi u"
    using d assms(2) by (metis diff_ge_0_iff_ge)
  moreover have "0 < (2 :: rat) powi u" by simp
  ultimately have "m < 2 ^ 53" "0 \<le> m - 2 ^ k"
    by (auto simp: zero_le_mult_iff simp del: of_int_diff of_int_power)
  moreover have "0 < (2 :: int) ^ k" by simp
  ultimately have "\<bar>m - 2 ^ k\<bar> < 2 ^ 53" by linarith
  then show ?thesis unfolding d using u by (rule rnd_exact)
qed

section \<open>Finite results\<close>

lemma f64_Fin: "\<bar>rnd x\<bar> < 2 ^ 1024 \<Longrightarrow> f64 x = Fin (rnd x)"
proof (cases "rnd x = 0")
  case False
  assume "\<bar>rnd x\<bar> < 2 ^ 1024"
  then have "ilog2 \<bar>rnd x\<bar> < 1024" using ilog2_less_iff [of "\<bar>rnd x\<bar>" 1024] False by simp
  then show ?thesis by (simp add: f64_def)
qed (simp add: f64_def)

lemma rnd_le_pow: "x \<le> 2 ^ k \<Longrightarrow> rnd x \<le> 2 ^ k"
  using rnd_mono [of x "2 ^ k"] rnd_two_powi [of "int k"] by simp

lemma rnd_ge_pow: "- (2 ^ k) \<le> x \<Longrightarrow> - (2 ^ k) \<le> rnd x"
  using rnd_le_pow [of "- x" k] by (simp add: rnd_uminus)

lemma f64_bounded: "\<bar>x\<bar> \<le> 2 ^ 1023 \<Longrightarrow> f64 x = Fin (rnd x)"
proof -
  assume "\<bar>x\<bar> \<le> 2 ^ 1023"
  then have "\<bar>rnd x\<bar> \<le> 2 ^ 1023"
    using rnd_le_pow [of x 1023] rnd_ge_pow [of 1023 x] unfolding abs_le_iff by linarith
  also have "\<dots> < (2 :: rat) ^ 1024" by (rule power_strict_increasing) simp_all
  finally show ?thesis by (rule f64_Fin)
qed

lemma f64_PInf_or_Fin:
  assumes "- (2 ^ 1023) \<le> x"
  shows "f64 x = Fin (rnd x) \<or> (f64 x = PInf \<and> 2 ^ 1023 < x)"
proof (cases "x \<le> 2 ^ 1023")
  case True
  then show ?thesis using assms by (simp add: f64_bounded abs_le_iff)
next
  case False
  then have "0 \<le> rnd x" by (intro rnd_nonneg) (meson linear order_trans zero_le_numeral zero_le_power)
  with False show ?thesis by (auto simp: f64_def Let_def)
qed

lemma f64_of_int_exact: "\<bar>n\<bar> < 2 ^ 53 \<Longrightarrow> f64_of_int n = Fin (of_int n)"
proof -
  assume n: "\<bar>n\<bar> < 2 ^ 53"
  then have "\<bar>rat_of_int n\<bar> < of_int (2 ^ 53)" by (simp only: flip: of_int_abs of_int_less_iff)
  also have "\<dots> \<le> (2 :: rat) ^ 1023" by (simp only: of_int_power of_int_numeral, rule power_increasing) simp_all
  finally show ?thesis using n by (simp add: f64_of_int_def f64_bounded)
qed

end
