(* ===== verification/Retry.thy ===== *)
theory Retry
  imports Float64
begin

text \<open>
  Retry with exponential backoff, \<open>pkg/retry\<close>. The environment of a run (the results of the
  retried function, the random numbers, the state of the context and the wake-ups of the sleeps) is a
  record of functions of the attempt number; the model returns the result together with the log of
  calls and sleeps.
\<close>

section \<open>Policy\<close>

record policy =
  MaxAttempts :: int
  BaseDelay :: duration
  MaxDelay :: duration
  Jitter :: float64

definition mustBeValid :: "policy \<Rightarrow> unit go" where
  "mustBeValid p =
     (if MaxAttempts p \<le> 0 then Panic ''retry: Policy.MaxAttempts must be > 0''
      else if BaseDelay p < 0 then Panic ''retry: Policy.BaseDelay must be >= 0''
      else if MaxDelay p < BaseDelay p then Panic ''retry: Policy.MaxDelay must be >= Policy.BaseDelay''
      else if flt (Jitter p) (Fin 0) \<or> flt (Fin 1) (Jitter p)
        then Panic ''retry: Policy.Jitter must be in [0, 1]''
      else Return ())"

text \<open>\<open>u\<close> is the random number drawn, \<open>conv\<close> the conversion of values outside \<open>int64\<close>.\<close>

definition jittered :: "(float64 \<Rightarrow> int) \<Rightarrow> policy \<Rightarrow> float64 \<Rightarrow> duration \<Rightarrow> duration" where
  "jittered conv p u d =
     (if Jitter p = Fin 0 \<or> d = 0 then d
      else let j = f64_to_int64 conv
                 (fmul (fadd (Fin 1) (fmul (Jitter p) (fsub (fmul (Fin 2) u) (Fin 1)))) (f64_of_int d))
           in if j > MaxDelay p then MaxDelay p else if j < 0 then 0 else j)"

definition next_delay :: "policy \<Rightarrow> duration \<Rightarrow> duration" where
  "next_delay p d =
     (let doubled = wrap64 (d * 2)
      in if doubled < d \<or> doubled > MaxDelay p then MaxDelay p else doubled)"

text \<open>
  The select of \<open>wait\<close>: the timer fires or the context ends. \<open>seam\<close> is the unexported test hook,
  nil in production.
\<close>

definition policy_wait ::
    "(duration \<Rightarrow> ctx_err option) option \<Rightarrow> ctx_err option \<Rightarrow> wakeup \<Rightarrow> duration \<Rightarrow> ctx_err option" where
  "policy_wait seam ctxErr wake d =
     (case seam of Some sleep \<Rightarrow> sleep d
      | None \<Rightarrow>
        if d \<le> 0 then ctxErr
        else (case wake of TimerFired \<Rightarrow> None | CtxDone e \<Rightarrow> Some e))"

section \<open>The loop\<close>

record 'e retry_env =
  fn_at :: "int \<Rightarrow> 'e option"
  rand_at :: "int \<Rightarrow> float64"
  ctx_at :: "int \<Rightarrow> ctx_err option"
  wake_at :: "int \<Rightarrow> wakeup"
  seam_at :: "int \<Rightarrow> (duration \<Rightarrow> ctx_err option) option"
  conv_out :: "float64 \<Rightarrow> int"

datatype retry_event = Called | Slept duration

datatype 'e backoff_result = Succeeded | LastErr 'e | CtxErr ctx_err | RetryPanic string

definition wait_after :: "policy \<Rightarrow> 'e retry_env \<Rightarrow> int \<Rightarrow> duration \<Rightarrow> ctx_err option" where
  "wait_after p env attempt d =
     policy_wait (seam_at env attempt) (ctx_at env attempt) (wake_at env attempt) d"

partial_function (option) backoff_loop ::
    "policy \<Rightarrow> 'e retry_env \<Rightarrow> int \<Rightarrow> duration \<Rightarrow> retry_event list \<Rightarrow>
     ('e backoff_result \<times> retry_event list) option" where
  "backoff_loop p env attempt delay evs =
     (case fn_at env attempt of
        None \<Rightarrow> Some (Succeeded, evs @ [Called])
      | Some lastErr \<Rightarrow>
          if attempt = MaxAttempts p then Some (LastErr lastErr, evs @ [Called])
          else let d = jittered (conv_out env) p (rand_at env attempt) delay
               in case wait_after p env attempt d of
                    Some e \<Rightarrow> Some (CtxErr e, evs @ [Called, Slept d])
                  | None \<Rightarrow> backoff_loop p env (wrap64 (attempt + 1)) (next_delay p delay)
                             (evs @ [Called, Slept d]))"

declare backoff_loop.simps [code]

definition Backoff :: "policy \<Rightarrow> ctx_err option \<Rightarrow> bool \<Rightarrow> 'e retry_env \<Rightarrow>
    ('e backoff_result \<times> retry_event list) option" where
  "Backoff p ctxErr fnNil env =
     (if fnNil then Some (RetryPanic ''retry: nil function'', [])
      else case mustBeValid p of
        Panic m \<Rightarrow> Some (RetryPanic m, [])
      | Return _ \<Rightarrow>
          (case ctxErr of Some e \<Rightarrow> Some (CtxErr e, [])
           | None \<Rightarrow> backoff_loop p env 1 (BaseDelay p) []))"

section \<open>Specification\<close>

text \<open>The pre-jitter delay before retry \<open>i\<close>, counting from 0.\<close>

definition delay_spec :: "policy \<Rightarrow> nat \<Rightarrow> duration" where
  "delay_spec p i = min (MaxDelay p) (BaseDelay p * 2 ^ i)"

text \<open>The log of \<open>k\<close> failed attempts, each followed by its sleep.\<close>

definition sleep_at :: "policy \<Rightarrow> 'e retry_env \<Rightarrow> nat \<Rightarrow> duration" where
  "sleep_at p env i = jittered (conv_out env) p (rand_at env (int i + 1)) (delay_spec p i)"

definition failed_log :: "policy \<Rightarrow> 'e retry_env \<Rightarrow> nat \<Rightarrow> retry_event list" where
  "failed_log p env k = concat (map (\<lambda>i. [Called, Slept (sleep_at p env i)]) [0..<k])"

text \<open>Attempt \<open>i + 1\<close> fails and the sleep after it runs to its end.\<close>

definition goes_on :: "policy \<Rightarrow> 'e retry_env \<Rightarrow> nat \<Rightarrow> bool" where
  "goes_on p env i \<longleftrightarrow> fn_at env (int i + 1) \<noteq> None \<and> int i + 1 \<noteq> MaxAttempts p \<and>
     wait_after p env (int i + 1) (sleep_at p env i) = None"

definition valid_policy :: "policy \<Rightarrow> bool" where
  "valid_policy p \<longleftrightarrow> mustBeValid p = Return () \<and> in_int64 (MaxAttempts p) \<and> in_int64 (MaxDelay p)"

section \<open>Delays\<close>

lemma next_delay_min:
  assumes "0 \<le> d" and "d \<le> MaxDelay p" and "in_int64 (MaxDelay p)"
  shows "next_delay p d = min (MaxDelay p) (2 * d)"
proof (cases "2 * d \<le> int64_max")
  case True
  then have "wrap64 (d * 2) = 2 * d" using assms(1) by (simp add: int64_min_def in_int64_def)
  then show ?thesis using assms by (simp add: next_delay_def Let_def)
next
  case False
  then have "wrap64 (d * 2) = d * 2 - 2 ^ 64"
    using assms by (intro wrap64_overflow) (auto simp: int64_defs)
  moreover have "MaxDelay p < 2 * d" using False assms(3) by (simp add: in_int64_def)
  ultimately show ?thesis using assms by (simp add: next_delay_def int64_defs)
qed

lemma delay_spec_bounds:
  "0 \<le> BaseDelay p \<Longrightarrow> BaseDelay p \<le> MaxDelay p \<Longrightarrow> 0 \<le> delay_spec p i \<and> delay_spec p i \<le> MaxDelay p"
  by (simp add: delay_spec_def)

lemma next_delay_spec:
  assumes "0 \<le> BaseDelay p" and "BaseDelay p \<le> MaxDelay p" and "in_int64 (MaxDelay p)"
  shows "next_delay p (delay_spec p i) = delay_spec p (Suc i)"
proof -
  have "next_delay p (delay_spec p i) = min (MaxDelay p) (2 * delay_spec p i)"
    using delay_spec_bounds [OF assms(1,2), of i] assms(3) by (intro next_delay_min) auto
  also have "\<dots> = delay_spec p (Suc i)"
    using assms(1,2) by (auto simp: delay_spec_def min_def)
  finally show ?thesis .
qed

lemma jittered_bounds:
  "0 \<le> d \<Longrightarrow> d \<le> MaxDelay p \<Longrightarrow> 0 \<le> jittered conv p u d \<and> jittered conv p u d \<le> MaxDelay p"
  by (simp add: jittered_def Let_def)

lemma valid_policyD:
  "valid_policy p \<Longrightarrow> 0 < MaxAttempts p \<and> 0 \<le> BaseDelay p \<and> BaseDelay p \<le> MaxDelay p \<and>
     in_int64 (MaxAttempts p) \<and> in_int64 (MaxDelay p)"
  by (auto simp: valid_policy_def mustBeValid_def split: if_splits)

section \<open>The loop runs to the first attempt that stops it\<close>

lemma failed_log_Suc: "failed_log p env (Suc k) = failed_log p env k @ [Called, Slept (sleep_at p env k)]"
  by (simp add: failed_log_def)

lemma backoff_loop_steps:
  assumes "valid_policy p" and "\<forall>i<k. goes_on p env i" and "int k < MaxAttempts p"
  shows "backoff_loop p env 1 (BaseDelay p) [] =
     backoff_loop p env (int k + 1) (delay_spec p k) (failed_log p env k)"
  using assms(2,3)
proof (induction k)
  case 0
  then show ?case using valid_policyD [OF assms(1)] by (simp add: delay_spec_def failed_log_def)
next
  case (Suc k)
  have v: "0 \<le> BaseDelay p" "BaseDelay p \<le> MaxDelay p" "in_int64 (MaxDelay p)" "in_int64 (MaxAttempts p)"
    using valid_policyD [OF assms(1)] by auto
  have g: "goes_on p env k" using Suc.prems by simp
  have w: "wrap64 (int k + 1 + 1) = int (Suc k) + 1"
    using Suc.prems(2) v(4) by (simp add: in_int64_def int64_min_def)
  from Suc have "backoff_loop p env 1 (BaseDelay p) [] =
      backoff_loop p env (int k + 1) (delay_spec p k) (failed_log p env k)" by simp
  also have "\<dots> = backoff_loop p env (int (Suc k) + 1) (delay_spec p (Suc k)) (failed_log p env (Suc k))"
    using g next_delay_spec [OF v(1-3), of k] w
    by (subst backoff_loop.simps) (auto simp: goes_on_def sleep_at_def failed_log_Suc Let_def)
  finally show ?case .
qed

lemma stop_exists:
  assumes "valid_policy p"
  obtains k where "int k < MaxAttempts p" "\<forall>i<k. goes_on p env i" "\<not> goes_on p env k"
proof -
  let ?n = "nat (MaxAttempts p) - 1"
  have "0 < MaxAttempts p" using valid_policyD [OF assms] by simp
  then have n: "int ?n + 1 = MaxAttempts p" by simp
  then have "\<not> goes_on p env ?n" by (simp add: goes_on_def)
  define k where "k = (LEAST k. \<not> goes_on p env k)"
  have "\<not> goes_on p env k"
    unfolding k_def by (rule LeastI [of "\<lambda>k. \<not> goes_on p env k"]) fact
  moreover have "\<forall>i<k. goes_on p env i" unfolding k_def by (blast dest: not_less_Least)
  moreover have "k \<le> ?n" unfolding k_def by (rule Least_le) fact
  moreover from this have "int k < MaxAttempts p" using n by linarith
  ultimately show ?thesis using that by blast
qed

text \<open>What \<open>Backoff\<close> returns when attempt \<open>k + 1\<close> is the one that stops it.\<close>

definition stop_result :: "policy \<Rightarrow> 'e retry_env \<Rightarrow> nat \<Rightarrow> 'e backoff_result \<times> retry_event list" where
  "stop_result p env k =
     (case fn_at env (int k + 1) of
        None \<Rightarrow> (Succeeded, failed_log p env k @ [Called])
      | Some e \<Rightarrow>
          if int k + 1 = MaxAttempts p then (LastErr e, failed_log p env k @ [Called])
          else (CtxErr (the (wait_after p env (int k + 1) (sleep_at p env k))), failed_log p env (Suc k)))"

lemma Backoff_runs_to_stop:
  assumes "valid_policy p"
  obtains k where "int k < MaxAttempts p" "\<forall>i<k. goes_on p env i" "\<not> goes_on p env k"
    "Backoff p None False env = Some (stop_result p env k)"
proof -
  obtain k where k: "int k < MaxAttempts p" "\<forall>i<k. goes_on p env i" "\<not> goes_on p env k"
    using stop_exists [OF assms] .
  have "Backoff p None False env = backoff_loop p env (int k + 1) (delay_spec p k) (failed_log p env k)"
    using assms backoff_loop_steps [OF assms k(2,1)] by (simp add: Backoff_def valid_policy_def)
  also have "\<dots> = Some (stop_result p env k)"
    using k(3) by (subst backoff_loop.simps)
      (auto simp: stop_result_def goes_on_def sleep_at_def failed_log_Suc Let_def split: option.splits)
  finally show ?thesis using k that by blast
qed

section \<open>The log of a run\<close>

definition calls_in :: "retry_event list \<Rightarrow> nat" where
  "calls_in evs = length (filter (\<lambda>ev. ev = Called) evs)"

definition slept_in :: "retry_event list \<Rightarrow> duration" where
  "slept_in evs = sum_list (map (\<lambda>ev. case ev of Slept d \<Rightarrow> d | Called \<Rightarrow> 0) evs)"

lemma log_sums [simp]:
  "calls_in [] = 0" "calls_in (evs @ evs') = calls_in evs + calls_in evs'" "calls_in [Called] = 1" "calls_in [Called, Slept d] = 1"
  "slept_in [] = 0" "slept_in (evs @ evs') = slept_in evs + slept_in evs'" "slept_in [Called] = 0" "slept_in [Called, Slept d] = d"
  by (simp_all add: calls_in_def slept_in_def)

lemma sleep_at_bounds: "valid_policy p \<Longrightarrow> 0 \<le> sleep_at p env i \<and> sleep_at p env i \<le> MaxDelay p"
  unfolding sleep_at_def using valid_policyD [of p] delay_spec_bounds [of p i] by (intro jittered_bounds) auto

lemma failed_log_sleeps: "valid_policy p \<Longrightarrow> Slept d \<in> set (failed_log p env k) \<Longrightarrow> 0 \<le> d \<and> d \<le> MaxDelay p"
  using sleep_at_bounds [of p env] by (auto simp: failed_log_def split: if_splits)

lemma failed_log_total:
  assumes "valid_policy p"
  shows "calls_in (failed_log p env k) = k"
    and "int k \<le> n \<Longrightarrow> slept_in (failed_log p env k) \<le> n * MaxDelay p"
proof -
  show "calls_in (failed_log p env k) = k"
    by (induction k) (simp_all add: failed_log_Suc, simp add: failed_log_def)
  have "slept_in (failed_log p env k) \<le> int k * MaxDelay p"
  proof (induction k)
    case (Suc k)
    then show ?case using sleep_at_bounds [OF assms, of env k] by (simp add: failed_log_Suc algebra_simps)
  qed (simp add: failed_log_def)
  moreover have "0 \<le> MaxDelay p" using valid_policyD [OF assms] by simp
  ultimately show "int k \<le> n \<Longrightarrow> slept_in (failed_log p env k) \<le> n * MaxDelay p"
    by (meson mult_right_mono order_trans)
qed

lemma Backoff_log:
  assumes "valid_policy p" and "Backoff p ctxErr fnNil env = Some (r, evs)"
  shows "evs = [] \<or> (\<exists>k. int k < MaxAttempts p \<and> (evs = failed_log p env k @ [Called] \<or>
      evs = failed_log p env (Suc k) \<and> int (Suc k) < MaxAttempts p))"
proof (cases "fnNil \<or> ctxErr \<noteq> None")
  case True
  then show ?thesis using assms by (auto simp: Backoff_def valid_policy_def split: if_splits)
next
  case False
  obtain k where k: "int k < MaxAttempts p" "Backoff p None False env = Some (stop_result p env k)"
    using Backoff_runs_to_stop [OF assms(1)] .
  with False assms(2) have "evs = failed_log p env k @ [Called] \<or> evs = failed_log p env (Suc k) \<and> int k + 1 \<noteq> MaxAttempts p"
    by (auto simp: stop_result_def split: option.splits if_splits)
  then show ?thesis using k(1) by auto
qed

section \<open>Properties\<close>

text \<open>
  C6. \<open>Backoff\<close> on a valid policy always returns, after at most \<open>MaxAttempts\<close> calls, and its
  result is that of the first attempt that stops it: nil when that attempt succeeds, the attempt's
  own error when the budget is spent, the context's error when the sleep after it is cut short. Every
  earlier attempt failed and was followed by a full sleep.
\<close>

theorem Backoff_returns:
  assumes "valid_policy p"
  shows "\<exists>k. int k < MaxAttempts p \<and> (\<forall>i<k. goes_on p env i) \<and> \<not> goes_on p env k \<and>
     Backoff p None False env = Some (stop_result p env k)"
  by (rule Backoff_runs_to_stop [OF assms]) blast

definition demo_policy :: policy where
  "demo_policy = \<lparr>MaxAttempts = 3, BaseDelay = 10, MaxDelay = 15, Jitter = Fin 0\<rparr>"

definition demo_env :: "nat retry_env" where
  "demo_env = \<lparr>fn_at = (\<lambda>k. if k = 3 then None else Some 7), rand_at = (\<lambda>_. Fin 0),
     ctx_at = (\<lambda>_. None), wake_at = (\<lambda>_. TimerFired), seam_at = (\<lambda>_. None), conv_out = amd64_conv\<rparr>"

lemma demo_policy_valid: "valid_policy demo_policy"
  by (simp add: demo_policy_def valid_policy_def mustBeValid_def int64_defs)

theorem Backoff_returns_witness:
  "\<exists>r evs. Backoff demo_policy None False demo_env = Some (r, evs)"
  using Backoff_returns [OF demo_policy_valid, of demo_env]
  by (metis surj_pair)

text \<open>
  C7. The delays: the pre-jitter delay doubles from \<open>BaseDelay\<close> and is clamped at \<open>MaxDelay\<close>, also
  where doubling overflows 64 bits; no sleep of a run, jittered or not, is negative or exceeds
  \<open>MaxDelay\<close>, whatever the jitter, the random numbers and the conversion of out-of-range floats do; the
  function is called at most \<open>MaxAttempts\<close> times, and the sleeps add up to at most \<open>MaxAttempts - 1\<close> times
  \<open>MaxDelay\<close>.
\<close>

theorem sleeps_are_capped:
  assumes "valid_policy p" and "Backoff p ctxErr fnNil env = Some (r, evs)"
  shows "(\<forall>i. next_delay p (delay_spec p i) = delay_spec p (Suc i)) \<and>
    (\<forall>d. Slept d \<in> set evs \<longrightarrow> 0 \<le> d \<and> d \<le> MaxDelay p) \<and>
    int (calls_in evs) \<le> MaxAttempts p \<and> slept_in evs \<le> (MaxAttempts p - 1) * MaxDelay p"
proof -
  have v: "0 < MaxAttempts p" "0 \<le> BaseDelay p" "BaseDelay p \<le> MaxDelay p" "in_int64 (MaxDelay p)"
    using valid_policyD [OF assms(1)] by auto
  consider "evs = []" | k where "int k < MaxAttempts p" "evs = failed_log p env k @ [Called]"
    | k where "int (Suc k) < MaxAttempts p" "evs = failed_log p env (Suc k)"
    using Backoff_log [OF assms] by blast
  then have "(\<forall>d. Slept d \<in> set evs \<longrightarrow> 0 \<le> d \<and> d \<le> MaxDelay p) \<and>
      int (calls_in evs) \<le> MaxAttempts p \<and> slept_in evs \<le> (MaxAttempts p - 1) * MaxDelay p"
  proof cases
    case 1
    then show ?thesis using v by simp
  next
    case (2 k)
    then show ?thesis
      using failed_log_sleeps [OF assms(1), of _ env k] failed_log_total(1) [OF assms(1), of env k]
        failed_log_total(2) [OF assms(1), of k "MaxAttempts p - 1" env] by auto
  next
    case (3 k)
    then show ?thesis
      using failed_log_sleeps [OF assms(1), of _ env "Suc k"] failed_log_total(1) [OF assms(1), of env "Suc k"]
        failed_log_total(2) [OF assms(1), of "Suc k" "MaxAttempts p - 1" env] by auto
  qed
  then show ?thesis using next_delay_spec [OF v(2-4)] by blast
qed

theorem sleeps_are_capped_witness:
  "Backoff demo_policy None False demo_env = Some (Succeeded, [Called, Slept 10, Called, Slept 15, Called]) \<and>
   10 \<le> MaxDelay demo_policy \<and> 15 \<le> MaxDelay demo_policy"
proof -
  have r: "Backoff demo_policy None False demo_env = Some (Succeeded, [Called, Slept 10, Called, Slept 15, Called])"
    by code_simp
  then show ?thesis using sleeps_are_capped [OF demo_policy_valid r] by auto
qed

text \<open>
  A NaN jitter, which is outside the documented range [0, 1], passes \<open>mustBeValid\<close> (neither
  of its comparisons holds for a NaN), and where an out-of-range conversion yields the least \<open>int64\<close>,
  as on amd64, every jittered delay is then 0: the retries run without any backoff.
\<close>

theorem nan_jitter_disables_backoff:
  assumes "valid_policy p"
  shows "mustBeValid (p\<lparr>Jitter := NaN\<rparr>) = Return () \<and>
    jittered amd64_conv (p\<lparr>Jitter := NaN\<rparr>) u d = 0"
  using valid_policyD [OF assms]
  by (auto simp: mustBeValid_def jittered_def f64_to_int64_def amd64_conv_def f64_def fsub_def finf_def
      int64_defs Let_def split: float64.splits)

theorem nan_jitter_disables_backoff_witness:
  "mustBeValid (demo_policy\<lparr>Jitter := NaN\<rparr>) = Return () \<and>
   jittered amd64_conv (demo_policy\<lparr>Jitter := NaN\<rparr>) (Fin (1 / 2)) 10 = 0"
  using nan_jitter_disables_backoff [OF demo_policy_valid, of "Fin (1 / 2)" 10] .

end
