(* ===== verification/RateLimit.thy ===== *)
theory RateLimit
  imports Float64
begin

text \<open>
  The token bucket of \<open>pkg/ratelimit\<close> over binary64 arithmetic. Every method runs under the
  limiter's mutex, so a concurrent history is a sequence of these operations; \<open>Wait\<close> is two of
  them around an unlocked sleep. The clock reading of an operation is an argument.
\<close>

section \<open>Operations\<close>

record limiter =
  rate :: float64
  burst :: float64
  tokens :: float64
  last_time :: instant

definition Second :: duration where "Second = 10 ^ 9"

text \<open>\<open>Duration.Seconds\<close> of the time package: whole seconds plus the remainder over \<open>1e9\<close>.\<close>

definition Seconds :: "duration \<Rightarrow> float64" where
  "Seconds d = fadd (f64_of_int (quot64 d Second)) (fdiv (f64_of_int (rem64 d Second)) (f64_of_int Second))"

definition NewLimiter :: "float64 \<Rightarrow> int \<Rightarrow> instant \<Rightarrow> limiter go" where
  "NewLimiter r b now =
     (if fle r (Fin 0) \<or> r = PInf \<or> r = NaN
        then Panic ''ratelimit: rate must be a positive, finite number of tokens per second''
      else if b < 1 then Panic ''ratelimit: burst must be >= 1''
      else Return \<lparr>rate = r, burst = f64_of_int b, tokens = f64_of_int b, last_time = now\<rparr>)"

definition advance :: "limiter \<Rightarrow> instant \<Rightarrow> limiter" where
  "advance l now =
     (let elapsed = time_Sub now (last_time l)
      in if elapsed \<le> 0 then l
         else l\<lparr>tokens := fmin (burst l) (fadd (tokens l) (fmul (Seconds elapsed) (rate l))),
                last_time := now\<rparr>)"

definition Allow :: "limiter \<Rightarrow> instant \<Rightarrow> limiter \<times> bool" where
  "Allow l now =
     (let l' = advance l now
      in if fle (Fin 1) (tokens l') then (l'\<lparr>tokens := fsub (tokens l') (Fin 1)\<rparr>, True)
         else (l', False))"

text \<open>
  \<open>Wait\<close>: the reservation, the sleep (\<open>None\<close> when the token is there at once) and the repayment of
  a canceled reservation. While it sleeps the limiter is unlocked: \<open>during\<close> is what others do to it.
\<close>

definition Wait_reserve :: "(float64 \<Rightarrow> int) \<Rightarrow> limiter \<Rightarrow> instant \<Rightarrow> limiter \<times> duration option" where
  "Wait_reserve conv l now =
     (let l1 = advance l now;
          l2 = l1\<lparr>tokens := fsub (tokens l1) (Fin 1)\<rparr>;
          shortfall = fneg (tokens l2)
      in if fle shortfall (Fin 0) then (l2, None)
         else (l2, Some (f64_to_int64 conv (fceil (fmul (fdiv shortfall (rate l2)) (f64_of_int Second))))))"

definition Wait_repay :: "limiter \<Rightarrow> instant \<Rightarrow> limiter" where
  "Wait_repay l now =
     (let l1 = advance l now in l1\<lparr>tokens := fmin (burst l1) (fadd (tokens l1) (Fin 1))\<rparr>)"

definition limiter_wait ::
    "(duration \<Rightarrow> ctx_err option) option \<Rightarrow> ctx_err option \<Rightarrow> wakeup \<Rightarrow> duration \<Rightarrow> ctx_err option" where
  "limiter_wait seam ctxErr wake d =
     (case seam of Some sleep \<Rightarrow> sleep d
      | None \<Rightarrow>
        if d \<le> 0 then ctxErr
        else (case wake of TimerFired \<Rightarrow> None | CtxDone e \<Rightarrow> Some e))"

record wait_env =
  ctx_before :: "ctx_err option"
  ctx_during :: "ctx_err option"
  wake :: wakeup
  seam :: "(duration \<Rightarrow> ctx_err option) option"
  during :: "limiter \<Rightarrow> limiter"
  conv_of :: "float64 \<Rightarrow> int"

definition Wait :: "wait_env \<Rightarrow> limiter \<Rightarrow> instant \<Rightarrow> instant \<Rightarrow> limiter \<times> ctx_err option" where
  "Wait env l now now' =
     (case ctx_before env of Some e \<Rightarrow> (l, Some e)
      | None \<Rightarrow>
        (case Wait_reserve (conv_of env) l now of
           (l', None) \<Rightarrow> (l', None)
         | (l', Some d) \<Rightarrow>
             let l'' = during env l'
             in case limiter_wait (seam env) (ctx_during env) (wake env) d of
                  None \<Rightarrow> (l'', None)
                | Some e \<Rightarrow> (Wait_repay l'' now', Some e)))"

text \<open>A history of \<open>Allow\<close> calls: the final bucket and the number of calls admitted.\<close>

fun allow_run :: "limiter \<Rightarrow> instant list \<Rightarrow> limiter \<times> nat" where
  "allow_run l [] = (l, 0)"
| "allow_run l (t # ts) =
     (let (l', ok) = Allow l t; (l'', n) = allow_run l' ts in (l'', if ok then Suc n else n))"

text \<open>
  The bucket invariant: rate and burst finite and positive, the tokens a float between the
  deepest debt a float can count and the burst.
\<close>

definition limiter_ok :: "limiter \<Rightarrow> bool" where
  "limiter_ok l \<longleftrightarrow> (\<exists>r b t. rate l = Fin r \<and> 0 < r \<and> burst l = Fin b \<and> 1 \<le> b \<and> b \<le> 2 ^ 64 \<and> rnd b = b \<and>
      tokens l = Fin t \<and> rnd t = t \<and> - (2 ^ 53) \<le> t \<and> t \<le> b)"

section \<open>Elapsed seconds\<close>

lemma of_int_div_mod: "(of_int e :: rat) = of_int (e div k) * of_int k + of_int (e mod k)"
  by (simp flip: of_int_mult of_int_add)

lemma Seconds_exact:
  assumes "0 \<le> e" and "in_int64 e"
  shows "Seconds e = Fin (rnd (of_int (e div 10 ^ 9) + rnd (of_int (e mod 10 ^ 9) / 10 ^ 9)))"
proof -
  let ?q = "e div 10 ^ 9" and ?m = "e mod 10 ^ 9"
  have q: "0 \<le> ?q" "?q < 2 ^ 34" using assms by (auto simp: int64_defs)
  have m: "0 \<le> ?m" "?m < 10 ^ 9" by simp_all
  let ?f = "rnd (of_int ?m / 10 ^ 9)"
  have f: "0 \<le> ?f" "?f \<le> 1"
    using m rnd_nonneg [of "of_int ?m / 10 ^ 9"] rnd_mono [of "of_int ?m / 10 ^ 9" 1] rnd_of_int [of 1]
    by (auto simp: divide_le_eq_1)
  have big: "(2 :: rat) ^ 35 \<le> 2 ^ 1023" by (rule power_increasing) simp_all
  have "of_int ?q \<le> (2 ^ 34 :: rat)"
    using q(2) by (metis of_int_le_iff of_int_numeral of_int_power less_imp_le)
  with q f have "\<bar>of_int ?q + ?f\<bar> \<le> 2 ^ 35" by (simp add: abs_if)
  then have sum: "f64 (of_int ?q + ?f) = Fin (rnd (of_int ?q + ?f))"
    using big by (intro f64_bounded) linarith
  have "0 \<le> (of_int ?m / 10 ^ 9 :: rat)" "(of_int ?m / 10 ^ 9 :: rat) \<le> 1"
    using m by (simp_all add: divide_le_eq_1)
  then have "\<bar>of_int ?m / 10 ^ 9 :: rat\<bar> \<le> 2 ^ 35" by simp
  then have quo: "f64 (of_int ?m / 10 ^ 9) = Fin ?f"
    using big by (intro f64_bounded) linarith
  have "?q < 2 ^ 53" by (rule less_trans [OF q(2)]) simp
  moreover have "?m < 2 ^ 53" by (rule less_trans [OF m(2)]) simp
  ultimately have "\<bar>?q\<bar> < 2 ^ 53" "\<bar>?m\<bar> < 2 ^ 53" using q(1) m(1) by (simp_all only: abs_of_nonneg)
  then have "f64_of_int ?q = Fin (of_int ?q)" "f64_of_int ?m = Fin (of_int ?m)"
    "f64_of_int Second = Fin (10 ^ 9)"
    by (auto intro: f64_of_int_exact simp: f64_of_int_exact Second_def)
  then show ?thesis
    using assms(1) quot_rem64_nonneg [of e Second] quo sum by (simp add: Seconds_def Second_def)
qed

lemma Seconds_bounds:
  assumes "0 < e" and "in_int64 e"
  obtains s where "Seconds e = Fin s" "0 \<le> s" "s \<le> 2 ^ 35" "s \<le> of_int e / 10 ^ 9 * (1 + 1 / 2 ^ 51)"
proof -
  define q m :: rat where "q = of_int (e div 10 ^ 9)" and "m = of_int (e mod 10 ^ 9) / 10 ^ 9"
  define E :: rat where "E = of_int e / 10 ^ 9"
  have "(of_int e :: rat) = of_int (e div 10 ^ 9) * 10 ^ 9 + of_int (e mod 10 ^ 9)"
    using of_int_div_mod [of e "10 ^ 9"] by simp
  then have E: "q + m = E" by (simp add: q_def m_def E_def add_divide_distrib)
  have q: "0 \<le> q" using assms(1) by (simp add: q_def)
  have m: "0 \<le> m" by (simp add: m_def)
  have "1 / 10 ^ 9 \<le> E" using assms(1) unfolding E_def by (intro divide_right_mono) simp_all
  then have E9: "1 / 10 ^ 9 \<le> E" .
  have f: "0 \<le> rnd m" "rnd m \<le> m + m / 2 ^ 53 + 1 / 2 ^ 100"
    using rnd_nonneg [OF m] rnd_err(1) [of m] m by auto
  have y: "0 \<le> q + rnd m" using q f by simp
  have s: "rnd (q + rnd m) \<le> (q + rnd m) + (q + rnd m) / 2 ^ 53 + 1 / 2 ^ 100"
    using rnd_err(1) [of "q + rnd m"] y by simp
  have "q + rnd m \<le> E + E / 2 ^ 53 + 1 / 2 ^ 100" using f(2) E q m by (simp add: field_simps)
  with s E9 have up: "rnd (q + rnd m) \<le> E * (1 + 1 / 2 ^ 51)" by (simp add: field_simps)
  have "of_int e \<le> (2 ^ 63 :: rat)"
    using assms(2) by (simp add: int64_defs of_int_le_numeral_power_cancel_iff)
  then have "E * (1 + 1 / 2 ^ 51) \<le> 2 ^ 35" unfolding E_def by (simp add: field_simps)
  then show ?thesis
    using that [of "rnd (q + rnd m)"] Seconds_exact [of e] assms rnd_nonneg [OF y] up
    by (auto simp: q_def m_def E_def)
qed

section \<open>Refill\<close>

text \<open>
  One refill of \<open>s * r\<close> tokens: the bucket never drops, never passes its capacity, and, rounding
  included, never gains more than \<open>s * r\<close> tokens by more than a relative \<open>2 powi -53\<close> and \<open>b / 2 ^ 51\<close>.
\<close>

lemma refill_bounds:
  assumes "0 < r" and "1 \<le> b" and "b \<le> 2 ^ 64" and "rnd b = b" and "rnd t = t"
    and "- (2 ^ 53) \<le> t" and "t \<le> b" and "0 \<le> s"
  obtains t' where "fmin (Fin b) (fadd (Fin t) (fmul (Fin s) (Fin r))) = Fin t'"
    "rnd t' = t'" "t \<le> t'" "t' \<le> b" "0 \<le> t \<Longrightarrow> t' \<le> t + s * r * (1 + 1 / 2 ^ 53) + b / 2 ^ 51"
proof -
  have big: "(2 :: rat) ^ 64 \<le> 2 ^ 1023" by (rule power_increasing) simp_all
  have big': "(2 :: rat) ^ 53 \<le> 2 ^ 1023" by (rule power_increasing) simp_all
  have sr: "0 \<le> s * r" using assms by simp
  have b51: "0 \<le> b / 2 ^ 51" using assms by simp
  consider (inf) "f64 (s * r) = PInf" "2 ^ 1023 < s * r" | (fin) "f64 (s * r) = Fin (rnd (s * r))"
    using f64_PInf_or_Fin [of "s * r"] sr by (metis neg_le_0_iff_le order_trans zero_le_numeral zero_le_power)
  then show ?thesis
  proof cases
    case inf
    have "b \<le> s * r * (1 + 1 / 2 ^ 53)" using inf(2) big assms(3) sr by (simp add: field_simps)
    then show ?thesis
      using that [of b] inf assms b51 by (simp add: fmin_def)
  next
    case fin
    define i where "i = rnd (s * r)"
    have i: "0 \<le> i" "i \<le> s * r + s * r / 2 ^ 53 + 1 / 2 ^ 100"
      using rnd_nonneg [OF sr] rnd_err(1) [of "s * r"] sr by (simp_all add: i_def)
    have lo: "- (2 ^ 1023) \<le> t + i" using assms(6) i(1) big' by linarith
    define y where "y = rnd (t + i)"
    have y: "t \<le> y" "y \<le> t + i + \<bar>t + i\<bar> / 2 ^ 53 + 1 / 2 ^ 100"
      using rnd_mono [of t "t + i"] i(1) assms(5) rnd_err(1) [of "t + i"] by (simp_all add: y_def)
    have res: "fmin (Fin b) (fadd (Fin t) (fmul (Fin s) (Fin r))) = Fin (min b y) \<or>
       fmin (Fin b) (fadd (Fin t) (fmul (Fin s) (Fin r))) = Fin b \<and> 2 ^ 1023 < t + i"
      using f64_PInf_or_Fin [OF lo] by (auto simp: fin fmin_def min_def simp flip: i_def y_def)
    have gain: "t + i \<le> t + s * r * (1 + 1 / 2 ^ 53) + 1 / 2 ^ 100" using i(2) by (simp add: field_simps)
    have capped: "min b y \<le> t + i + b / 2 ^ 52 + 1 / 2 ^ 100" if "0 \<le> t"
    proof (cases "t + i \<le> 2 * b")
      case True
      then have "\<bar>t + i\<bar> / 2 ^ 53 \<le> b / 2 ^ 52" using that i(1) by (simp add: field_simps)
      then show ?thesis using y(2) by linarith
    next
      case False
      then show ?thesis using assms(2) by (simp add: min_def field_simps)
    qed
    have small: "b / 2 ^ 52 + 1 / 2 ^ 100 + 1 / 2 ^ 100 \<le> b / 2 ^ 51" "1 / 2 ^ 100 \<le> b / 2 ^ 51"
      using assms(2) by (simp_all add: field_simps)
    show ?thesis
    proof (cases "fmin (Fin b) (fadd (Fin t) (fmul (Fin s) (Fin r))) = Fin (min b y)")
      case True
      have "min b y \<le> t + s * r * (1 + 1 / 2 ^ 53) + b / 2 ^ 51" if "0 \<le> t"
        using capped [OF that] gain small b51 by linarith
      then show ?thesis using that [of "min b y"] True y(1) assms(4,7)
        by (auto simp: min_def y_def)
    next
      case False
      with res have "fmin (Fin b) (fadd (Fin t) (fmul (Fin s) (Fin r))) = Fin b" "b \<le> t + i"
        using big assms(3) by auto
      then show ?thesis using that [of b] assms gain small b51 by linarith
    qed
  qed
qed

section \<open>The bucket invariant\<close>

text \<open>The numbers behind a bucket that satisfies the invariant.\<close>

lemma limiter_okE:
  assumes "limiter_ok l"
  obtains r b t where "rate l = Fin r" "0 < r" "burst l = Fin b" "1 \<le> b" "b \<le> 2 ^ 64" "rnd b = b"
    "tokens l = Fin t" "rnd t = t" "- (2 ^ 53) \<le> t" "t \<le> b"
  using assms by (auto simp: limiter_ok_def)

lemma advance_bounds:
  assumes ok: "limiter_ok l" and t: "tokens l = Fin t" and r: "rate l = Fin r" and b: "burst l = Fin b"
  obtains t' where "tokens (advance l now) = Fin t'" "rnd t' = t'" "t \<le> t'" "t' \<le> b"
    "last_time (advance l now) = max (last_time l) now"
    "0 \<le> t \<Longrightarrow> t' \<le> t + of_int (max (last_time l) now - last_time l) / 10 ^ 9 * r * (1 + 1 / 2 ^ 50) + b / 2 ^ 51"
proof (cases "time_Sub now (last_time l) \<le> 0")
  case True
  then have "now \<le> last_time l" by (auto simp: time_Sub_def int64_defs)
  moreover have "1 \<le> b" "rnd t = t" "t \<le> b" using ok t b by (auto simp: limiter_ok_def)
  ultimately show ?thesis
    using that [of t] True t by (simp add: advance_def Let_def)
next
  case False
  define e where "e = time_Sub now (last_time l)"
  have e: "0 < e" "in_int64 e" "e \<le> now - last_time l"
    using False by (auto simp: e_def time_Sub_def int64_defs)
  obtain s where s: "Seconds e = Fin s" "0 \<le> s" "s \<le> of_int e / 10 ^ 9 * (1 + 1 / 2 ^ 51)"
    using Seconds_bounds [OF e(1,2)] by metis
  have o: "0 < r" "1 \<le> b" "b \<le> 2 ^ 64" "rnd b = b" "rnd t = t" "- (2 ^ 53) \<le> t" "t \<le> b"
    using ok t b r by (auto simp: limiter_ok_def)
  obtain t' where t': "fmin (Fin b) (fadd (Fin t) (fmul (Fin s) (Fin r))) = Fin t'"
    "rnd t' = t'" "t \<le> t'" "t' \<le> b" "0 \<le> t \<Longrightarrow> t' \<le> t + s * r * (1 + 1 / 2 ^ 53) + b / 2 ^ 51"
    using refill_bounds [OF o s(2)] by metis
  have gain: "s * r * (1 + 1 / 2 ^ 53) \<le> of_int (now - last_time l) / 10 ^ 9 * r * (1 + 1 / 2 ^ 50)"
  proof -
    define E where "E = (of_int (now - last_time l) / 10 ^ 9 :: rat)"
    have "of_int e \<le> (of_int (now - last_time l) :: rat)" using e(3) by (simp only: of_int_le_iff)
    then have E: "of_int e / 10 ^ 9 \<le> E" unfolding E_def by (rule divide_right_mono) simp
    have "s \<le> E * (1 + 1 / 2 ^ 51)"
      using s(3) mult_right_mono [OF E, of "1 + 1 / 2 ^ 51"] by simp
    then have "s * (1 + 1 / 2 ^ 53) \<le> E * (1 + 1 / 2 ^ 51) * (1 + 1 / 2 ^ 53)"
      by (rule mult_right_mono) simp
    also have "\<dots> = E * ((1 + 1 / 2 ^ 51) * (1 + 1 / 2 ^ 53))" by simp
    also have "\<dots> \<le> E * (1 + 1 / 2 ^ 50)"
      using E e(1) by (intro mult_left_mono) (auto simp: field_simps intro: order_trans [OF _ E])
    finally have "s * (1 + 1 / 2 ^ 53) * r \<le> E * (1 + 1 / 2 ^ 50) * r"
      using o(1) by (intro mult_right_mono) simp_all
    then show ?thesis by (simp only: E_def mult_ac)
  qed
  have mx: "max (last_time l) now = now" using e by simp
  have adv: "advance l now = l\<lparr>tokens := Fin t', last_time := now\<rparr>"
    using False s(1) t r b t'(1) by (simp add: advance_def e_def)
  show ?thesis
  proof (rule that [of t'])
    assume "0 \<le> t"
    then show "t' \<le> t + of_int (max (last_time l) now - last_time l) / 10 ^ 9 * r * (1 + 1 / 2 ^ 50) + b / 2 ^ 51"
      unfolding mx using t'(5) gain by (meson add_left_mono add_right_mono order_trans)
  qed (use t' adv mx in simp_all)
qed

lemma advance_frame [simp]: "rate (advance l now) = rate l" "burst (advance l now) = burst l"
  by (simp_all add: advance_def Let_def)

lemma limiter_ok_advance:
  assumes "limiter_ok l"
  shows "limiter_ok (advance l now)"
proof -
  obtain r b t where o: "rate l = Fin r" "0 < r" "burst l = Fin b" "1 \<le> b" "b \<le> 2 ^ 64" "rnd b = b"
    "tokens l = Fin t" "rnd t = t" "- (2 ^ 53) \<le> t" "t \<le> b" using assms by (rule limiter_okE)
  obtain t' where "tokens (advance l now) = Fin t'" "rnd t' = t'" "t \<le> t'" "t' \<le> b"
    using advance_bounds [OF assms o(7,1,3)] by metis
  with o show ?thesis by (auto simp: limiter_ok_def)
qed

lemma rnd_debit: "rnd t = t \<Longrightarrow> - (2 ^ 53) \<le> t \<Longrightarrow> t \<le> 2 ^ 64 \<Longrightarrow>
    f64 (t - 1) = Fin (rnd (t - 1)) \<and> - (2 ^ 53) \<le> rnd (t - 1) \<and> rnd (t - 1) \<le> t"
proof (intro conjI)
  assume t: "rnd t = t" "- (2 ^ 53) \<le> t" "t \<le> 2 ^ 64"
  have "\<bar>t - 1\<bar> \<le> 2 ^ 64" using t by (simp add: abs_le_iff)
  also have "(2 :: rat) ^ 64 \<le> 2 ^ 1023" by (rule power_increasing) simp_all
  finally show "f64 (t - 1) = Fin (rnd (t - 1))" by (rule f64_bounded)
  show "rnd (t - 1) \<le> t" using rnd_mono [of "t - 1" t] t(1) by simp
  have "rnd (- (2 ^ 53) - 1) = - (2 ^ 53)" by code_simp
  then show "- (2 ^ 53) \<le> rnd (t - 1)" using rnd_mono [of "- (2 ^ 53) - 1" "t - 1"] t(2) by simp
qed

lemma limiter_ok_debit:
  assumes "limiter_ok l"
  shows "limiter_ok (l\<lparr>tokens := fsub (tokens l) (Fin 1)\<rparr>)"
proof -
  obtain r b t where o: "rate l = Fin r" "0 < r" "burst l = Fin b" "1 \<le> b" "b \<le> 2 ^ 64" "rnd b = b"
    "tokens l = Fin t" "rnd t = t" "- (2 ^ 53) \<le> t" "t \<le> b" using assms by (rule limiter_okE)
  have "t \<le> 2 ^ 64" using o by simp
  from rnd_debit [OF o(8,9) this] o show ?thesis by (auto simp: limiter_ok_def fsub_def intro: order_trans)
qed

section \<open>Histories of Allow\<close>

lemma Allow_potential:
  assumes ok: "limiter_ok l" and t: "tokens l = Fin t" "0 \<le> t" and r: "rate l = Fin r"
    and b: "burst l = Fin b" "b < 2 ^ 53" and al: "Allow l now = (l', admitted)"
  obtains t' where "limiter_ok l'" "tokens l' = Fin t'" "0 \<le> t'" "rate l' = Fin r" "burst l' = Fin b"
    "last_time l' = max (last_time l) now"
    "of_bool admitted + t' \<le> t + of_int (last_time l' - last_time l) / 10 ^ 9 * r * (1 + 1 / 2 ^ 50) + b / 2 ^ 51"
proof -
  obtain u where u: "tokens (advance l now) = Fin u" "rnd u = u" "t \<le> u" "u \<le> b"
    "last_time (advance l now) = max (last_time l) now"
    "u \<le> t + of_int (max (last_time l) now - last_time l) / 10 ^ 9 * r * (1 + 1 / 2 ^ 50) + b / 2 ^ 51"
    using advance_bounds [OF ok t(1) r b(1), of now] t(2) by metis
  have ok': "limiter_ok (advance l now)" using ok by (rule limiter_ok_advance)
  show ?thesis
  proof (cases "1 \<le> u")
    case True
    then have "rnd (u - 1) = u - 1" using u b(2) by (intro rnd_minus_one) auto
    then have d: "fsub (tokens (advance l now)) (Fin 1) = Fin (u - 1)"
      using rnd_debit [of u] u True b(2) t(2) by (simp add: fsub_def)
    have "l' = (advance l now)\<lparr>tokens := Fin (u - 1)\<rparr>" "admitted"
      using al True u(1) d by (auto simp: Allow_def)
    moreover from this have "limiter_ok l'" using limiter_ok_debit [OF ok'] d by simp
    ultimately show ?thesis using that [of "u - 1"] True u r b by simp
  next
    case False
    then have "l' = advance l now" "\<not> admitted" using al u(1) by (auto simp: Allow_def)
    then show ?thesis using that [of u] u t ok' r b by simp
  qed
qed

lemma allow_run_bound:
  assumes "limiter_ok l" and "tokens l = Fin t" and "0 \<le> t" and "rate l = Fin r"
    and "burst l = Fin b" and "b < 2 ^ 53" and "allow_run l ts = (l', n)"
  shows "last_time l' = fold max ts (last_time l) \<and>
    of_nat n \<le> t + of_int (last_time l' - last_time l) / 10 ^ 9 * r * (1 + 1 / 2 ^ 50) + of_nat (length ts) * b / 2 ^ 51"
  using assms
proof (induction ts arbitrary: l t n)
  case Nil
  then show ?case by simp
next
  case (Cons now ts)
  obtain l1 ok where a: "Allow l now = (l1, ok)" by force
  obtain m where m: "allow_run l1 ts = (l', m)" "n = (if ok then Suc m else m)"
    using Cons.prems(7) a by (auto split: prod.splits)
  obtain t1 where t1: "limiter_ok l1" "tokens l1 = Fin t1" "0 \<le> t1" "rate l1 = Fin r" "burst l1 = Fin b"
    "last_time l1 = max (last_time l) now"
    "of_bool ok + t1 \<le> t + of_int (last_time l1 - last_time l) / 10 ^ 9 * r * (1 + 1 / 2 ^ 50) + b / 2 ^ 51"
    using Allow_potential [OF Cons.prems(1-6) a] by metis
  have IH: "last_time l' = fold max ts (last_time l1)"
    "of_nat m \<le> t1 + of_int (last_time l' - last_time l1) / 10 ^ 9 * r * (1 + 1 / 2 ^ 50) + of_nat (length ts) * b / 2 ^ 51"
    using Cons.IH [OF t1(1-5) Cons.prems(6) m(1)] by auto
  have "of_nat n = of_bool ok + (of_nat m :: rat)" using m(2) by simp
  also have "\<dots> \<le> t + (of_int (last_time l1 - last_time l) / 10 ^ 9 * r * (1 + 1 / 2 ^ 50) +
      of_int (last_time l' - last_time l1) / 10 ^ 9 * r * (1 + 1 / 2 ^ 50)) +
      (b / 2 ^ 51 + of_nat (length ts) * b / 2 ^ 51)"
    using IH(2) t1(7) by linarith
  also have "b / 2 ^ 51 + of_nat (length ts) * b / 2 ^ 51 = of_nat (length (now # ts)) * b / 2 ^ 51"
    by (simp add: add_divide_distrib distrib_right)
  also have "of_int (last_time l1 - last_time l) / 10 ^ 9 * r * (1 + 1 / 2 ^ 50) +
      of_int (last_time l' - last_time l1) / 10 ^ 9 * r * (1 + 1 / 2 ^ 50) =
      of_int (last_time l' - last_time l) / 10 ^ 9 * r * (1 + 1 / 2 ^ 50 :: rat)"
    by (simp only: flip: distrib_right add_divide_distrib of_int_add) simp
  finally show ?case using IH(1) t1(6) by (simp add: max.commute)
qed

lemma NewLimiter_ok:
  assumes "NewLimiter (Fin r) b now = Return l" and "b \<le> int64_max"
  shows "limiter_ok l" "rate l = Fin r" "burst l = f64_of_int b" "tokens l = f64_of_int b" "last_time l = now" "1 \<le> b" "0 < r"
proof -
  have p: "0 < r" "1 \<le> b" "l = \<lparr>rate = Fin r, burst = f64_of_int b, tokens = f64_of_int b, last_time = now\<rparr>"
    using assms(1) by (auto simp: NewLimiter_def split: if_splits)
  have "of_int b \<le> (of_int (2 ^ 63) :: rat)" using assms(2) by (simp only: of_int_le_iff) (simp add: int64_max_def)
  then have up: "of_int b \<le> (2 ^ 63 :: rat)" by simp
  have lo: "1 \<le> (of_int b :: rat)" using p(2) by simp
  have "(2 :: rat) ^ 63 \<le> 2 ^ 1023" by (rule power_increasing) simp_all
  then have f: "f64_of_int b = Fin (rnd (of_int b))"
    unfolding f64_of_int_def using up lo by (intro f64_bounded) linarith
  have "1 \<le> rnd (of_int b)" using rnd_mono [OF lo] rnd_of_int [of 1] by simp
  moreover have "rnd (of_int b) \<le> 2 ^ 63" using up by (rule rnd_le_pow)
  then have "rnd (of_int b) \<le> 2 ^ 64" by simp
  ultimately show "limiter_ok l" using p f by (auto simp: limiter_ok_def)
  show "rate l = Fin r" "burst l = f64_of_int b" "tokens l = f64_of_int b" "last_time l = now" "1 \<le> b" "0 < r"
    using p by simp_all
qed

section \<open>Properties\<close>

text \<open>
  C9. The rate bound of the fail-fast path: for a limiter of rate \<open>r\<close> and burst \<open>b < 2 ^ 53\<close>, any
  history of \<open>Allow\<close> calls, in any order of clock readings, admits at most \<open>b\<close> calls plus \<open>r\<close> per
  second between construction and the latest reading; binary64 rounding adds no more than a
  relative \<open>2 ^ -50\<close> of the refill and \<open>b / 2 ^ 51\<close> of a token per call.
\<close>

theorem admissions_bounded:
  assumes "NewLimiter (Fin r) b t0 = Return l" and "b < 2 ^ 53" and "allow_run l ts = (l', n)"
  shows "last_time l' = fold max ts t0 \<and>
    of_nat n \<le> of_int b + of_int (fold max ts t0 - t0) / 10 ^ 9 * r * (1 + 1 / 2 ^ 50) +
      of_nat (length ts) * of_int b / 2 ^ 51"
proof -
  have b: "b \<le> int64_max" using assms(2) by (simp add: int64_max_def)
  note o = NewLimiter_ok [OF assms(1) b]
  have "\<bar>b\<bar> < 2 ^ 53" using o(6) assms(2) by simp
  then have f: "f64_of_int b = Fin (of_int b)" by (rule f64_of_int_exact)
  have "of_int b < (of_int (2 ^ 53) :: rat)" using assms(2) by (simp only: of_int_less_iff)
  then show ?thesis
    using allow_run_bound [OF o(1) _ _ o(2), of "of_int b" "of_int b" ts l' n] o assms(3) f by auto
qed

theorem admissions_bounded_witness:
  "allow_run \<lparr>rate = Fin 2, burst = f64_of_int 1, tokens = f64_of_int 1, last_time = 0\<rparr> [0, 0, 500000000] =
     (\<lparr>rate = Fin 2, burst = Fin 1, tokens = Fin 0, last_time = 500000000\<rparr>, 2) \<and>
   (of_nat 2 :: rat) \<le> 1 + 500000000 / 10 ^ 9 * 2 * (1 + 1 / 2 ^ 50) + 3 * 1 / 2 ^ 51"
proof -
  have r: "allow_run \<lparr>rate = Fin 2, burst = f64_of_int 1, tokens = f64_of_int 1, last_time = 0\<rparr> [0, 0, 500000000] =
     (\<lparr>rate = Fin 2, burst = Fin 1, tokens = Fin 0, last_time = 500000000\<rparr>, 2)"
    by code_simp
  have "NewLimiter (Fin 2) 1 0 = Return \<lparr>rate = Fin 2, burst = f64_of_int 1, tokens = f64_of_int 1, last_time = 0\<rparr>"
    by (simp add: NewLimiter_def)
  from admissions_bounded [OF this _ r] r show ?thesis by simp
qed

lemma Allow_same_instant:
  "Allow l (last_time l) =
     (if fle (Fin 1) (tokens l) then (l\<lparr>tokens := fsub (tokens l) (Fin 1)\<rparr>, True) else (l, False))"
  by (simp add: Allow_def advance_def)

lemma allow_run_instant:
  assumes "tokens l = Fin (of_nat k)" and "k < 2 ^ 53"
  shows "snd (allow_run l (replicate n (last_time l))) = min n k"
  using assms
proof (induction n arbitrary: l k)
  case (Suc n)
  show ?case
  proof (cases k)
    case 0
    then have "Allow l (last_time l) = (l, False)" using Suc.prems by (simp add: Allow_same_instant)
    then show ?thesis using Suc.IH [OF Suc.prems] 0 by (simp add: case_prod_beta)
  next
    case (Suc j)
    have "of_nat (Suc j) - 1 = (of_int (int j) :: rat)" by simp
    then have "fsub (tokens l) (Fin 1) = f64_of_int (int j)"
      using Suc.prems(1) Suc by (simp only: fsub_def f64_of_int_def fneg.simps fadd.simps diff_conv_add_uminus)
    also have "\<dots> = Fin (of_nat j)" using Suc Suc.prems(2) by (simp add: f64_of_int_exact)
    finally have "Allow l (last_time l) = (l\<lparr>tokens := Fin (of_nat j)\<rparr>, True)"
      using Suc.prems Suc by (simp add: Allow_same_instant)
    then show ?thesis
      using Suc.IH [of "l\<lparr>tokens := Fin (of_nat j)\<rparr>" j] Suc Suc.prems by (simp add: case_prod_beta)
  qed
qed simp

text \<open>
  A fresh limiter holds exactly its burst: of \<open>n\<close> calls made at the instant of construction,
  \<open>Allow\<close> admits exactly the first \<open>b\<close> (burst below \<open>2 ^ 53\<close>).
\<close>

theorem fresh_bucket_admits_burst:
  assumes "NewLimiter (Fin r) b t0 = Return l" and "b < 2 ^ 53"
  shows "snd (allow_run l (replicate n t0)) = min n (nat b)"
proof -
  have "b \<le> int64_max" using assms(2) by (simp add: int64_max_def)
  note o = NewLimiter_ok [OF assms(1) this]
  have "tokens l = Fin (of_nat (nat b))" using o assms(2) by (simp add: f64_of_int_exact)
  then show ?thesis using allow_run_instant [of l "nat b" n] o assms(2) by simp
qed

theorem fresh_bucket_admits_burst_witness:
  "snd (allow_run \<lparr>rate = Fin 1, burst = f64_of_int 3, tokens = f64_of_int 3, last_time = 5\<rparr> (replicate 4 5)) = 3"
proof -
  have "NewLimiter (Fin 1) 3 5 = Return \<lparr>rate = Fin 1, burst = f64_of_int 3, tokens = f64_of_int 3, last_time = 5\<rparr>"
    by (simp add: NewLimiter_def)
  from fresh_bucket_admits_burst [OF this, of 4] show ?thesis by simp
qed

text \<open>
  The burst bound is needed: with a burst of \<open>2 ^ 60\<close>, which \<open>NewLimiter\<close> accepts, taking a
  token does not change the float that counts them, so a limiter admits any number of calls at one
  instant.
\<close>

theorem huge_burst_never_depletes:
  "NewLimiter (Fin 1) (2 ^ 60) t0 =
     Return \<lparr>rate = Fin 1, burst = Fin (2 ^ 60), tokens = Fin (2 ^ 60), last_time = t0\<rparr> \<and>
   snd (allow_run \<lparr>rate = Fin 1, burst = Fin (2 ^ 60), tokens = Fin (2 ^ 60), last_time = t0\<rparr> (replicate n t0)) = n"
proof
  have "f64_of_int (2 ^ 60) = Fin (2 ^ 60)" by code_simp
  then show "NewLimiter (Fin 1) (2 ^ 60) t0 =
     Return \<lparr>rate = Fin 1, burst = Fin (2 ^ 60), tokens = Fin (2 ^ 60), last_time = t0\<rparr>"
    by (simp add: NewLimiter_def)
  let ?l = "\<lparr>rate = Fin 1, burst = Fin (2 ^ 60), tokens = Fin (2 ^ 60), last_time = t0\<rparr>"
  have "fsub (Fin (2 ^ 60)) (Fin 1) = Fin (2 ^ 60)" by code_simp
  then have "Allow ?l t0 = (?l, True)" using Allow_same_instant [of ?l] by simp
  then show "snd (allow_run ?l (replicate n t0)) = n"
    by (induction n) (simp_all add: case_prod_beta)
qed

definition slow_limiter :: limiter where
  "slow_limiter = \<lparr>rate = f64 (1 / 10 ^ 10), burst = Fin 1, tokens = Fin 0, last_time = 0\<rparr>"

definition amd64_env :: wait_env where
  "amd64_env = \<lparr>ctx_before = None, ctx_during = None, wake = CtxDone Canceled, seam = None,
     during = (\<lambda>l. l), conv_of = amd64_conv\<rparr>"

text \<open>
  A reservation too far in the future is granted at once: at a rate of one token in \<open>10 ^ 10\<close> seconds,
  the sleep of the second caller exceeds \<open>int64\<close> nanoseconds; where the conversion yields the
  least \<open>int64\<close> (amd64), \<open>Wait\<close> skips the sleep and returns nil immediately.
\<close>

theorem overlong_wait_admits_at_once:
  "fst (Allow \<lparr>rate = f64 (1 / 10 ^ 10), burst = Fin 1, tokens = Fin 1, last_time = 0\<rparr> 0) = slow_limiter \<and>
   snd (Wait_reserve amd64_conv slow_limiter 0) = Some int64_min \<and>
   snd (Wait amd64_env slow_limiter 0 0) = None"
proof (intro conjI)
  show "fst (Allow \<lparr>rate = f64 (1 / 10 ^ 10), burst = Fin 1, tokens = Fin 1, last_time = 0\<rparr> 0) = slow_limiter"
    by code_simp
  show r: "snd (Wait_reserve amd64_conv slow_limiter 0) = Some int64_min"
    by code_simp
  show "snd (Wait amd64_env slow_limiter 0 0) = None"
    by code_simp
qed

end
