(* ===== verification/Cache.thy ===== *)
theory Cache
  imports GoPrelude
begin

text \<open>
  The sharded TTL cache of \<open>pkg/cache\<close>. The seeded hash of the keys (\<open>maphash.Comparable\<close>) is a
  field of the cache, arbitrary; a shard is a partial map. Each operation locks one shard, so the
  operations of the model, with the sweep of one shard as an operation of its own, are the atomic
  steps of concurrent use.
\<close>

unbundle bit_operations_syntax

section \<open>The interface of a store with deadlines\<close>

text \<open>What a read at instant \<open>t\<close> sees of a stored value and its deadline.\<close>

definition live :: "('v \<times> instant) option \<Rightarrow> instant \<Rightarrow> 'v option" where
  "live e t = (case e of None \<Rightarrow> None | Some (v, d) \<Rightarrow> if t < d then Some v else None)"

lemma live_simps [simp]:
  "live None t = None"
  "live (Some (v, d)) t = (if t < d then Some v else None)"
  by (simp_all add: live_def)

text \<open>
  The contract: writing and deleting act on one key, and a sweep removes entries only once their
  deadline has passed.
\<close>

locale ttl_store =
  fixes entry_of :: "'c \<Rightarrow> 'k \<Rightarrow> ('v \<times> instant) option"
    and put :: "'c \<Rightarrow> 'k \<Rightarrow> 'v \<Rightarrow> instant \<Rightarrow> 'c"
    and del :: "'c \<Rightarrow> 'k \<Rightarrow> 'c"
    and sweep :: "'c \<Rightarrow> nat \<Rightarrow> instant \<Rightarrow> 'c"
    and lifetime :: "'c \<Rightarrow> duration"
    and invar :: "'c \<Rightarrow> bool"
  assumes entry_put: "invar c \<Longrightarrow> entry_of (put c k v t) = (entry_of c)(k \<mapsto> (v, t + lifetime c))"
    and entry_del: "invar c \<Longrightarrow> entry_of (del c k) = (entry_of c)(k := None)"
    and entry_sweep: "invar c \<Longrightarrow> entry_of (sweep c i t) k = entry_of c k \<or>
      entry_of (sweep c i t) k = None \<and> live (entry_of c k) t = None"
    and lifetime_put: "lifetime (put c k v t) = lifetime c"
    and lifetime_del: "lifetime (del c k) = lifetime c"
    and lifetime_sweep: "lifetime (sweep c i t) = lifetime c"
    and invar_put: "invar c \<Longrightarrow> invar (put c k v t)"
    and invar_del: "invar c \<Longrightarrow> invar (del c k)"
    and invar_sweep: "invar c \<Longrightarrow> invar (sweep c i t)"
begin

lemma live_mono: "live e t = None \<Longrightarrow> t \<le> u \<Longrightarrow> live e u = None"
  by (auto simp: live_def split: option.splits prod.splits if_splits)

lemma read_after_put: "invar c \<Longrightarrow> live (entry_of (put c k v t) k') u =
    (if k' = k then if u < t + lifetime c then Some v else None else live (entry_of c k') u)"
  by (simp add: entry_put)

lemma read_after_del: "invar c \<Longrightarrow> live (entry_of (del c k) k') u =
    (if k' = k then None else live (entry_of c k') u)"
  by (simp add: entry_del)

lemma read_after_sweep: "invar c \<Longrightarrow> t \<le> u \<Longrightarrow> live (entry_of (sweep c i t) k) u = live (entry_of c k) u"
  using entry_sweep [of c i t k] live_mono [of "entry_of c k" t u] by auto

text \<open>Two stores agree from \<open>t\<close> on when no read at \<open>t\<close> or later tells them apart.\<close>

lemma agree_put:
  assumes "invar c" and "invar c'" and "lifetime c = lifetime c'"
    and "\<And>k u. t \<le> u \<Longrightarrow> live (entry_of c k) u = live (entry_of c' k) u" and "t \<le> u"
  shows "live (entry_of (put c k v s) k') u = live (entry_of (put c' k v s) k') u"
  using assms by (simp add: read_after_put)

lemma agree_del:
  assumes "invar c" and "invar c'"
    and "\<And>k u. t \<le> u \<Longrightarrow> live (entry_of c k) u = live (entry_of c' k) u" and "t \<le> u"
  shows "live (entry_of (del c k) k') u = live (entry_of (del c' k) k') u"
  using assms by (simp add: read_after_del)

lemma agree_sweep:
  assumes "invar c" and "s \<le> t"
    and "\<And>k u. t \<le> u \<Longrightarrow> live (entry_of c k) u = live (entry_of c' k) u" and "t \<le> u"
  shows "live (entry_of (sweep c i s) k) u = live (entry_of c' k) u"
  using assms by (simp add: read_after_sweep)

end

section \<open>Data\<close>

record 'v entry =
  "value" :: 'v
  expiresAt :: instant

type_synonym ('k, 'v) shard = "'k \<rightharpoonup> 'v entry"

definition shardCount :: nat where "shardCount = 32"

record ('k, 'v) cache =
  shards :: "('k, 'v) shard list"
  seeded_hash :: "'k \<Rightarrow> 64 word"
  ttl :: duration
  closeOnce :: bool
  done_closed :: bool

record options =
  cleanupInterval :: duration

definition WithCleanupInterval :: "duration \<Rightarrow> (options \<Rightarrow> options) go" where
  "WithCleanupInterval d =
     (if d \<le> 0 then Panic ''cache: non-positive cleanup interval''
      else Return (\<lambda>opt. opt\<lparr>cleanupInterval := d\<rparr>))"

text \<open>\<open>New\<close> returns the cache and the interval its sweeper goroutine is started with.\<close>

definition cache_New :: "('k \<Rightarrow> 64 word) \<Rightarrow> duration \<Rightarrow> (options \<Rightarrow> options) list \<Rightarrow>
    (('k, 'v) cache \<times> duration) go" where
  "cache_New h d opts =
     (if d \<le> 0 then Panic ''cache: non-positive TTL''
      else let cfg = apply_opts opts \<lparr>cleanupInterval = d\<rparr>
           in Return (\<lparr>shards = replicate shardCount Map.empty, seeded_hash = h, ttl = d,
                       closeOnce = False, done_closed = False\<rparr>, cleanupInterval cfg))"

section \<open>Operations\<close>

definition shardFor :: "('k, 'v) cache \<Rightarrow> 'k \<Rightarrow> nat" where
  "shardFor c k = unat (seeded_hash c k AND (of_nat shardCount - 1))"

definition cache_Set :: "('k, 'v) cache \<Rightarrow> 'k \<Rightarrow> 'v \<Rightarrow> instant \<Rightarrow> ('k, 'v) cache" where
  "cache_Set c k v now =
     (let deadline = now + ttl c; i = shardFor c k
      in c\<lparr>shards := (shards c)[i := (shards c ! i)(k \<mapsto> \<lparr>value = v, expiresAt = deadline\<rparr>)]\<rparr>)"

text \<open>
  \<open>Get\<close> reads the entry under the lock and the clock after releasing it: \<open>e\<close> is the entry read,
  \<open>now\<close> the later clock reading. A miss is \<open>None\<close> (the zero value and false).
\<close>

definition Get_read :: "('k, 'v) cache \<Rightarrow> 'k \<Rightarrow> 'v entry option" where
  "Get_read c k = (shards c ! shardFor c k) k"

definition Get_check :: "'v entry option \<Rightarrow> instant \<Rightarrow> 'v option" where
  "Get_check e now =
     (case e of None \<Rightarrow> None | Some e \<Rightarrow> if \<not> now < expiresAt e then None else Some (value e))"

definition cache_Get :: "('k, 'v) cache \<Rightarrow> 'k \<Rightarrow> instant \<Rightarrow> 'v option" where
  "cache_Get c k now = Get_check (Get_read c k) now"

definition cache_Delete :: "('k, 'v) cache \<Rightarrow> 'k \<Rightarrow> ('k, 'v) cache" where
  "cache_Delete c k =
     (let i = shardFor c k in c\<lparr>shards := (shards c)[i := (shards c ! i)(k := None)]\<rparr>)"

text \<open>\<open>closeOnce.Do\<close> runs its function once; closing a closed channel would panic.\<close>

definition cache_Close :: "('k, 'v) cache \<Rightarrow> ('k, 'v) cache go" where
  "cache_Close c =
     (if closeOnce c then Return c
      else if done_closed c then Panic ''close of closed channel''
      else Return (c\<lparr>closeOnce := True, done_closed := True\<rparr>))"

definition expire :: "instant \<Rightarrow> ('k, 'v) shard \<Rightarrow> ('k, 'v) shard" where
  "expire now m = (\<lambda>k. case m k of None \<Rightarrow> None
     | Some e \<Rightarrow> if \<not> now < expiresAt e then None else Some e)"

definition sweep_shard :: "('k, 'v) cache \<Rightarrow> nat \<Rightarrow> instant \<Rightarrow> ('k, 'v) cache" where
  "sweep_shard c i now = c\<lparr>shards := (shards c)[i := expire now (shards c ! i)]\<rparr>"

definition removeExpired :: "('k, 'v) cache \<Rightarrow> instant \<Rightarrow> ('k, 'v) cache" where
  "removeExpired c now = fold (\<lambda>i c. sweep_shard c i now) [0..<shardCount] c"

text \<open>The sweeper goroutine: it selects between the closed \<open>done\<close> channel and a tick.\<close>

datatype sweeper = Running | Exited

inductive sweeper_step :: "('k, 'v) cache \<times> sweeper \<Rightarrow> ('k, 'v) cache \<times> sweeper \<Rightarrow> bool" where
  sweeper_done: "done_closed c \<Longrightarrow> sweeper_step (c, Running) (c, Exited)"
| sweeper_tick: "sweeper_step (c, Running) (removeExpired c now, Running)"

inductive_cases sweeper_stepE: "sweeper_step (c, w) (c', w')"

section \<open>Invariant and abstraction\<close>

definition cache_inv :: "('k, 'v) cache \<Rightarrow> bool" where
  "cache_inv c \<longleftrightarrow> length (shards c) = shardCount \<and>
     (\<forall>i < shardCount. \<forall>k. (shards c ! i) k \<noteq> None \<longrightarrow> i = shardFor c k) \<and>
     (done_closed c \<longleftrightarrow> closeOnce c)"

definition lookup :: "('k, 'v) cache \<Rightarrow> 'k \<Rightarrow> ('v \<times> instant) option" where
  "lookup c k = map_option (\<lambda>e. (value e, expiresAt e)) ((shards c ! shardFor c k) k)"

lemma shardFor_less [simp]: "shardFor c k < shardCount"
proof -
  have "seeded_hash c k AND 31 \<le> (31 :: 64 word)" by (rule word_and_le1)
  then have "unat (seeded_hash c k AND 31) \<le> unat (31 :: 64 word)" by (simp only: word_le_nat_alt)
  then show ?thesis by (simp add: shardFor_def shardCount_def)
qed

lemma shardFor_frame [simp]:
  "shardFor (c\<lparr>shards := ss\<rparr>) = shardFor c"
  "shardFor (c\<lparr>closeOnce := x\<rparr>) = shardFor c" "shardFor (c\<lparr>done_closed := x\<rparr>) = shardFor c"
  by (simp_all add: shardFor_def fun_eq_iff)

lemma expire_live: "expire t m k = m k \<or>
    expire t m k = None \<and> live (map_option (\<lambda>e. (value e, expiresAt e)) (m k)) t = None"
  by (auto simp: expire_def split: option.splits)

lemma cache_Get_live: "cache_Get c k now = live (lookup c k) now"
  by (auto simp: cache_Get_def Get_read_def Get_check_def lookup_def split: option.splits)

interpretation cache_store: ttl_store lookup cache_Set cache_Delete sweep_shard ttl cache_inv
proof (unfold_locales, goal_cases)
  case (1 c k v t)
  then show ?case
    by (auto simp: fun_eq_iff lookup_def Let_def cache_Set_def cache_inv_def nth_list_update)
next
  case (2 c k)
  then show ?case
    by (auto simp: fun_eq_iff lookup_def Let_def cache_Delete_def cache_inv_def nth_list_update)
next
  case (3 c i t k)
  then show ?case
    using expire_live [of t "shards c ! i" k]
    by (cases "i = shardFor c k")
      (auto simp: lookup_def sweep_shard_def cache_inv_def)
next
  case (7 c k v t)
  then show ?case
    by (auto simp: Let_def cache_Set_def cache_inv_def nth_list_update split: if_splits)
next
  case (8 c k)
  then show ?case
    by (auto simp: Let_def cache_Delete_def cache_inv_def nth_list_update split: if_splits)
next
  case (9 c i t)
  show ?case
    unfolding cache_inv_def
  proof (intro conjI allI impI)
    fix j k assume j: "j < shardCount" "(shards (sweep_shard c i t) ! j) k \<noteq> None"
    then have "(shards c ! j) k \<noteq> None"
      using 9 expire_live [of t "shards c ! j" k]
      by (cases "i = j") (auto simp: sweep_shard_def cache_inv_def)
    then show "j = shardFor (sweep_shard c i t) k" using 9 j(1) by (simp add: sweep_shard_def cache_inv_def)
  qed (use 9 in \<open>simp_all add: sweep_shard_def cache_inv_def\<close>)
qed (simp_all add: Let_def cache_Set_def cache_Delete_def sweep_shard_def)

section \<open>Histories\<close>

text \<open>
  A history lists the critical sections of concurrent calls in the order in which their shards were
  locked, with the clock reading of each call. \<open>cache_run\<close> performs them and collects what the
  \<open>Get\<close> calls return.
\<close>

datatype ('k, 'v) cache_op =
  OpSet 'k 'v instant | OpGet 'k instant | OpDelete 'k | OpSweep nat instant

fun cache_run :: "('k, 'v) cache \<Rightarrow> ('k, 'v) cache_op list \<Rightarrow> 'v option list" where
  "cache_run c [] = []"
| "cache_run c (OpSet k v t # ops) = cache_run (cache_Set c k v t) ops"
| "cache_run c (OpGet k u # ops) = cache_Get c k u # cache_run c ops"
| "cache_run c (OpDelete k # ops) = cache_run (cache_Delete c k) ops"
| "cache_run c (OpSweep i t # ops) = cache_run (sweep_shard c i t) ops"

text \<open>
  The clock is monotone and \<open>Get\<close> reads it after the entry, a sweep before its first shard: a \<open>Get\<close>
  that comes after the sweep of a shard has read a later instant. Nothing is asked of the readings
  of \<open>Set\<close>.
\<close>

fun well_timed :: "instant \<Rightarrow> ('k, 'v) cache_op list \<Rightarrow> bool" where
  "well_timed t [] \<longleftrightarrow> True"
| "well_timed t (OpSet k v s # ops) \<longleftrightarrow> well_timed t ops"
| "well_timed t (OpGet k u # ops) \<longleftrightarrow> t \<le> u \<and> well_timed t ops"
| "well_timed t (OpDelete k # ops) \<longleftrightarrow> well_timed t ops"
| "well_timed t (OpSweep i s # ops) \<longleftrightarrow> well_timed (max s t) ops"

text \<open>
  The specification knows no shards, no hash and no sweeper: a \<open>Get\<close> returns what the last \<open>Set\<close> of
  the key stored, unless the key was deleted since or its time to live has passed.
\<close>

fun last_set :: "('k, 'v) cache_op list \<Rightarrow> 'k \<Rightarrow> ('v \<times> instant) option" where
  "last_set [] k = None"
| "last_set (OpSet k' v t # past) k = (if k' = k then Some (v, t) else last_set past k)"
| "last_set (OpDelete k' # past) k = (if k' = k then None else last_set past k)"
| "last_set (_ # past) k = last_set past k"

fun spec_gets :: "duration \<Rightarrow> ('k, 'v) cache_op list \<Rightarrow> ('k, 'v) cache_op list \<Rightarrow> 'v option list" where
  "spec_gets d past [] = []"
| "spec_gets d past (OpGet k u # ops) =
     (case last_set past k of Some (v, t) \<Rightarrow> if u < t + d then Some v else None | None \<Rightarrow> None) #
     spec_gets d (OpGet k u # past) ops"
| "spec_gets d past (op # ops) = spec_gets d (op # past) ops"

text \<open>The simulation: no read at \<open>t\<close> or later tells the cache from the last writes.\<close>

definition matches :: "('k, 'v) cache \<Rightarrow> ('k, 'v) cache_op list \<Rightarrow> instant \<Rightarrow> bool" where
  "matches c past t \<longleftrightarrow> cache_inv c \<and> (\<forall>k u. t \<le> u \<longrightarrow>
     live (lookup c k) u = live (map_option (\<lambda>(v, s). (v, s + ttl c)) (last_set past k)) u)"

lemma matches_set: "matches c past t \<Longrightarrow> matches (cache_Set c k v s) (OpSet k v s # past) t"
  by (auto simp: matches_def cache_store.read_after_put cache_store.invar_put cache_store.lifetime_put)

lemma matches_delete: "matches c past t \<Longrightarrow> matches (cache_Delete c k) (OpDelete k # past) t"
  by (auto simp: matches_def cache_store.read_after_del cache_store.invar_del cache_store.lifetime_del)

lemma matches_sweep: "matches c past t \<Longrightarrow> matches (sweep_shard c i s) (OpSweep i s # past) (max s t)"
  by (auto simp: matches_def cache_store.read_after_sweep cache_store.invar_sweep cache_store.lifetime_sweep)

lemma matches_get: "matches c past t \<Longrightarrow> t \<le> u \<Longrightarrow> cache_Get c k u =
    (case last_set past k of Some (v, s) \<Rightarrow> if u < s + ttl c then Some v else None | None \<Rightarrow> None)"
  by (auto simp: matches_def cache_Get_live live_def split: option.splits prod.splits)

text \<open>One step of a history keeps the simulation and answers as the specification does.\<close>

lemma matches_run: "matches c past t \<Longrightarrow> well_timed t ops \<Longrightarrow> cache_run c ops = spec_gets (ttl c) past ops"
proof (induction t ops arbitrary: c past rule: well_timed.induct)
  case (2 t k v s ops)
  then show ?case using matches_set [of c past t k v s] by (auto simp: cache_store.lifetime_put)
next
  case (3 t k u ops)
  then have "matches c (OpGet k u # past) t" by (simp add: matches_def)
  then show ?case using matches_get [of c past t u k] 3 by simp
next
  case (4 t k ops)
  then show ?case using matches_delete [of c past t k] by (auto simp: cache_store.lifetime_del)
next
  case (5 t i s ops)
  then show ?case using matches_sweep [of c past t i s] by (auto simp: cache_store.lifetime_sweep)
qed simp

lemma cache_New_inv: "cache_New h d opts = Return (c, i) \<Longrightarrow>
    cache_inv c \<and> ttl c = d \<and> lookup c = Map.empty \<and> 0 < d \<and> \<not> done_closed c"
  by (auto simp: cache_New_def cache_inv_def lookup_def Let_def fun_eq_iff split: if_splits)

section \<open>Sweeping everything\<close>

lemma sweep_shard_lookup: "cache_inv c \<Longrightarrow> i < shardCount \<Longrightarrow> lookup (sweep_shard c i t) k =
    (if i = shardFor c k \<and> live (lookup c k) t = None then None else lookup c k)"
  by (cases "i = shardFor c k"; cases "(shards c ! i) k")
    (simp_all add: lookup_def sweep_shard_def cache_inv_def expire_def)

lemma sweep_shards: "cache_inv c \<Longrightarrow> (\<And>i. i \<in> set is \<Longrightarrow> i < shardCount) \<Longrightarrow>
    let c' = fold (\<lambda>i c. sweep_shard c i t) is c in cache_inv c' \<and> shardFor c' = shardFor c \<and>
      lookup c' k = (if shardFor c k \<in> set is \<and> live (lookup c k) t = None then None else lookup c k)"
proof (induction "is" arbitrary: c)
  case (Cons i "is")
  have f: "shardFor (sweep_shard c i t) = shardFor c" by (simp add: sweep_shard_def)
  show ?case
    using Cons.IH [of "sweep_shard c i t"] Cons.prems
    by (auto simp: Let_def f sweep_shard_lookup cache_store.invar_sweep split: if_splits)
qed simp

text \<open>The cache after a history.\<close>

fun cache_apply :: "('k, 'v) cache_op \<Rightarrow> ('k, 'v) cache \<Rightarrow> ('k, 'v) cache" where
  "cache_apply (OpSet k v t) c = cache_Set c k v t"
| "cache_apply (OpGet k u) c = c"
| "cache_apply (OpDelete k) c = cache_Delete c k"
| "cache_apply (OpSweep i t) c = sweep_shard c i t"

lemma cache_apply_inv: "cache_inv c \<Longrightarrow> cache_inv (fold cache_apply ops c)"
proof (induction ops arbitrary: c)
  case (Cons p ops)
  then show ?case
    by (cases p) (auto simp: cache_store.invar_put cache_store.invar_del cache_store.invar_sweep)
qed simp

text \<open>
  One pass of the sweeper reclaims exactly the expired entries: every entry whose deadline is
  not after the sweep's clock reading is gone from its shard, every other entry is untouched, and no
  \<open>Get\<close> reading the clock at that instant or later can tell that the sweep ran.
\<close>

lemma sweep_reclaims_exactly_expired:
  assumes "cache_inv c"
  shows "lookup (removeExpired c t) k = (if cache_Get c k t = None then None else lookup c k) \<and>
    (\<forall>u \<ge> t. cache_Get (removeExpired c t) k u = cache_Get c k u)"
proof -
  have "cache_inv (removeExpired c t) \<and>
    lookup (removeExpired c t) k = (if live (lookup c k) t = None then None else lookup c k)"
    using sweep_shards [OF assms, of "[0..<shardCount]" t k] by (simp add: removeExpired_def Let_def)
  then show ?thesis
    using cache_store.live_mono [of "lookup c k" t] by (simp add: cache_Get_live)
qed

section \<open>Properties\<close>

text \<open>
  C13. A fresh cache refines the specification: in any history of concurrent \<open>Set\<close>, \<open>Get\<close>, \<open>Delete\<close>
  and sweeper steps, whatever the hash and whenever the sweeper runs, every \<open>Get\<close> returns the value of
  the last \<open>Set\<close> of its key while that value's time to live lasts and the key has not been deleted
  since, and a miss otherwise. A full pass of the sweeper over the cache so reached removes exactly the
  entries that have expired by the pass's clock reading, and no \<open>Get\<close> at that reading or a later one
  can tell that it ran.
\<close>

theorem cache_refines_ttl_map:
  assumes "cache_New h d opts = Return (c, i)" and "well_timed t ops"
  shows "cache_run c ops = spec_gets d [] ops \<and>
    (let c' = fold cache_apply ops c
     in lookup (removeExpired c' s) k = (if cache_Get c' k s = None then None else lookup c' k) \<and>
        (\<forall>u \<ge> s. cache_Get (removeExpired c' s) k u = cache_Get c' k u))"
proof -
  have "matches c [] t" using cache_New_inv [OF assms(1)] by (simp add: matches_def)
  then have "cache_run c ops = spec_gets d [] ops"
    using matches_run [OF _ assms(2)] cache_New_inv [OF assms(1)] by simp
  moreover have "cache_inv (fold cache_apply ops c)" using cache_New_inv [OF assms(1)] by (simp add: cache_apply_inv)
  ultimately show ?thesis
    using sweep_reclaims_exactly_expired [of "fold cache_apply ops c" s k] unfolding Let_def by blast
qed

theorem cache_refines_ttl_map_witness:
  "\<exists>c :: (nat, nat) cache. cache_New (\<lambda>k. of_nat k) 10 [] = Return (c, 10) \<and>
     cache_run c [OpSet 1 7 0, OpSet 33 8 5, OpGet 1 9, OpSweep 1 12, OpGet 1 12, OpGet 33 14, OpDelete 33, OpGet 33 14] =
       [Some 7, None, Some 8, None]"
proof -
  let ?ops = "[OpSet 1 7 0, OpSet 33 8 5, OpGet 1 9, OpSweep 1 12, OpGet 1 12, OpGet 33 14, OpDelete 33, OpGet 33 14]
    :: (nat, nat) cache_op list"
  obtain c :: "(nat, nat) cache" where c: "cache_New (\<lambda>k. of_nat k) 10 [] = Return (c, 10)"
    by (auto simp: cache_New_def)
  have "well_timed 0 ?ops" by simp
  then have "cache_run c ?ops = spec_gets 10 [] ?ops" using cache_refines_ttl_map [OF c] by blast
  with c show ?thesis by auto
qed

text \<open>Closing: \<open>Close\<close> never closes the channel twice, and the sweeper's only other step keeps the contents.\<close>

lemma cache_Close_total:
  assumes "cache_inv c"
  shows "\<exists>c'. cache_Close c = Return c' \<and> cache_Close c' = Return c' \<and> cache_inv c' \<and> done_closed c' \<and>
    lookup c' = lookup c"
  using assms by (auto simp: cache_Close_def cache_inv_def lookup_def fun_eq_iff)

end
