(* ===== verification/GoChan.thy ===== *)
theory GoChan
  imports GoPrelude
begin

text \<open>
  Go channels: a bounded FIFO buffer that can be closed. An operation that would block is \<open>None\<close>;
  sending on or closing a closed channel panics. The interface \<open>fifo_queue\<close> is what the components
  that pass values through channels rely on.
\<close>

section \<open>The interface of a FIFO queue\<close>

locale fifo_queue =
  fixes contents :: "'c \<Rightarrow> 'a list"
    and send :: "'c \<Rightarrow> 'a \<Rightarrow> 'c go option"
    and recv :: "'c \<Rightarrow> ('a option \<times> 'c) option"
    and capacity :: "'c \<Rightarrow> nat"
  assumes send_contents: "send c x = Some (Return c') \<Longrightarrow>
      contents c' = contents c @ [x] \<and> capacity c' = capacity c \<and> length (contents c) < capacity c"
    and recv_contents: "recv c = Some (Some x, c') \<Longrightarrow> contents c = x # contents c' \<and> capacity c' = capacity c"
    and recv_end: "recv c = Some (None, c') \<Longrightarrow> contents c = [] \<and> c' = c"
begin

text \<open>What was taken out followed by what is inside is what was put in, in order.\<close>

lemma fifo_send: "got @ contents c = sent \<Longrightarrow> send c x = Some (Return c') \<Longrightarrow> got @ contents c' = sent @ [x]"
  using send_contents [of c x c'] by auto

lemma fifo_recv: "got @ contents c = sent \<Longrightarrow> recv c = Some (Some x, c') \<Longrightarrow> (got @ [x]) @ contents c' = sent"
  using recv_contents [of c x c'] by auto

lemma bounded_send: "send c x = Some (Return c') \<Longrightarrow> length (contents c') \<le> capacity c'"
  using send_contents [of c x c'] by auto

lemma bounded_recv: "length (contents c) \<le> capacity c \<Longrightarrow> recv c = Some (y, c') \<Longrightarrow> length (contents c') \<le> capacity c'"
  using recv_contents [of c _ c'] recv_end [of c c'] by (cases y) auto

end

section \<open>Channels\<close>

record 'a chan =
  buf :: "'a list"
  cap :: nat
  chan_closed :: bool

definition make_chan :: "nat \<Rightarrow> 'a chan" where
  "make_chan n = \<lparr>buf = [], cap = n, chan_closed = False\<rparr>"

definition chan_send :: "'a chan \<Rightarrow> 'a \<Rightarrow> 'a chan go option" where
  "chan_send c x =
     (if chan_closed c then Some (Panic ''send on closed channel'')
      else if length (buf c) < cap c then Some (Return (c\<lparr>buf := buf c @ [x]\<rparr>)) else None)"

definition chan_recv :: "'a chan \<Rightarrow> ('a option \<times> 'a chan) option" where
  "chan_recv c =
     (case buf c of x # xs \<Rightarrow> Some (Some x, c\<lparr>buf := xs\<rparr>)
      | [] \<Rightarrow> if chan_closed c then Some (None, c) else None)"

definition chan_close :: "'a chan \<Rightarrow> 'a chan go" where
  "chan_close c =
     (if chan_closed c then Panic ''close of closed channel'' else Return (c\<lparr>chan_closed := True\<rparr>))"

lemma chan_send_simps:
  "chan_send c x = Some (Return c') \<longleftrightarrow>
     \<not> chan_closed c \<and> length (buf c) < cap c \<and> c' = c\<lparr>buf := buf c @ [x]\<rparr>"
  "chan_send c x = Some (Panic m) \<longleftrightarrow> chan_closed c \<and> m = ''send on closed channel''"
  "chan_send c x = None \<longleftrightarrow> \<not> chan_closed c \<and> cap c \<le> length (buf c)"
  by (auto simp: chan_send_def)

lemma chan_recv_simps:
  "chan_recv c = Some (Some x, c') \<longleftrightarrow> (\<exists>xs. buf c = x # xs \<and> c' = c\<lparr>buf := xs\<rparr>)"
  "chan_recv c = Some (None, c') \<longleftrightarrow> buf c = [] \<and> chan_closed c \<and> c' = c"
  "chan_recv c = None \<longleftrightarrow> buf c = [] \<and> \<not> chan_closed c"
  by (auto simp: chan_recv_def split: list.splits)

lemma chan_close_simps:
  "chan_close c = Return c' \<longleftrightarrow> \<not> chan_closed c \<and> c' = c\<lparr>chan_closed := True\<rparr>"
  "chan_close c = Panic m \<longleftrightarrow> chan_closed c \<and> m = ''close of closed channel''"
  by (auto simp: chan_close_def)

lemmas chan_simps = chan_send_simps chan_recv_simps chan_close_simps

interpretation go_chan: fifo_queue buf chan_send chan_recv cap
  by unfold_locales (auto simp: chan_simps)

end
