(* ===== verification/WorkerPool.thy ===== *)
theory WorkerPool
  imports GoChan
begin

text \<open>
  The worker pool of \<open>pkg/workerpool\<close> as a transition system: the state of the pool, of its worker
  goroutines and of every \<open>Submit\<close> and \<open>Close\<close> call. A task is identified with the call that submits
  it. Logs of the tasks admitted, started and finished are kept beside the state to say what
  happened; no rule reads them. A task returns or panics; what \<open>runtime.Goexit\<close> inside a task does to the
  pool is an extension at the end.
\<close>

section \<open>Data\<close>

datatype submit_err = ErrQueueFull | ErrClosed | SubmitCtx ctx_err

text \<open>
  \<open>onPanic\<close> is the panic handler: it may itself panic. \<open>workers\<close> is the counter of the wait group.
\<close>

record 'tk pool =
  queue :: "'tk chan"
  nonBlock :: bool
  onPanic :: "(string \<Rightarrow> unit go) option"
  hard_stopped :: bool
  closed :: bool
  workers :: nat

definition WithNonBlockingSubmit :: "'tk pool \<Rightarrow> 'tk pool" where
  "WithNonBlockingSubmit p = p\<lparr>nonBlock := True\<rparr>"

definition WithPanicHandler :: "(string \<Rightarrow> unit go) option \<Rightarrow> ('tk pool \<Rightarrow> 'tk pool) go" where
  "WithPanicHandler h =
     (case h of None \<Rightarrow> Panic ''workerpool: nil panic handler''
      | Some f \<Rightarrow> Return (\<lambda>p. p\<lparr>onPanic := Some f\<rparr>))"

datatype 'tk worker = WIdle | WRunning 'tk | WExited

definition pool_New :: "int \<Rightarrow> int \<Rightarrow> ('tk pool \<Rightarrow> 'tk pool) list \<Rightarrow> ('tk pool \<times> 'tk worker list) go" where
  "pool_New n q opts =
     (if n \<le> 0 then Panic ''workerpool: workers must be > 0''
      else if q < 0 then Panic ''workerpool: queueSize must be >= 0''
      else let p = apply_opts opts \<lparr>queue = make_chan (nat q), nonBlock = False, onPanic = None,
                 hard_stopped = False, closed = False, workers = 0\<rparr>
           in Return (p\<lparr>workers := workers p + nat n\<rparr>, replicate (nat n) WIdle))"

text \<open>\<open>run\<close>: the outcome of the task under the pool's panic policy.\<close>

definition run :: "'tk pool \<Rightarrow> unit go \<Rightarrow> unit go" where
  "run p outcome =
     (case outcome of Return _ \<Rightarrow> Return ()
      | Panic m \<Rightarrow> (case onPanic p of None \<Rightarrow> Panic m | Some h \<Rightarrow> h m))"

section \<open>The system\<close>

text \<open>
  A call of \<open>Submit\<close> waits for the read lock, holds it at the \<open>closed\<close> check and then in the select;
  a call of \<open>Close\<close> waits for the write lock, performs its critical section, and waits for the
  workers. Contexts are numbered; context 0 is the background context, which never ends.
\<close>

datatype submit = SNotCalled | SWaitLock nat | SLocked nat | SSelect nat | SReturned "submit_err option"

datatype close_call = CNotCalled | CWaitLock nat | CWaiting nat | CReturned "ctx_err option"

datatype crash = TaskPanic string | ChanPanic string

record 'tk pool_sys =
  pool :: "'tk pool"
  goroutines :: "'tk worker list"
  submits :: "'tk \<Rightarrow> submit"
  closes :: "nat \<Rightarrow> close_call"
  ctx_done :: "nat \<Rightarrow> ctx_err option"
  crashed :: "crash option"
  admitted :: "'tk list"
  started :: "'tk list"
  finished :: "'tk list"

fun read_locked :: "submit \<Rightarrow> bool" where
  "read_locked (SLocked x) = True"
| "read_locked (SSelect x) = True"
| "read_locked _ = False"

text \<open>A nil task panics in its caller before \<open>Submit\<close> touches the pool.\<close>

definition Submit_task :: "'tk option \<Rightarrow> 'tk go" where
  "Submit_task task = (case task of None \<Rightarrow> Panic ''workerpool: nil Task'' | Some tk \<Rightarrow> Return tk)"

lemma Submit_task_Some [simp]: "Submit_task (Some tk) = Return tk"
  by (simp add: Submit_task_def)

text \<open>\<open>Submit\<close>: a pending writer keeps new readers out, as \<open>sync.RWMutex\<close> documents.\<close>

inductive submit_step :: "'tk pool_sys \<Rightarrow> 'tk pool_sys \<Rightarrow> bool" where
  Submit_call: "Submit_task task = Return tk \<Longrightarrow> submits s tk = SNotCalled \<Longrightarrow> submit_step s (s\<lparr>submits := (submits s)(tk := SWaitLock x)\<rparr>)"
| Submit_rlock: "submits s tk = SWaitLock x \<Longrightarrow> (\<forall>c y. closes s c \<noteq> CWaitLock y) \<Longrightarrow>
    submit_step s (s\<lparr>submits := (submits s)(tk := SLocked x)\<rparr>)"
| Submit_closed: "submits s tk = SLocked x \<Longrightarrow> closed (pool s) \<Longrightarrow>
    submit_step s (s\<lparr>submits := (submits s)(tk := SReturned (Some ErrClosed))\<rparr>)"
| Submit_open: "submits s tk = SLocked x \<Longrightarrow> \<not> closed (pool s) \<Longrightarrow>
    submit_step s (s\<lparr>submits := (submits s)(tk := SSelect x)\<rparr>)"
| Submit_send: "submits s tk = SSelect x \<Longrightarrow> chan_send (queue (pool s)) tk = Some (Return q) \<Longrightarrow>
    submit_step s (s\<lparr>submits := (submits s)(tk := SReturned None), pool := (pool s)\<lparr>queue := q\<rparr>,
      admitted := admitted s @ [tk]\<rparr>)"
| Submit_handoff: "submits s tk = SSelect x \<Longrightarrow> \<not> chan_closed (queue (pool s)) \<Longrightarrow> buf (queue (pool s)) = [] \<Longrightarrow>
    w < length (goroutines s) \<Longrightarrow> goroutines s ! w = WIdle \<Longrightarrow>
    submit_step s (s\<lparr>submits := (submits s)(tk := SReturned None),
      goroutines := (goroutines s)[w := WRunning tk], admitted := admitted s @ [tk], started := started s @ [tk]\<rparr>)"
| Submit_panic: "submits s tk = SSelect x \<Longrightarrow> chan_send (queue (pool s)) tk = Some (Panic m) \<Longrightarrow>
    submit_step s (s\<lparr>crashed := Some (ChanPanic m)\<rparr>)"
| Submit_full: "submits s tk = SSelect x \<Longrightarrow> nonBlock (pool s) \<Longrightarrow> chan_send (queue (pool s)) tk = None \<Longrightarrow>
    submit_step s (s\<lparr>submits := (submits s)(tk := SReturned (Some ErrQueueFull))\<rparr>)"
| Submit_ctx: "submits s tk = SSelect x \<Longrightarrow> \<not> nonBlock (pool s) \<Longrightarrow> ctx_done s x = Some e \<Longrightarrow>
    submit_step s (s\<lparr>submits := (submits s)(tk := SReturned (Some (SubmitCtx e)))\<rparr>)"

inductive worker_step :: "'tk pool_sys \<Rightarrow> 'tk pool_sys \<Rightarrow> bool" where
  Worker_take: "w < length (goroutines s) \<Longrightarrow> goroutines s ! w = WIdle \<Longrightarrow>
    chan_recv (queue (pool s)) = Some (Some tk, q) \<Longrightarrow>
    worker_step s (s\<lparr>goroutines := (goroutines s)[w := WRunning tk], pool := (pool s)\<lparr>queue := q\<rparr>,
      started := started s @ [tk]\<rparr>)"
| Worker_exit: "w < length (goroutines s) \<Longrightarrow> goroutines s ! w = WIdle \<Longrightarrow>
    chan_recv (queue (pool s)) = Some (None, q) \<Longrightarrow>
    worker_step s (s\<lparr>goroutines := (goroutines s)[w := WExited],
      pool := (pool s)\<lparr>queue := q, workers := workers (pool s) - 1\<rparr>\<rparr>)"
| Worker_finish: "w < length (goroutines s) \<Longrightarrow> goroutines s ! w = WRunning tk \<Longrightarrow> run (pool s) r = Return () \<Longrightarrow>
    worker_step s (s\<lparr>goroutines := (goroutines s)[w := WIdle], finished := finished s @ [tk]\<rparr>)"
| Worker_crash: "w < length (goroutines s) \<Longrightarrow> goroutines s ! w = WRunning tk \<Longrightarrow> run (pool s) r = Panic m \<Longrightarrow>
    worker_step s (s\<lparr>crashed := Some (TaskPanic m)\<rparr>)"

inductive close_step :: "'tk pool_sys \<Rightarrow> 'tk pool_sys \<Rightarrow> bool" where
  Close_call: "closes s c = CNotCalled \<Longrightarrow> close_step s (s\<lparr>closes := (closes s)(c := CWaitLock x)\<rparr>)"
| Close_first: "closes s c = CWaitLock x \<Longrightarrow> (\<forall>tk. \<not> read_locked (submits s tk)) \<Longrightarrow> \<not> closed (pool s) \<Longrightarrow>
    chan_close (queue (pool s)) = Return q \<Longrightarrow>
    close_step s (s\<lparr>closes := (closes s)(c := CWaiting x), pool := (pool s)\<lparr>closed := True, queue := q\<rparr>\<rparr>)"
| Close_panic: "closes s c = CWaitLock x \<Longrightarrow> (\<forall>tk. \<not> read_locked (submits s tk)) \<Longrightarrow> \<not> closed (pool s) \<Longrightarrow>
    chan_close (queue (pool s)) = Panic m \<Longrightarrow> close_step s (s\<lparr>crashed := Some (ChanPanic m)\<rparr>)"
| Close_again: "closes s c = CWaitLock x \<Longrightarrow> (\<forall>tk. \<not> read_locked (submits s tk)) \<Longrightarrow> closed (pool s) \<Longrightarrow>
    close_step s (s\<lparr>closes := (closes s)(c := CWaiting x)\<rparr>)"
| Close_drained: "closes s c = CWaiting x \<Longrightarrow> workers (pool s) = 0 \<Longrightarrow>
    close_step s (s\<lparr>closes := (closes s)(c := CReturned None), pool := (pool s)\<lparr>hard_stopped := True\<rparr>\<rparr>)"
| Close_expired: "closes s c = CWaiting x \<Longrightarrow> ctx_done s x = Some e \<Longrightarrow>
    close_step s (s\<lparr>closes := (closes s)(c := CReturned (Some e)), pool := (pool s)\<lparr>hard_stopped := True\<rparr>\<rparr>)"

inductive pool_step :: "'tk pool_sys \<Rightarrow> 'tk pool_sys \<Rightarrow> bool" where
  step_submit: "crashed s = None \<Longrightarrow> submit_step s t \<Longrightarrow> pool_step s t"
| step_worker: "crashed s = None \<Longrightarrow> worker_step s t \<Longrightarrow> pool_step s t"
| step_close: "crashed s = None \<Longrightarrow> close_step s t \<Longrightarrow> pool_step s t"
| step_ctx: "crashed s = None \<Longrightarrow> x \<noteq> 0 \<Longrightarrow> ctx_done s x = None \<Longrightarrow>
    pool_step s (s\<lparr>ctx_done := (ctx_done s)(x := Some e)\<rparr>)"

text \<open>The options are the package's own; the initial state is what \<open>New\<close> builds.\<close>

definition pool_option :: "('tk pool \<Rightarrow> 'tk pool) \<Rightarrow> bool" where
  "pool_option opt \<longleftrightarrow> opt = WithNonBlockingSubmit \<or> (\<exists>h. WithPanicHandler h = Return opt)"

definition pool_start :: "int \<Rightarrow> int \<Rightarrow> 'tk pool_sys \<Rightarrow> bool" where
  "pool_start n q s \<longleftrightarrow> (\<exists>opts p gs. (\<forall>opt \<in> set opts. pool_option opt) \<and> pool_New n q opts = Return (p, gs) \<and>
     s = \<lparr>pool = p, goroutines = gs, submits = (\<lambda>_. SNotCalled), closes = (\<lambda>_. CNotCalled),
          ctx_done = (\<lambda>_. None), crashed = None, admitted = [], started = [], finished = []\<rparr>)"

section \<open>Invariant\<close>

fun task_of :: "'tk worker \<Rightarrow> 'tk multiset" where
  "task_of (WRunning tk) = {#tk#}"
| "task_of _ = {#}"

fun live_worker :: "'tk worker \<Rightarrow> nat" where
  "live_worker WExited = 0"
| "live_worker _ = 1"

definition running :: "'tk worker list \<Rightarrow> 'tk multiset" where
  "running gs = sum_list (map task_of gs)"

definition live_workers :: "'tk worker list \<Rightarrow> nat" where
  "live_workers gs = sum_list (map live_worker gs)"

definition tasks_inv :: "int \<Rightarrow> int \<Rightarrow> 'tk pool_sys \<Rightarrow> bool" where
  "tasks_inv n q s \<longleftrightarrow> 0 < n \<and> length (goroutines s) = nat n \<and>
     cap (queue (pool s)) = nat q \<and> length (buf (queue (pool s))) \<le> nat q \<and>
     started s @ buf (queue (pool s)) = admitted s \<and> distinct (admitted s) \<and>
     (\<forall>tk. tk \<in> set (admitted s) \<longleftrightarrow> submits s tk = SReturned None) \<and>
     mset (started s) = mset (finished s) + running (goroutines s)"

definition control_inv :: "'tk pool_sys \<Rightarrow> bool" where
  "control_inv s \<longleftrightarrow> workers (pool s) = live_workers (goroutines s) \<and>
     (chan_closed (queue (pool s)) \<longleftrightarrow> closed (pool s)) \<and>
     (closed (pool s) \<longrightarrow> (\<forall>tk x. submits s tk \<noteq> SSelect x)) \<and>
     (WExited \<in> set (goroutines s) \<longrightarrow> closed (pool s) \<and> buf (queue (pool s)) = []) \<and>
     (\<forall>c x. closes s c = CWaiting x \<longrightarrow> closed (pool s)) \<and>
     (\<forall>c. closes s c = CReturned None \<longrightarrow> closed (pool s) \<and> workers (pool s) = 0) \<and>
     (\<forall>m. crashed s \<noteq> Some (ChanPanic m)) \<and> ctx_done s 0 = None"

lemma running_update: "w < length gs \<Longrightarrow> running (gs[w := g]) + task_of (gs ! w) = running gs + task_of g"
  unfolding running_def by (rule sum_list_map_update)

lemma live_workers_update: "w < length gs \<Longrightarrow>
    live_workers (gs[w := g]) + live_worker (gs ! w) = live_workers gs + live_worker g"
  unfolding live_workers_def by (rule sum_list_map_update)

lemma running_simps [simp]: "w < length gs \<Longrightarrow> gs ! w = WIdle \<Longrightarrow> running (gs[w := WRunning tk]) = add_mset tk (running gs)"
  "w < length gs \<Longrightarrow> gs ! w = WIdle \<Longrightarrow> running (gs[w := WExited]) = running gs"
  "w < length gs \<Longrightarrow> gs ! w = WRunning tk \<Longrightarrow> add_mset tk (running (gs[w := WIdle])) = running gs"
  using running_update [of w gs] by simp_all

lemma live_workers_simps [simp]: "w < length gs \<Longrightarrow> gs ! w = WIdle \<Longrightarrow> live_workers (gs[w := WRunning tk]) = live_workers gs"
  "w < length gs \<Longrightarrow> gs ! w = WIdle \<Longrightarrow> live_workers (gs[w := WExited]) = live_workers gs - 1"
  "w < length gs \<Longrightarrow> gs ! w = WRunning tk \<Longrightarrow> live_workers (gs[w := WIdle]) = live_workers gs"
  using live_workers_update [of w gs "WRunning tk"] live_workers_update [of w gs WExited]
    live_workers_update [of w gs WIdle]
  by simp_all

lemma no_reader_no_select: "\<forall>tk. \<not> read_locked (f tk) \<Longrightarrow> f tk \<noteq> SSelect x"
  by (metis read_locked.simps(2))

lemma submit_step_tasks: "submit_step s t \<Longrightarrow> tasks_inv n q s \<Longrightarrow> tasks_inv n q t"
  by (induction rule: submit_step.induct) (auto simp: tasks_inv_def chan_simps)

lemma worker_step_tasks: "worker_step s t \<Longrightarrow> tasks_inv n q s \<Longrightarrow> tasks_inv n q t"
  by (induction rule: worker_step.induct) (auto simp: tasks_inv_def chan_simps)

lemma close_step_tasks: "close_step s t \<Longrightarrow> tasks_inv n q s \<Longrightarrow> tasks_inv n q t"
  by (induction rule: close_step.induct) (auto simp: tasks_inv_def chan_simps)

lemma submit_step_control: "submit_step s t \<Longrightarrow> crashed s = None \<Longrightarrow> control_inv s \<Longrightarrow> control_inv t"
  by (induction rule: submit_step.induct)
    (auto simp: control_inv_def chan_simps dest!: set_update_subset_insert [THEN subsetD])

lemma worker_step_control: "worker_step s t \<Longrightarrow> crashed s = None \<Longrightarrow> control_inv s \<Longrightarrow> control_inv t"
  by (induction rule: worker_step.induct)
    (auto simp: control_inv_def chan_simps dest!: set_update_subset_insert [THEN subsetD])

lemma close_step_control: "close_step s t \<Longrightarrow> crashed s = None \<Longrightarrow> control_inv s \<Longrightarrow> control_inv t"
  by (induction rule: close_step.induct) (auto simp: control_inv_def chan_simps no_reader_no_select)

lemma pool_step_inv: "pool_step s t \<Longrightarrow> tasks_inv n q s \<and> control_inv s \<Longrightarrow> tasks_inv n q t \<and> control_inv t"
proof (induction rule: pool_step.induct)
  case (step_ctx s x e)
  then show ?case by (auto simp: tasks_inv_def control_inv_def)
qed (blast intro: submit_step_tasks worker_step_tasks close_step_tasks
      submit_step_control worker_step_control close_step_control)+

lemma running_idle [simp]: "running (replicate n WIdle) = {#}" "live_workers (replicate n WIdle) = n"
  by (induction n) (simp_all add: running_def live_workers_def)

lemma pool_option_frame: "pool_option opt \<Longrightarrow> queue (opt p) = queue p \<and> closed (opt p) = closed p \<and>
    workers (opt p) = workers p \<and> hard_stopped (opt p) = hard_stopped p"
  by (auto simp: pool_option_def WithNonBlockingSubmit_def WithPanicHandler_def split: option.splits)

lemma pool_New_fresh:
  assumes "pool_New n q opts = Return (p, gs)" and "\<forall>opt \<in> set opts. pool_option opt"
  shows "0 < n \<and> queue p = make_chan (nat q) \<and> \<not> closed p \<and> \<not> hard_stopped p \<and> workers p = nat n \<and> gs = replicate (nat n) WIdle"
proof -
  let ?P = "\<lambda>p. queue p = make_chan (nat q) \<and> \<not> closed p \<and> \<not> hard_stopped p \<and> workers p = 0"
  have "?P (apply_opts opts \<lparr>queue = make_chan (nat q), nonBlock = False, onPanic = None,
      hard_stopped = False, closed = False, workers = 0\<rparr>)"
    by (rule apply_opts_inv) (use assms(2) pool_option_frame in \<open>auto\<close>)
  then show ?thesis using assms(1) by (auto simp: pool_New_def Let_def split: if_splits)
qed

lemma pool_start_fresh: "pool_start n q s \<Longrightarrow> 0 < n \<and> queue (pool s) = make_chan (nat q) \<and> \<not> closed (pool s) \<and>
    \<not> hard_stopped (pool s) \<and> workers (pool s) = nat n \<and> goroutines s = replicate (nat n) WIdle"
  unfolding pool_start_def using pool_New_fresh by fastforce

lemma pool_start_inv: "pool_start n q s \<Longrightarrow> tasks_inv n q s \<and> control_inv s"
  by (frule pool_start_fresh) (auto simp: pool_start_def tasks_inv_def control_inv_def make_chan_def)

interpretation pool_steps: step_invariant "pool_start n q" pool_step "\<lambda>s. tasks_inv n q s \<and> control_inv s"
  for n q
  by unfold_locales (rule pool_start_inv, assumption, rule pool_step_inv)

lemma size_running: "size (running gs) \<le> length gs"
proof (induction gs)
  case (Cons g gs)
  then show ?case by (cases g) (simp_all add: running_def)
qed (simp add: running_def)

section \<open>Draining\<close>

text \<open>The work left to the workers, and that an unfinished worker of a closed pool can always do some.\<close>

fun worker_work :: "'tk worker \<Rightarrow> nat" where
  "worker_work WIdle = 1"
| "worker_work (WRunning tk) = 2"
| "worker_work WExited = 0"

definition pool_work :: "'tk pool_sys \<Rightarrow> nat" where
  "pool_work s = 2 * length (buf (queue (pool s))) + sum_list (map worker_work (goroutines s))"

lemma worker_step_decreases: "worker_step s t \<Longrightarrow> crashed t = None \<Longrightarrow> pool_work t < pool_work s"
proof (induction rule: worker_step.induct)
  case (Worker_take w s tk q)
  then show ?case
    using sum_list_map_update [of w "goroutines s" worker_work "WRunning tk"]
    by (auto simp: pool_work_def chan_simps)
next
  case (Worker_exit w s q)
  then show ?case
    using sum_list_map_update [of w "goroutines s" worker_work WExited]
    by (auto simp: pool_work_def chan_simps)
next
  case (Worker_finish w s tk r)
  then show ?case
    using sum_list_map_update [of w "goroutines s" worker_work WIdle]
    by (auto simp: pool_work_def chan_simps)
qed simp

lemma closed_pool_progress:
  assumes "closed (pool s)" and "control_inv s" and "crashed s = None" and "\<exists>g \<in> set (goroutines s). g \<noteq> WExited"
  shows "\<exists>t. worker_step s t \<and> crashed t = None"
proof -
  from assms(4) obtain w where w: "w < length (goroutines s)" "goroutines s ! w \<noteq> WExited"
    by (auto simp: in_set_conv_nth)
  show ?thesis
  proof (cases "goroutines s ! w")
    case WIdle
    obtain y q where y: "chan_recv (queue (pool s)) = Some (y, q)"
      using assms(1,2) by (cases "chan_recv (queue (pool s))") (auto simp: control_inv_def chan_recv_simps(3))
    show ?thesis
    proof (cases y)
      case None
      then show ?thesis using Worker_exit [OF w(1) WIdle, of q] y assms(3) by auto
    next
      case (Some tk)
      then show ?thesis using Worker_take [OF w(1) WIdle, of tk q] y assms(3) by auto
    qed
  next
    case (WRunning tk)
    have "run (pool s) (Return ()) = Return ()" by (simp add: run_def)
    then show ?thesis using Worker_finish [OF w(1) WRunning] assms(3) by fastforce
  qed (use w in simp)
qed

lemma sum_list_map_empty: "(\<forall>x \<in> set xs. f x = {#}) \<Longrightarrow> sum_list (map f xs) = {#}"
  by (induction xs) auto

lemma all_exited:
  assumes "tasks_inv n q s" and "control_inv s" and "\<forall>g \<in> set (goroutines s). g = WExited"
  shows "mset (finished s) = mset (admitted s)"
proof -
  have "goroutines s \<noteq> []" using assms(1) by (auto simp: tasks_inv_def)
  then have "WExited \<in> set (goroutines s)" using assms(3) by (cases "goroutines s") auto
  then have b: "buf (queue (pool s)) = []" using assms(2) by (simp add: control_inv_def)
  have "running (goroutines s) = {#}"
    unfolding running_def using assms(3) by (intro sum_list_map_empty) auto
  then show ?thesis using assms(1) b by (auto simp: tasks_inv_def)
qed

lemma no_live_workers: "live_workers gs = 0 \<Longrightarrow> \<forall>g \<in> set gs. g = WExited"
proof -
  have "live_worker g = 0 \<Longrightarrow> g = WExited" for g :: "'a worker" by (cases g) auto
  then show "live_workers gs = 0 \<Longrightarrow> \<forall>g \<in> set gs. g = WExited" by (auto simp: live_workers_def)
qed

text \<open>
  The drain: steps of the workers whose tasks do not crash the program, in a closed pool. It is final when
  every worker has exited and what was admitted has finished.
\<close>

definition drain_step :: "'tk pool_sys \<Rightarrow> 'tk pool_sys \<Rightarrow> bool" where
  "drain_step s t \<longleftrightarrow> worker_step s t \<and> crashed s = None \<and> crashed t = None"

definition drained :: "'tk pool_sys \<Rightarrow> bool" where
  "drained s \<longleftrightarrow> (\<forall>g \<in> set (goroutines s). g = WExited) \<and> mset (finished s) = mset (admitted s)"

definition draining :: "int \<Rightarrow> int \<Rightarrow> 'tk pool_sys \<Rightarrow> bool" where
  "draining n q s \<longleftrightarrow> tasks_inv n q s \<and> control_inv s \<and> closed (pool s) \<and> crashed s = None"

lemma worker_step_frame: "worker_step s t \<Longrightarrow> closed (pool t) = closed (pool s) \<and> closes t = closes s \<and>
    admitted t = admitted s \<and> submits t = submits s"
  by (induction rule: worker_step.induct) simp_all

interpretation drain: step_progress drain_step "draining n q" drained pool_work for n q
proof unfold_locales
  show "draining n q t" if "drain_step s t" "draining n q s" for s t :: "'tk pool_sys"
    using that worker_step_tasks worker_step_control worker_step_frame by (simp add: drain_step_def draining_def) blast
  show "\<exists>t. drain_step s t" if "draining n q s" "\<not> drained s" for s :: "'tk pool_sys"
    using that closed_pool_progress all_exited by (simp add: drain_step_def draining_def drained_def) blast
  show "pool_work t < pool_work s" if "drain_step s t" for s t :: "'tk pool_sys"
    using that worker_step_decreases by (auto simp: drain_step_def)
qed

lemma drain_keeps_closes: "drain_step\<^sup>*\<^sup>* s t \<Longrightarrow> closes t = closes s"
  by (induction rule: rtranclp_induct) (auto simp: drain_step_def dest: worker_step_frame)

lemma drained_no_workers: "draining n q s \<Longrightarrow> drained s \<Longrightarrow> workers (pool s) = 0"
  by (auto simp: draining_def drained_def control_inv_def live_workers_def sum_list_eq_0_iff)

lemma Close_nil_drained:
  assumes "tasks_inv n q s" and "control_inv s" and "closes s c = CReturned None"
  shows "drained s"
proof -
  have "live_workers (goroutines s) = 0" using assms(2,3) by (auto simp: control_inv_def)
  then show ?thesis using no_live_workers all_exited assms(1,2) unfolding drained_def by blast
qed

section \<open>A submitter that is blocked\<close>

text \<open>
  Every worker is busy, the queue is full, a blocking \<open>Submit\<close> with the background context waits for
  room while it holds the read lock, and a \<open>Close\<close> waits for the write lock.
\<close>

definition blocked :: "'tk \<Rightarrow> nat \<Rightarrow> nat \<Rightarrow> 'tk pool_sys \<Rightarrow> bool" where
  "blocked tk c x s \<longleftrightarrow> submits s tk = SSelect 0 \<and> closes s c = CWaitLock x \<and> \<not> nonBlock (pool s) \<and>
     cap (queue (pool s)) \<le> length (buf (queue (pool s))) \<and> WIdle \<notin> set (goroutines s)"

lemma blocked_step:
  assumes "pool_step s t" and "\<not> worker_step s t" and "control_inv s" and "blocked tk c x s"
  shows "blocked tk c x t \<and> hard_stopped (pool t) = hard_stopped (pool s)"
  using assms(1)
proof cases
  case step_submit
  from step_submit(2) show ?thesis
    by cases (use assms(3,4) in \<open>auto simp: blocked_def control_inv_def chan_simps in_set_conv_nth\<close>)
next
  case step_close
  from assms(4) have "read_locked (submits s tk)" by (simp add: blocked_def)
  then have r: "\<not> (\<forall>tk. \<not> read_locked (submits s tk))" by blast
  have "\<not> closed (pool s)" using assms(3,4) by (auto simp: control_inv_def blocked_def)
  then have "closes s c \<noteq> CWaiting y" for c y using assms(3) by (auto simp: control_inv_def)
  with step_close(2) show ?thesis
    by cases (use assms(4) r in \<open>simp_all add: blocked_def, auto\<close>)
next
  case (step_ctx y e)
  then show ?thesis using assms(4) by (simp add: blocked_def)
qed (use assms(2) in simp)

section \<open>Properties\<close>

text \<open>
  C15. Tasks are neither lost nor duplicated nor reordered: in every reachable state of a pool of
  \<open>n\<close> workers and queue size \<open>q\<close>, the tasks admitted are exactly those whose \<open>Submit\<close> returned nil,
  each once; workers have started them in the order of admission and the rest are queued; each started
  task is either finished or running; at most \<open>n\<close> run and at most \<open>q\<close> are queued; and no call has sent on
  or closed a closed channel.
\<close>

theorem tasks_exactly_once:
  assumes "pool_start n q s0" and "pool_step\<^sup>*\<^sup>* s0 s"
  shows "started s @ buf (queue (pool s)) = admitted s \<and> distinct (admitted s) \<and>
    (\<forall>tk. tk \<in> set (admitted s) \<longleftrightarrow> submits s tk = SReturned None) \<and>
    mset (started s) = mset (finished s) + running (goroutines s) \<and>
    size (running (goroutines s)) \<le> nat n \<and> length (buf (queue (pool s))) \<le> nat q \<and>
    (\<forall>m. crashed s \<noteq> Some (ChanPanic m))"
  using pool_steps.inv_reachable [OF assms] size_running [of "goroutines s"]
  by (simp add: tasks_inv_def control_inv_def)

definition demo_pool :: "nat pool_sys" where
  "demo_pool = \<lparr>pool = \<lparr>queue = make_chan 0, nonBlock = False, onPanic = None, hard_stopped = False, closed = False,
       workers = 1\<rparr>, goroutines = [WIdle], submits = (\<lambda>_. SNotCalled), closes = (\<lambda>_. CNotCalled),
     ctx_done = (\<lambda>_. None), crashed = None, admitted = [], started = [], finished = []\<rparr>"

lemma demo_pool_start: "pool_start 1 0 demo_pool"
  unfolding pool_start_def
  by (rule exI [of _ "[]"]) (simp add: demo_pool_def pool_New_def)

text \<open>Task 0 runs, task 1 waits in \<open>Submit\<close>, and a \<open>Close\<close> whose context has ended waits for the lock.\<close>

definition demo_blocked :: "nat pool_sys" where
  "demo_blocked = demo_pool\<lparr>goroutines := [WRunning 0], submits := (\<lambda>_. SNotCalled)(0 := SReturned None, 1 := SSelect 0),
     closes := (\<lambda>_. CNotCalled)(0 := CWaitLock 1), ctx_done := (\<lambda>_. None)(1 := Some DeadlineExceeded),
     admitted := [0], started := [0]\<rparr>"

lemma demo_submit:
  assumes "submits s tk = SNotCalled" and "\<forall>c y. closes s c \<noteq> CWaitLock y" and "\<not> closed (pool s)" and "crashed s = None"
  shows "pool_step\<^sup>*\<^sup>* s (s\<lparr>submits := (submits s)(tk := SSelect 0)\<rparr>)"
proof -
  let ?u = "\<lambda>x. s\<lparr>submits := (submits s)(tk := x)\<rparr>"
  have "pool_step s (?u (SWaitLock 0))"
    using assms by (intro step_submit Submit_call [of "Some tk"]) simp_all
  moreover have "pool_step (?u (SWaitLock 0)) (?u (SLocked 0))"
    using Submit_rlock [of "?u (SWaitLock 0)" tk 0] assms by (intro step_submit) simp_all
  moreover have "pool_step (?u (SLocked 0)) (?u (SSelect 0))"
    using Submit_open [of "?u (SLocked 0)" tk 0] assms by (intro step_submit) simp_all
  ultimately show ?thesis by (meson rtranclp.rtrancl_refl rtranclp.rtrancl_into_rtrancl)
qed

lemma demo_blocked_reachable: "pool_step\<^sup>*\<^sup>* demo_pool demo_blocked"
proof -
  define s1 where "s1 = demo_pool\<lparr>submits := (submits demo_pool)(0 := SSelect 0)\<rparr>"
  define s2 where "s2 = s1\<lparr>submits := (submits s1)(0 := SReturned None), goroutines := (goroutines s1)[0 := WRunning 0],
    admitted := admitted s1 @ [0], started := started s1 @ [0]\<rparr>"
  define s3 where "s3 = s2\<lparr>submits := (submits s2)(1 := SSelect 0)\<rparr>"
  define s4 where "s4 = s3\<lparr>ctx_done := (ctx_done s3)(1 := Some DeadlineExceeded)\<rparr>"
  note defs = s1_def s2_def s3_def s4_def demo_pool_def
  have "pool_step\<^sup>*\<^sup>* demo_pool s1"
    unfolding s1_def by (rule demo_submit) (simp_all add: demo_pool_def)
  moreover have "pool_step s1 s2"
    unfolding s2_def by (intro step_submit Submit_handoff) (simp_all add: s1_def demo_pool_def make_chan_def)
  moreover have "pool_step\<^sup>*\<^sup>* s2 s3"
    unfolding s3_def by (rule demo_submit) (simp_all add: s1_def s2_def demo_pool_def)
  moreover have "pool_step s3 s4"
    unfolding s4_def by (rule step_ctx) (simp_all add: s1_def s2_def s3_def demo_pool_def)
  moreover have "pool_step s4 (s4\<lparr>closes := (closes s4)(0 := CWaitLock 1)\<rparr>)"
    by (intro step_close Close_call) (simp_all add: defs)
  moreover have "s4\<lparr>closes := (closes s4)(0 := CWaitLock 1)\<rparr> = demo_blocked"
    by (simp add: demo_blocked_def defs)
  ultimately show ?thesis
    by (metis (no_types) rtranclp.rtrancl_into_rtrancl rtranclp_trans)
qed

theorem tasks_exactly_once_witness:
  "mset (started demo_blocked) = mset (finished demo_blocked) + running (goroutines demo_blocked) \<and>
   size (running (goroutines demo_blocked)) \<le> nat 1"
  using tasks_exactly_once [OF demo_pool_start demo_blocked_reachable] by simp

text \<open>
  C16. \<open>Close\<close> drains: when a \<open>Close\<close> call has returned nil every worker has exited and exactly the
  admitted tasks have finished. From any state of a closed pool that has not crashed, steps of the
  workers alone lead to a state in which all have exited and every admitted task has finished, however
  the tasks are scheduled: a run of the workers whose tasks return has at most \<open>pool_work\<close> steps, and one
  that cannot go on has come to that state. A waiting \<open>Close\<close> can then return nil.
\<close>

theorem Close_drains:
  assumes "pool_start n q s0" and "pool_step\<^sup>*\<^sup>* s0 s"
  shows "(closes s c = CReturned None \<longrightarrow> drained s) \<and>
    (closed (pool s) \<and> crashed s = None \<longrightarrow>
      ends_within drain_step drained (pool_work s) s \<and>
      (\<forall>t x. drain_step\<^sup>*\<^sup>* s t \<and> drained t \<and> closes s c = CWaiting x \<longrightarrow>
        pool_step t (t\<lparr>closes := (closes t)(c := CReturned None), pool := (pool t)\<lparr>hard_stopped := True\<rparr>\<rparr>)))"
proof -
  note i = pool_steps.inv_reachable [OF assms]
  have d: "draining n q s" if "closed (pool s) \<and> crashed s = None"
    using i that by (simp add: draining_def)
  have "pool_step t (t\<lparr>closes := (closes t)(c := CReturned None), pool := (pool t)\<lparr>hard_stopped := True\<rparr>\<rparr>)"
    if "draining n q s" "drain_step\<^sup>*\<^sup>* s t \<and> drained t \<and> closes s c = CWaiting x" for t x
  proof -
    have t: "draining n q t" using drain.progress_invs that by blast
    then show ?thesis
      using that drained_no_workers [OF t] drain_keeps_closes [of s t]
      by (intro step_close Close_drained) (auto simp: draining_def)
  qed
  then show ?thesis using i Close_nil_drained d drain.ends by blast
qed

text \<open>The run of \<open>Close\<close> on an idle pool: lock, worker exit, return.\<close>

definition demo_closed :: "nat pool_sys" where
  "demo_closed = demo_pool\<lparr>goroutines := [WExited], closes := (\<lambda>_. CNotCalled)(0 := CReturned None),
     pool := (pool demo_pool)\<lparr>closed := True, workers := 0, hard_stopped := True,
       queue := \<lparr>buf = [], cap = 0, chan_closed = True\<rparr>\<rparr>\<rparr>"

lemma demo_closed_reachable: "pool_step\<^sup>*\<^sup>* demo_pool demo_closed"
proof -
  define q where "q = (\<lparr>buf = [], cap = 0, chan_closed = True\<rparr> :: nat chan)"
  define s1 where "s1 = demo_pool\<lparr>closes := (closes demo_pool)(0 := CWaitLock 0)\<rparr>"
  define s2 where "s2 = s1\<lparr>closes := (closes s1)(0 := CWaiting 0), pool := (pool s1)\<lparr>closed := True, queue := q\<rparr>\<rparr>"
  define s3 where "s3 = s2\<lparr>goroutines := (goroutines s2)[0 := WExited],
      pool := (pool s2)\<lparr>queue := q, workers := workers (pool s2) - 1\<rparr>\<rparr>"
  define s4 where "s4 = s3\<lparr>closes := (closes s3)(0 := CReturned None), pool := (pool s3)\<lparr>hard_stopped := True\<rparr>\<rparr>"
  note defs = s1_def s2_def s3_def s4_def demo_pool_def q_def
  have "pool_step demo_pool s1"
    unfolding s1_def by (intro step_close Close_call) (simp_all add: demo_pool_def)
  moreover have "pool_step s1 s2"
    unfolding s2_def
    by (intro step_close Close_first) (simp_all add: s1_def demo_pool_def make_chan_def chan_close_def q_def)
  moreover have "pool_step s2 s3"
    unfolding s3_def
    by (intro step_worker Worker_exit) (simp_all add: s1_def s2_def demo_pool_def chan_recv_def q_def)
  moreover have "pool_step s3 s4"
    unfolding s4_def by (intro step_close Close_drained) (simp_all add: s1_def s2_def s3_def demo_pool_def)
  moreover have "s4 = demo_closed" by (simp add: demo_closed_def defs)
  ultimately show ?thesis
    by (metis (no_types) rtranclp.rtrancl_into_rtrancl rtranclp.rtrancl_refl)
qed

theorem Close_drains_witness:
  "closes demo_closed 0 = CReturned None \<and> mset (finished demo_closed) = mset (admitted demo_closed)"
proof -
  have "closes demo_closed 0 = CReturned None" by (simp add: demo_closed_def)
  then show ?thesis using Close_drains [OF demo_pool_start demo_closed_reachable, of 0] by (simp add: drained_def)
qed

text \<open>
  The context of \<open>Close\<close> does not bound its wait for the lock: while every worker is busy, the
  queue full and a blocking \<open>Submit\<close> waiting with a context that does not end, a \<open>Close\<close> call stays
  before its critical section and the execution context is not canceled, whatever else happens and
  even if the context of \<open>Close\<close> has ended, until a worker finishes its task. A task that only returns
  when its context is canceled is therefore never stopped.
\<close>

theorem Close_blocked_by_Submit:
  assumes "pool_start n q s0" and "pool_step\<^sup>*\<^sup>* s0 s" and "blocked tk c x s"
    and "(\<lambda>u v. pool_step u v \<and> \<not> worker_step u v)\<^sup>*\<^sup>* s t"
  shows "blocked tk c x t \<and> closes t c = CWaitLock x \<and> hard_stopped (pool t) = hard_stopped (pool s)"
proof -
  from assms(4) have "control_inv t \<and> blocked tk c x t \<and> hard_stopped (pool t) = hard_stopped (pool s) \<and> tasks_inv n q t"
  proof (induction rule: rtranclp_induct)
    case base
    then show ?case using pool_steps.inv_reachable [OF assms(1,2)] assms(3) by simp
  next
    case (step u v)
    then show ?case using blocked_step [of u v tk c x] pool_step_inv [of u v n q] by simp
  qed
  then show ?thesis by (simp add: blocked_def)
qed

theorem Close_blocked_by_Submit_witness:
  "blocked 1 0 1 demo_blocked \<and> ctx_done demo_blocked 1 = Some DeadlineExceeded \<and>
   closes demo_blocked 0 = CWaitLock 1 \<and> \<not> hard_stopped (pool demo_blocked)"
proof -
  have b: "blocked 1 0 1 demo_blocked"
    by (simp add: blocked_def demo_blocked_def demo_pool_def make_chan_def)
  have "closes demo_blocked 0 = CWaitLock 1"
    using Close_blocked_by_Submit [OF demo_pool_start demo_blocked_reachable b rtranclp.rtrancl_refl] by simp
  then show ?thesis using b by (simp add: demo_blocked_def demo_pool_def)
qed

section \<open>A task that ends its goroutine\<close>

text \<open>
  \<open>runtime.Goexit\<close> inside a task (a test helper's \<open>FailNow\<close>, for instance) unwinds the worker: its deferred
  \<open>Done\<close> runs, the loop over the queue does not go on, and no panic is there to recover.
\<close>

inductive goexit_step :: "'tk pool_sys \<Rightarrow> 'tk pool_sys \<Rightarrow> bool" where
  ordinary: "pool_step s t \<Longrightarrow> goexit_step s t"
| Worker_goexit: "crashed s = None \<Longrightarrow> w < length (goroutines s) \<Longrightarrow> goroutines s ! w = WRunning tk \<Longrightarrow>
    goexit_step s (s\<lparr>goroutines := (goroutines s)[w := WExited], pool := (pool s)\<lparr>workers := workers (pool s) - 1\<rparr>\<rparr>)"

lemma goexit_of_runs: "pool_step\<^sup>*\<^sup>* s t \<Longrightarrow> goexit_step\<^sup>*\<^sup>* s t"
  by (induction rule: rtranclp_induct) (auto intro: ordinary rtranclp.rtrancl_into_rtrancl)

text \<open>
  The only worker of a pool with one queue slot: task 0 runs, task 1 waits behind it. The states differ in
  the queue, the calls, the worker and the admitted and started tasks.
\<close>

definition demo_at :: "nat list \<Rightarrow> bool \<Rightarrow> (nat \<Rightarrow> submit) \<Rightarrow> close_call \<Rightarrow> nat worker \<Rightarrow> nat list \<Rightarrow> nat list \<Rightarrow> bool \<Rightarrow> nat pool_sys" where
  "demo_at waiting cl subm c g adm st hard =
     \<lparr>pool = \<lparr>queue = \<lparr>buf = waiting, cap = 1, chan_closed = cl\<rparr>, nonBlock = False, onPanic = None, hard_stopped = hard, closed = cl,
        workers = (if g = WExited then 0 else 1)\<rparr>, goroutines = [g], submits = subm, closes = (\<lambda>_. CNotCalled)(0 := c),
      ctx_done = (\<lambda>_. None), crashed = None, admitted = adm, started = st, finished = []\<rparr>"

definition demo_queue :: "nat pool_sys" where
  "demo_queue = demo_at [] False (\<lambda>_. SNotCalled) CNotCalled WIdle [] [] False"

lemma demo_queue_start: "pool_start 1 1 demo_queue"
  unfolding pool_start_def
  by (rule exI [of _ "[]"]) (simp add: demo_queue_def demo_at_def pool_New_def make_chan_def fun_upd_idem_iff)

lemma demo_at_submit: "subm tk = SNotCalled \<Longrightarrow>
    pool_step\<^sup>*\<^sup>* (demo_at w False subm CNotCalled g adm st h) (demo_at w False (subm(tk := SSelect 0)) CNotCalled g adm st h)"
  using demo_submit [of "demo_at w False subm CNotCalled g adm st h" tk] by (simp add: demo_at_def)

text \<open>
  Then \<open>Close\<close> does not drain: the last worker ends with task 0, the wait group is at zero, and \<open>Close\<close>
  returns nil although the accepted task 1 is still in the queue and no worker is left to run it.
\<close>

lemma Goexit_loses_tasks:
  "\<exists>s. goexit_step\<^sup>*\<^sup>* demo_queue s \<and> closes s 0 = CReturned None \<and> submits s 1 = SReturned None \<and>
     started s = [0] \<and> finished s = [] \<and> buf (queue (pool s)) = [1] \<and> (\<forall>g \<in> set (goroutines s). g = WExited)"
proof -
  let ?none = "\<lambda>_ :: nat. SNotCalled"
  let ?f = "?none(0 := SReturned None)" and ?g = "?none(0 := SReturned None, 1 := SReturned None)"
  let ?s1 = "demo_at [] False (?none(0 := SSelect 0)) CNotCalled WIdle [] [] False"
  let ?s2 = "demo_at [] False ?f CNotCalled (WRunning 0) [0] [0] False"
  let ?s3 = "demo_at [] False (?f(1 := SSelect 0)) CNotCalled (WRunning 0) [0] [0] False"
  let ?s4 = "demo_at [1] False ?g CNotCalled (WRunning 0) [0, 1] [0] False"
  let ?s5 = "demo_at [1] False ?g CNotCalled WExited [0, 1] [0] False"
  let ?s6 = "demo_at [1] False ?g (CWaitLock 0) WExited [0, 1] [0] False"
  let ?s7 = "demo_at [1] True ?g (CWaiting 0) WExited [0, 1] [0] False"
  let ?s8 = "demo_at [1] True ?g (CReturned None) WExited [0, 1] [0] True"
  have "pool_step\<^sup>*\<^sup>* demo_queue ?s1" unfolding demo_queue_def by (rule demo_at_submit) simp
  moreover have "pool_step ?s1 ?s2"
    using step_submit [OF _ Submit_handoff [of ?s1 0 0 0]] by (simp add: demo_at_def)
  moreover have "pool_step\<^sup>*\<^sup>* ?s2 ?s3" by (rule demo_at_submit) simp
  moreover have "pool_step ?s3 ?s4"
    using step_submit [OF _ Submit_send [of ?s3 1 0 "\<lparr>buf = [1], cap = 1, chan_closed = False\<rparr>"]]
    by (simp add: demo_at_def chan_send_def)
  ultimately have a: "pool_step\<^sup>*\<^sup>* demo_queue ?s4" by (meson rtranclp.rtrancl_into_rtrancl rtranclp_trans)
  have b: "goexit_step ?s4 ?s5" using Worker_goexit [of ?s4 0 0] by (simp add: demo_at_def)
  have "pool_step ?s5 ?s6" using step_close [OF _ Close_call [of ?s5 0 0]] by (simp add: demo_at_def)
  moreover have "pool_step ?s6 ?s7"
    using step_close [OF _ Close_first [of ?s6 0 0 "\<lparr>buf = [1], cap = 1, chan_closed = True\<rparr>"]]
    by (simp add: demo_at_def chan_close_def)
  moreover have "pool_step ?s7 ?s8" using step_close [OF _ Close_drained [of ?s7 0 0]] by (simp add: demo_at_def)
  ultimately have "pool_step\<^sup>*\<^sup>* ?s5 ?s8" by (meson rtranclp.rtrancl_into_rtrancl rtranclp.rtrancl_refl)
  then have "goexit_step\<^sup>*\<^sup>* demo_queue ?s8"
    using goexit_of_runs [OF a] b goexit_of_runs [of ?s5 ?s8] by (meson rtranclp.rtrancl_into_rtrancl rtranclp_trans)
  then show ?thesis by (intro exI [of _ ?s8]) (simp add: demo_at_def)
qed

end
