(* ===== verification/PoolSpec.thy ===== *)
theory PoolSpec
  imports WorkerPool
begin

text \<open>
  What package \<open>workerpool\<close> promises, as an abstract machine without locks, channels or goroutines, and
  that the pool refines it: a bounded first-in first-out executor. Tasks are accepted once, while the
  executor is open and has room; at most \<open>n\<close> are active; waiting tasks become active in the order in
  which they were accepted; after it is shut only waiting and active tasks move.
\<close>

section \<open>The executor\<close>

record 'tk executor =
  waiting :: "'tk list"
  active :: "'tk multiset"
  completed :: "'tk multiset"
  shut :: bool

definition known :: "'tk executor \<Rightarrow> 'tk multiset" where
  "known e = mset (waiting e) + active e + completed e"

inductive executor_step :: "nat \<Rightarrow> nat \<Rightarrow> 'tk executor \<Rightarrow> 'tk executor \<Rightarrow> bool" for n q where
  accept: "\<not> shut e \<Longrightarrow> tk \<notin># known e \<Longrightarrow> length (waiting e) < q \<Longrightarrow>
    executor_step n q e (e\<lparr>waiting := waiting e @ [tk]\<rparr>)"
| accept_begin: "\<not> shut e \<Longrightarrow> tk \<notin># known e \<Longrightarrow> waiting e = [] \<Longrightarrow> size (active e) < n \<Longrightarrow>
    executor_step n q e (e\<lparr>active := add_mset tk (active e)\<rparr>)"
| begin_next: "waiting e = tk # tks \<Longrightarrow> size (active e) < n \<Longrightarrow>
    executor_step n q e (e\<lparr>waiting := tks, active := add_mset tk (active e)\<rparr>)"
| complete: "active e = add_mset tk a \<Longrightarrow>
    executor_step n q e (e\<lparr>active := a, completed := add_mset tk (completed e)\<rparr>)"
| shut_down: "\<not> shut e \<Longrightarrow> executor_step n q e (e\<lparr>shut := True\<rparr>)"

definition executor_start :: "'tk executor" where
  "executor_start = \<lparr>waiting = [], active = {#}, completed = {#}, shut = False\<rparr>"

text \<open>What the machine keeps: no task twice, and the two bounds.\<close>

definition executor_inv :: "nat \<Rightarrow> nat \<Rightarrow> 'tk executor \<Rightarrow> bool" where
  "executor_inv n q e \<longleftrightarrow> (\<forall>tk. count (known e) tk \<le> 1) \<and> size (active e) \<le> n \<and> length (waiting e) \<le> q"

lemma executor_step_inv: "executor_step n q e f \<Longrightarrow> executor_inv n q e \<Longrightarrow> executor_inv n q f"
  by (induction rule: executor_step.induct)
    (auto simp: executor_inv_def known_def not_in_iff)

interpretation executor: step_invariant "\<lambda>e. e = executor_start" "executor_step n q" "executor_inv n q" for n q
  by unfold_locales (simp add: executor_start_def executor_inv_def known_def, rule executor_step_inv)

text \<open>Once shut it knows the tasks it knows; before and after, a task once known stays known.\<close>

lemma executor_shut_step:
  "executor_step n q e f \<Longrightarrow> known e \<subseteq># known f \<and> completed e \<subseteq># completed f \<and> (shut e \<longrightarrow> shut f \<and> known f = known e)"
  by (induction rule: executor_step.induct) (auto simp: known_def)

lemma executor_shut_steps:
  "(executor_step n q)\<^sup>*\<^sup>* e f \<Longrightarrow> known e \<subseteq># known f \<and> completed e \<subseteq># completed f \<and> (shut e \<longrightarrow> shut f \<and> known f = known e)"
proof (induction rule: rtranclp_induct)
  case (step f g)
  then show ?case using executor_shut_step [OF step(2)] by (auto intro: subset_mset.trans)
qed simp

section \<open>The pool as an executor\<close>

definition executor_of :: "'tk pool_sys \<Rightarrow> 'tk executor" where
  "executor_of s = \<lparr>waiting = buf (queue (pool s)), active = running (goroutines s),
     completed = mset (finished s), shut = closed (pool s)\<rparr>"

lemma known_executor_of: "tasks_inv n q s \<Longrightarrow> known (executor_of s) = mset (admitted s)"
proof -
  assume i: "tasks_inv n q s"
  then have "mset (admitted s) = mset (started s) + mset (buf (queue (pool s)))"
    by (metis mset_append tasks_inv_def)
  then show ?thesis using i by (simp add: known_def executor_of_def tasks_inv_def)
qed

lemma accepted_iff: "tasks_inv n q s \<Longrightarrow> tk \<in># known (executor_of s) \<longleftrightarrow> submits s tk = SReturned None"
  by (simp add: known_executor_of) (simp add: tasks_inv_def)

lemma running_below: "w < length gs \<Longrightarrow> gs ! w = WIdle \<Longrightarrow> size (running gs) < length gs"
  using size_running [of "gs[w := WRunning undefined]"] by simp

lemma selecting_is_new: "tasks_inv n q s \<Longrightarrow> submits s tk = SSelect x \<Longrightarrow> tk \<notin># known (executor_of s)"
  by (simp add: accepted_iff)

lemma submit_simulated:
  assumes "submit_step s t" and "tasks_inv n q s" and "control_inv s"
  shows "executor_of t = executor_of s \<or> executor_step (nat n) (nat q) (executor_of s) (executor_of t)"
  using assms(1)
proof cases
  case (Submit_send tk x c)
  have "executor_of t = (executor_of s)\<lparr>waiting := waiting (executor_of s) @ [tk]\<rparr>"
    using Submit_send by (auto simp: executor_of_def chan_simps)
  moreover have "\<not> shut (executor_of s)" "length (waiting (executor_of s)) < nat q"
    using Submit_send assms(2,3) by (auto simp: executor_of_def chan_simps tasks_inv_def control_inv_def)
  ultimately show ?thesis
    using executor_step.accept selecting_is_new [OF assms(2) Submit_send(2)] by metis
next
  case (Submit_handoff tk x w)
  have "executor_of t = (executor_of s)\<lparr>active := add_mset tk (active (executor_of s))\<rparr>"
    using Submit_handoff by (simp add: executor_of_def)
  moreover have "\<not> shut (executor_of s)" "waiting (executor_of s) = []" "size (active (executor_of s)) < nat n"
    using Submit_handoff assms(2,3) running_below [OF Submit_handoff(5,6)]
    by (auto simp: executor_of_def tasks_inv_def control_inv_def)
  ultimately show ?thesis
    using executor_step.accept_begin selecting_is_new [OF assms(2) Submit_handoff(2)] by metis
qed (simp_all add: executor_of_def)

lemma worker_simulated:
  assumes "worker_step s t" and "tasks_inv n q s"
  shows "executor_of t = executor_of s \<or> executor_step (nat n) (nat q) (executor_of s) (executor_of t)"
  using assms(1)
proof cases
  case (Worker_take w tk c)
  obtain tks where b: "buf (queue (pool s)) = tk # tks" "c = (queue (pool s))\<lparr>buf := tks\<rparr>"
    using Worker_take by (auto simp: chan_simps)
  have "executor_of t = (executor_of s)\<lparr>waiting := tks, active := add_mset tk (active (executor_of s))\<rparr>"
    using Worker_take b by (simp add: executor_of_def)
  moreover have "waiting (executor_of s) = tk # tks" "size (active (executor_of s)) < nat n"
    using b running_below [OF Worker_take(2,3)] assms(2) by (simp_all add: executor_of_def tasks_inv_def)
  ultimately show ?thesis using executor_step.begin_next by metis
next
  case (Worker_finish w tk r)
  have "active (executor_of s) = add_mset tk (running ((goroutines s)[w := WIdle]))"
    using Worker_finish by (simp add: executor_of_def)
  moreover have "executor_of t = (executor_of s)\<lparr>active := running ((goroutines s)[w := WIdle]),
      completed := add_mset tk (completed (executor_of s))\<rparr>"
    using Worker_finish by (simp add: executor_of_def)
  ultimately show ?thesis using executor_step.complete by metis
qed (auto simp: executor_of_def chan_simps)

lemma close_simulated: "close_step s t \<Longrightarrow>
    executor_of t = executor_of s \<or> executor_step (nat n) (nat q) (executor_of s) (executor_of t)"
proof (induction rule: close_step.induct)
  case (Close_first s c x ch)
  then show ?case
    using executor_step.shut_down [of "executor_of s" "nat n" "nat q"] by (auto simp: executor_of_def chan_simps)
qed (simp_all add: executor_of_def)

interpretation pool_executor: step_simulation "pool_start n q" pool_step "\<lambda>s. tasks_inv n q s \<and> control_inv s"
  "executor_step (nat n) (nat q)" executor_of for n q
proof unfold_locales
  fix s t :: "'tk pool_sys" assume s: "pool_step s t" "tasks_inv n q s \<and> control_inv s"
  from s(1) show "executor_of t = executor_of s \<or> executor_step (nat n) (nat q) (executor_of s) (executor_of t)"
    by cases (use s(2) submit_simulated worker_simulated close_simulated in \<open>blast | simp add: executor_of_def\<close>)+
qed

lemma executor_of_start: "pool_start n q s \<Longrightarrow> executor_of s = executor_start"
proof -
  assume a: "pool_start n q s"
  then have i: "tasks_inv n q s" "admitted s = []" "\<not> closed (pool s)"
    using pool_start_inv [OF a] pool_start_fresh [OF a] by (auto simp: pool_start_def)
  then have "known (executor_of s) = {#}" using known_executor_of by fastforce
  then show ?thesis using i(3) by (simp add: executor_of_def executor_start_def known_def)
qed

text \<open>
  C17. The pool refines a bounded first-in first-out executor: with the queue as the waiting tasks, the
  tasks in the hands of workers as the active ones and the closed flag as the shutdown, every run of the
  concurrent pool from \<open>New\<close> is a run of the executor with the pool's number of workers and queue size;
  so is every continuation, which keeps what was accepted and completed and accepts nothing more once
  the pool is closed. What the executor knows are exactly the tasks whose \<open>Submit\<close> returned nil, none
  twice, at most \<open>n\<close> active and at most \<open>q\<close> waiting.
\<close>

theorem pool_refines_executor:
  assumes "pool_start n q s0" and "pool_step\<^sup>*\<^sup>* s0 s" and "pool_step\<^sup>*\<^sup>* s t"
  shows "(executor_step (nat n) (nat q))\<^sup>*\<^sup>* executor_start (executor_of s) \<and>
    (executor_step (nat n) (nat q))\<^sup>*\<^sup>* (executor_of s) (executor_of t) \<and>
    executor_inv (nat n) (nat q) (executor_of s) \<and>
    (\<forall>tk. tk \<in># known (executor_of s) \<longleftrightarrow> submits s tk = SReturned None) \<and>
    known (executor_of s) \<subseteq># known (executor_of t) \<and> completed (executor_of s) \<subseteq># completed (executor_of t) \<and>
    (closed (pool s) \<longrightarrow> shut (executor_of t) \<and> known (executor_of t) = known (executor_of s))"
proof -
  have r: "(executor_step (nat n) (nat q))\<^sup>*\<^sup>* executor_start (executor_of s)"
    using pool_executor.sim_reachable [OF assms(1,2)] executor_of_start [OF assms(1)] by simp
  moreover have c: "(executor_step (nat n) (nat q))\<^sup>*\<^sup>* (executor_of s) (executor_of t)"
    using pool_executor.sim_steps [OF assms(3)] pool_steps.inv_reachable [OF assms(1,2)] .
  moreover have "\<forall>tk. tk \<in># known (executor_of s) \<longleftrightarrow> submits s tk = SReturned None"
    using pool_steps.inv_reachable [OF assms(1,2)] accepted_iff [of n q s] by simp
  moreover have "shut (executor_of s) = closed (pool s)" by (simp add: executor_of_def)
  ultimately show ?thesis using executor.inv_reachable [OF refl r] executor_shut_steps [OF c] by simp
qed

theorem pool_refines_executor_witness:
  "(executor_step 1 0)\<^sup>*\<^sup>* executor_start (executor_of demo_blocked) \<and> active (executor_of demo_blocked) = {#0#} \<and>
   0 \<in># known (executor_of demo_blocked) \<and> 1 \<notin># known (executor_of demo_blocked)"
proof -
  have "active (executor_of demo_blocked) = {#0#}" by (simp add: executor_of_def demo_blocked_def running_def)
  then show ?thesis
    using pool_refines_executor [OF demo_pool_start demo_blocked_reachable rtranclp.rtrancl_refl]
    by (simp add: demo_blocked_def)
qed

end
