(* ===== verification/PubSub.thy ===== *)
theory PubSub
  imports GoChan "HOL-Library.Sublist"
begin

text \<open>
  The publish-subscribe broker of \<open>pkg/pubsub\<close>. Subscribers are objects of a store indexed by
  number. Subscribing, removing and closing run under the write lock and are single operations; a
  publisher holds the read lock and every channel operation of its fan-out is a step of its own, so
  that publishers and consumers interleave.
\<close>

section \<open>Data\<close>

datatype SlowSubscriberPolicy = DropNewest | DropOldest | Disconnect

datatype publish_err = ErrSlowSubscriber | ErrClosed | PublishCtx ctx_err

text \<open>
  A subscriber: its channel and filter (nil is \<open>None\<close>), the topic its watcher closes over, and
  whether the watcher on its context is still registered.
\<close>

record 'm subscriber =
  ch :: "'m chan"
  filter_fn :: "('m \<Rightarrow> bool) option"
  topic_of :: string
  watching :: bool

record 'm broker =
  bufSize :: int
  onDrop :: bool
  policy :: SlowSubscriberPolicy
  subs :: "string \<rightharpoonup> nat list"
  closed :: bool
  subscribers :: "nat \<Rightarrow> 'm subscriber"
  next_id :: nat

section \<open>Construction\<close>

definition WithSubscriberBuffer :: "int \<Rightarrow> ('m broker \<Rightarrow> 'm broker) go" where
  "WithSubscriberBuffer n =
     (if n < 0 then Panic ''pubsub: negative subscriber buffer'' else Return (\<lambda>b. b\<lparr>bufSize := n\<rparr>))"

definition WithDropHandler :: "bool \<Rightarrow> ('m broker \<Rightarrow> 'm broker) go" where
  "WithDropHandler h =
     (if \<not> h then Panic ''pubsub: nil drop handler'' else Return (\<lambda>b. b\<lparr>onDrop := True\<rparr>))"

text \<open>The policy option takes any \<open>int\<close>; the constants are its codes.\<close>

fun policy_of_int :: "int \<Rightarrow> SlowSubscriberPolicy option" where
  "policy_of_int n = (if n = 0 then Some DropNewest else if n = 1 then Some DropOldest
     else if n = 2 then Some Disconnect else None)"

definition WithSlowSubscriberPolicy :: "int \<Rightarrow> ('m broker \<Rightarrow> 'm broker) go" where
  "WithSlowSubscriberPolicy n =
     (case policy_of_int n of None \<Rightarrow> Panic ''pubsub: unknown slow-subscriber policy''
      | Some p \<Rightarrow> Return (\<lambda>b. b\<lparr>policy := p\<rparr>))"

definition NewBroker :: "('m broker \<Rightarrow> 'm broker) list \<Rightarrow> 'm broker" where
  "NewBroker opts = apply_opts opts
     \<lparr>bufSize = 16, onDrop = False, policy = DropNewest, subs = Map.empty, closed = False,
      subscribers = (\<lambda>_. \<lparr>ch = make_chan 0, filter_fn = None, topic_of = [], watching = False\<rparr>), next_id = 0\<rparr>"

section \<open>Operations under the write lock\<close>

definition set_sub :: "nat \<Rightarrow> ('m subscriber \<Rightarrow> 'm subscriber) \<Rightarrow> 'm broker \<Rightarrow> 'm broker" where
  "set_sub i f b = b\<lparr>subscribers := (subscribers b)(i := f (subscribers b i))\<rparr>"

definition close_sub :: "nat \<Rightarrow> 'm broker \<Rightarrow> 'm broker go" where
  "close_sub i b =
     (case chan_close (ch (subscribers b i)) of
        Panic m \<Rightarrow> Panic m
      | Return c \<Rightarrow> Return (set_sub i (\<lambda>sub. sub\<lparr>watching := False, ch := c\<rparr>) b))"

text \<open>The set of a topic, empty when the topic has no entry.\<close>

definition registered :: "'m broker \<Rightarrow> string \<Rightarrow> nat list" where
  "registered b tp = (case subs b tp of None \<Rightarrow> [] | Some ids \<Rightarrow> ids)"

text \<open>\<open>Subscribe\<close> returns the subscriber whose channel the caller receives from.\<close>

definition Subscribe :: "bool \<Rightarrow> string \<Rightarrow> ('m \<Rightarrow> bool) option \<Rightarrow> 'm broker \<Rightarrow> 'm broker \<times> nat" where
  "Subscribe ctxDone tp f b =
     (let i = next_id b;
          c = make_chan (nat (bufSize b));
          b' = b\<lparr>next_id := Suc i\<rparr>
      in if closed b \<or> ctxDone
         then (set_sub i (\<lambda>_. \<lparr>ch = c\<lparr>chan_closed := True\<rparr>, filter_fn = None, topic_of = tp, watching = False\<rparr>) b', i)
         else let set = registered b tp
              in (set_sub i (\<lambda>_. \<lparr>ch = c, filter_fn = f, topic_of = tp, watching = True\<rparr>)
                    (b'\<lparr>subs := (subs b)(tp \<mapsto> set @ [i])\<rparr>), i))"

definition broker_remove :: "string \<Rightarrow> nat \<Rightarrow> 'm broker \<Rightarrow> 'm broker go" where
  "broker_remove tp i b =
     (if i \<notin> set (registered b tp) then Return b
      else let ids = removeAll i (registered b tp)
           in close_sub i (b\<lparr>subs := (subs b)(tp := if ids = [] then None else Some ids)\<rparr>))"

text \<open>\<open>Close\<close> visits every registered subscription once.\<close>

definition all_registered :: "'m broker \<Rightarrow> nat list" where
  "all_registered b = filter (\<lambda>i. i \<in> set (registered b (topic_of (subscribers b i)))) [0..<next_id b]"

definition broker_Close :: "'m broker \<Rightarrow> 'm broker go" where
  "broker_Close b =
     (if closed b then Return b
      else case fold (\<lambda>i r. go_bind r (close_sub i)) (all_registered b) (Return (b\<lparr>closed := True\<rparr>)) of
        Panic m \<Rightarrow> Panic m
      | Return b' \<Rightarrow> Return (b'\<lparr>subs := Map.empty\<rparr>))"

section \<open>Publishing\<close>

text \<open>
  The program points of a \<open>Publish\<close> call: waiting for the read lock; in the fan-out loop with the
  subscriptions still to visit, the \<open>lost\<close> flag and the \<open>disconnect\<close> list; inside \<open>deliver\<close> after the
  first failed send and after the eviction; and removing slow subscriptions after the unlock.
\<close>

datatype 'm publish =
    PNotCalled
  | PWaitLock string 'm
  | PLoop string 'm "nat list" bool "nat list"
  | PEvict string 'm nat "nat list" bool "nat list"
  | PRetry string 'm nat bool "nat list" bool "nat list"
  | PRemove bool string "nat list"
  | PReturned "publish_err option"

fun reading :: "'m publish \<Rightarrow> bool" where
  "reading (PLoop tp m ids l d) = True"
| "reading (PEvict tp m i ids l d) = True"
| "reading (PRetry tp m i e ids l d) = True"
| "reading _ = False"

text \<open>
  The system: broker, publish calls, watchers whose context has ended and whose callback is pending,
  the calls made to the drop handler, and logs that no rule reads: per subscription the messages
  offered to it, accepted by its channel and taken out of it (\<open>True\<close>: received, \<open>False\<close>: evicted), and
  the losses with their subscription and the number each publish caused.
\<close>

record 'm broker_sys =
  broker :: "'m broker"
  publishers :: "'m publish list"
  fired :: "nat set"
  handler_calls :: "(string \<times> 'm) list"
  panicked :: "string option"
  offered :: "nat \<Rightarrow> 'm list"
  accepted :: "nat \<Rightarrow> 'm list"
  taken :: "nat \<Rightarrow> (bool \<times> 'm) list"
  losses :: "(nat \<times> 'm) list"
  caused :: "nat \<Rightarrow> nat"

definition unlocked :: "'m broker_sys \<Rightarrow> bool" where
  "unlocked s \<longleftrightarrow> (\<forall>p \<in> set (publishers s). \<not> reading p)"

definition chan_of :: "'m broker_sys \<Rightarrow> nat \<Rightarrow> 'm chan" where
  "chan_of s i = ch (subscribers (broker s) i)"

definition set_pub :: "nat \<Rightarrow> 'm publish \<Rightarrow> 'm broker_sys \<Rightarrow> 'm broker_sys" where
  "set_pub p x s = s\<lparr>publishers := (publishers s)[p := x]\<rparr>"

definition set_chan :: "nat \<Rightarrow> 'm chan \<Rightarrow> 'm broker_sys \<Rightarrow> 'm broker_sys" where
  "set_chan i c s = s\<lparr>broker := set_sub i (\<lambda>sub. sub\<lparr>ch := c\<rparr>) (broker s)\<rparr>"

definition offer :: "nat \<Rightarrow> 'm \<Rightarrow> 'm broker_sys \<Rightarrow> 'm broker_sys" where
  "offer i m s = s\<lparr>offered := (offered s)(i := offered s i @ [m])\<rparr>"

definition accept :: "nat \<Rightarrow> 'm \<Rightarrow> 'm broker_sys \<Rightarrow> 'm broker_sys" where
  "accept i m s = s\<lparr>accepted := (accepted s)(i := accepted s i @ [m])\<rparr>"

definition take_out :: "nat \<Rightarrow> bool \<Rightarrow> 'm \<Rightarrow> 'm broker_sys \<Rightarrow> 'm broker_sys" where
  "take_out i r m s = s\<lparr>taken := (taken s)(i := taken s i @ [(r, m)])\<rparr>"

text \<open>\<open>reportDrop\<close>, for the loss of \<open>m\<close> at subscription \<open>i\<close> in publish \<open>p\<close>.\<close>

definition reportDrop :: "nat \<Rightarrow> string \<Rightarrow> nat \<Rightarrow> 'm \<Rightarrow> 'm broker_sys \<Rightarrow> 'm broker_sys" where
  "reportDrop p tp i m s =
     s\<lparr>handler_calls := (if onDrop (broker s) then handler_calls s @ [(tp, m)] else handler_calls s),
       losses := losses s @ [(i, m)], caused := (caused s)(p := Suc (caused s p))\<rparr>"

definition accepts :: "'m broker_sys \<Rightarrow> nat \<Rightarrow> 'm \<Rightarrow> bool" where
  "accepts s i m = (case filter_fn (subscribers (broker s) i) of None \<Rightarrow> True | Some f \<Rightarrow> f m)"

definition at_pub :: "'m broker_sys \<Rightarrow> nat \<Rightarrow> 'm publish \<Rightarrow> bool" where
  "at_pub s p x \<longleftrightarrow> p < length (publishers s) \<and> publishers s ! p = x"

text \<open>
  \<open>Publish\<close> and \<open>deliver\<close>. A send succeeds into free buffer space or, on an empty buffer, by hand-off to
  a waiting receiver; the default branch of its select is taken when the buffer is full.
\<close>

inductive publish_step :: "'m broker_sys \<Rightarrow> 'm broker_sys \<Rightarrow> bool" where
  Publish_ctx: "at_pub s p PNotCalled \<Longrightarrow> publish_step s (set_pub p (PReturned (Some (PublishCtx e))) s)"
| Publish_call: "at_pub s p PNotCalled \<Longrightarrow> publish_step s (set_pub p (PWaitLock tp m) s)"
| Publish_closed: "at_pub s p (PWaitLock tp m) \<Longrightarrow> closed (broker s) \<Longrightarrow>
    publish_step s (set_pub p (PReturned (Some ErrClosed)) s)"
| Publish_lock: "at_pub s p (PWaitLock tp m) \<Longrightarrow> \<not> closed (broker s) \<Longrightarrow>
    set ids = set (registered (broker s) tp) \<Longrightarrow> distinct ids \<Longrightarrow>
    publish_step s (set_pub p (PLoop tp m ids False []) s)"
| Publish_skip: "at_pub s p (PLoop tp m (i # ids) l d) \<Longrightarrow> \<not> accepts s i m \<Longrightarrow>
    publish_step s (set_pub p (PLoop tp m ids l d) s)"
| Deliver_send: "at_pub s p (PLoop tp m (i # ids) l d) \<Longrightarrow> accepts s i m \<Longrightarrow>
    chan_send (chan_of s i) m = Some (Return c) \<Longrightarrow>
    publish_step s (set_pub p (PLoop tp m ids l d) (set_chan i c (accept i m (offer i m s))))"
| Deliver_handoff: "at_pub s p (PLoop tp m (i # ids) l d) \<Longrightarrow> accepts s i m \<Longrightarrow>
    \<not> chan_closed (chan_of s i) \<Longrightarrow> buf (chan_of s i) = [] \<Longrightarrow>
    publish_step s (set_pub p (PLoop tp m ids l d) (take_out i True m (accept i m (offer i m s))))"
| Deliver_panic: "at_pub s p (PLoop tp m (i # ids) l d) \<Longrightarrow> accepts s i m \<Longrightarrow>
    chan_send (chan_of s i) m = Some (Panic e) \<Longrightarrow> publish_step s (s\<lparr>panicked := Some e\<rparr>)"
| Deliver_drop: "at_pub s p (PLoop tp m (i # ids) l d) \<Longrightarrow> accepts s i m \<Longrightarrow>
    chan_send (chan_of s i) m = None \<Longrightarrow> policy (broker s) \<noteq> DropOldest \<Longrightarrow>
    publish_step s (set_pub p (PLoop tp m ids True (if policy (broker s) = Disconnect then d @ [i] else d))
      (reportDrop p tp i m (offer i m s)))"
| Deliver_full: "at_pub s p (PLoop tp m (i # ids) l d) \<Longrightarrow> accepts s i m \<Longrightarrow>
    chan_send (chan_of s i) m = None \<Longrightarrow> policy (broker s) = DropOldest \<Longrightarrow>
    publish_step s (set_pub p (PEvict tp m i ids l d) (offer i m s))"
| Evict_oldest: "at_pub s p (PEvict tp m i ids l d) \<Longrightarrow> chan_recv (chan_of s i) = Some (Some m', c) \<Longrightarrow>
    publish_step s (set_pub p (PRetry tp m i True ids l d) (set_chan i c (take_out i False m' (reportDrop p tp i m' s))))"
| Evict_none: "at_pub s p (PEvict tp m i ids l d) \<Longrightarrow> chan_recv (chan_of s i) = None \<Longrightarrow>
    publish_step s (set_pub p (PRetry tp m i False ids l d) s)"
| Evict_closed: "at_pub s p (PEvict tp m i ids l d) \<Longrightarrow> chan_recv (chan_of s i) = Some (None, c) \<Longrightarrow>
    publish_step s (s\<lparr>panicked := Some ''eviction from a closed channel''\<rparr>)"
| Retry_send: "at_pub s p (PRetry tp m i e ids l d) \<Longrightarrow> chan_send (chan_of s i) m = Some (Return c) \<Longrightarrow>
    publish_step s (set_pub p (PLoop tp m ids (l \<or> e) d) (set_chan i c (accept i m s)))"
| Retry_handoff: "at_pub s p (PRetry tp m i e ids l d) \<Longrightarrow> \<not> chan_closed (chan_of s i) \<Longrightarrow> buf (chan_of s i) = [] \<Longrightarrow>
    publish_step s (set_pub p (PLoop tp m ids (l \<or> e) d) (take_out i True m (accept i m s)))"
| Retry_panic: "at_pub s p (PRetry tp m i e ids l d) \<Longrightarrow> chan_send (chan_of s i) m = Some (Panic x) \<Longrightarrow>
    publish_step s (s\<lparr>panicked := Some x\<rparr>)"
| Retry_drop: "at_pub s p (PRetry tp m i e ids l d) \<Longrightarrow> chan_send (chan_of s i) m = None \<Longrightarrow>
    publish_step s (set_pub p (PLoop tp m ids True d) (reportDrop p tp i m s))"
| Publish_unlock: "at_pub s p (PLoop tp m [] l d) \<Longrightarrow> publish_step s (set_pub p (PRemove l tp d) s)"
| Publish_return: "at_pub s p (PRemove l tp []) \<Longrightarrow>
    publish_step s (set_pub p (PReturned (if l then Some ErrSlowSubscriber else None)) s)"

text \<open>The operations under the write lock, the watchers, and the consumers of the channels.\<close>

definition write_result :: "'m broker go \<Rightarrow> 'm broker_sys \<Rightarrow> 'm broker_sys" where
  "write_result r s = (case r of Return b \<Rightarrow> s\<lparr>broker := b\<rparr> | Panic e \<Rightarrow> s\<lparr>panicked := Some e\<rparr>)"

inductive registry_step :: "'m broker_sys \<Rightarrow> 'm broker_sys \<Rightarrow> bool" where
  Subscribe_step: "unlocked s \<Longrightarrow> registry_step s (s\<lparr>broker := fst (Subscribe ctxDone tp f (broker s))\<rparr>)"
| Disconnect_step: "unlocked s \<Longrightarrow> at_pub s p (PRemove l tp (i # d)) \<Longrightarrow>
    registry_step s (write_result (broker_remove tp i (broker s)) (set_pub p (PRemove l tp d) s))"
| Watch_fires: "watching (subscribers (broker s) i) \<Longrightarrow>
    registry_step s (s\<lparr>broker := set_sub i (\<lambda>sub. sub\<lparr>watching := False\<rparr>) (broker s), fired := insert i (fired s)\<rparr>)"
| Watch_removes: "unlocked s \<Longrightarrow> i \<in> fired s \<Longrightarrow>
    registry_step s (write_result (broker_remove (topic_of (subscribers (broker s) i)) i (broker s)) (s\<lparr>fired := fired s - {i}\<rparr>))"
| Close_step: "unlocked s \<Longrightarrow> registry_step s (write_result (broker_Close (broker s)) s)"

inductive broker_step :: "'m broker_sys \<Rightarrow> 'm broker_sys \<Rightarrow> bool" where
  step_publish: "panicked s = None \<Longrightarrow> publish_step s t \<Longrightarrow> broker_step s t"
| step_registry: "panicked s = None \<Longrightarrow> registry_step s t \<Longrightarrow> broker_step s t"
| step_consume: "panicked s = None \<Longrightarrow> chan_recv (chan_of s i) = Some (Some m, c) \<Longrightarrow>
    broker_step s (set_chan i c (take_out i True m s))"

definition broker_option :: "('m broker \<Rightarrow> 'm broker) \<Rightarrow> bool" where
  "broker_option opt \<longleftrightarrow> (\<exists>n. WithSubscriberBuffer n = Return opt) \<or> (\<exists>h. WithDropHandler h = Return opt) \<or>
     (\<exists>n. WithSlowSubscriberPolicy n = Return opt)"

definition broker_start :: "'m broker_sys \<Rightarrow> bool" where
  "broker_start s \<longleftrightarrow> (\<exists>opts n. (\<forall>opt \<in> set opts. broker_option opt) \<and>
     s = \<lparr>broker = NewBroker opts, publishers = replicate n PNotCalled, fired = {}, handler_calls = [],
          panicked = None, offered = (\<lambda>_. []), accepted = (\<lambda>_. []), taken = (\<lambda>_. []), losses = [], caused = (\<lambda>_. 0)\<rparr>)"

section \<open>The registry\<close>

definition registry_inv :: "'m broker \<Rightarrow> bool" where
  "registry_inv b \<longleftrightarrow> (\<forall>tp. distinct (registered b tp)) \<and>
     (\<forall>tp. \<forall>i \<in> set (registered b tp). i < next_id b \<and> topic_of (subscribers b i) = tp \<and>
        \<not> chan_closed (ch (subscribers b i))) \<and>
     (closed b \<longrightarrow> (\<forall>tp. registered b tp = [])) \<and>
     (\<forall>i \<ge> next_id b. buf (ch (subscribers b i)) = [])"

text \<open>What the operations under the write lock leave alone: buffered messages, topics, options.\<close>

definition kept :: "'m broker \<Rightarrow> 'm broker \<Rightarrow> bool" where
  "kept b b' \<longleftrightarrow> (\<forall>i. buf (ch (subscribers b' i)) = buf (ch (subscribers b i))) \<and>
     (\<forall>i < next_id b. topic_of (subscribers b' i) = topic_of (subscribers b i)) \<and>
     next_id b \<le> next_id b' \<and> onDrop b' = onDrop b \<and> policy b' = policy b"

lemma kept_refl [simp]: "kept b b"
  by (simp add: kept_def)

lemma kept_trans: "kept a b \<Longrightarrow> kept b c \<Longrightarrow> kept a c"
  by (auto simp: kept_def)

lemma registered_simps [simp]:
  "registered (set_sub i f b) = registered b"
  "registered (b\<lparr>next_id := n\<rparr>) = registered b"
  "registered (b\<lparr>closed := x\<rparr>) = registered b"
  by (auto simp: registered_def set_sub_def fun_eq_iff)

lemma registered_subs:
  "registered (b\<lparr>subs := (subs b')(tp := y)\<rparr>) tp' =
     (if tp' = tp then (case y of None \<Rightarrow> [] | Some ids \<Rightarrow> ids) else registered b' tp')"
  "registered (b\<lparr>subs := Map.empty\<rparr>) tp = []"
  by (auto simp: registered_def)

lemma set_sub_simps [simp]:
  "subscribers (set_sub i f b) = (subscribers b)(i := f (subscribers b i))"
  "next_id (set_sub i f b) = next_id b" "closed (set_sub i f b) = closed b" "subs (set_sub i f b) = subs b"
  "onDrop (set_sub i f b) = onDrop b" "policy (set_sub i f b) = policy b"
  by (simp_all add: set_sub_def)

lemma Subscribe_registry:
  assumes "registry_inv b"
  shows "registry_inv (fst (Subscribe ctxDone tp f b)) \<and> kept b (fst (Subscribe ctxDone tp f b))"
proof -
  have "next_id b \<notin> set (registered b tp)" for tp using assms by (force simp: registry_inv_def)
  then show ?thesis
    using assms
    by (auto simp: Subscribe_def registry_inv_def kept_def Let_def make_chan_def registered_subs
        less_Suc_eq split: if_splits)
qed

lemma close_sub_open: "\<not> chan_closed (ch (subscribers b i)) \<Longrightarrow>
    close_sub i b = Return (set_sub i (\<lambda>sub. sub\<lparr>watching := False, ch := (ch sub)\<lparr>chan_closed := True\<rparr>\<rparr>) b)"
  by (simp add: close_sub_def chan_close_def set_sub_def)

lemma remove_registry:
  assumes "registry_inv b"
  shows "\<exists>b'. broker_remove tp i b = Return b' \<and> registry_inv b' \<and> kept b b' \<and>
    (\<forall>tp'. set (registered b' tp') = set (registered b tp') - (if tp' = tp then {i} else {}))"
proof (cases "i \<in> set (registered b tp)")
  case True
  then have o: "\<not> chan_closed (ch (subscribers b i))" "topic_of (subscribers b i) = tp"
    using assms by (auto simp: registry_inv_def)
  have n: "i \<notin> set (registered b tp')" if "tp' \<noteq> tp" for tp' using assms o(2) that by (auto simp: registry_inv_def)
  have e: "removeAll i xs = [] \<Longrightarrow> x \<in> set xs \<Longrightarrow> x = i" for x and xs :: "nat list"
    by (auto simp: removeAll_filter_not_eq filter_empty_conv)
  show ?thesis
    using True o assms n e
    by (simp add: broker_remove_def close_sub_open Let_def registry_inv_def kept_def registered_subs
        distinct_removeAll) (auto split: if_splits)
qed (use assms in \<open>simp add: broker_remove_def\<close>)

lemma close_subs:
  assumes "distinct ids" and "\<forall>i \<in> set ids. \<not> chan_closed (ch (subscribers b i))"
  shows "\<exists>b'. fold (\<lambda>i r. go_bind r (close_sub i)) ids (Return b) = Return b' \<and> kept b b' \<and>
    registered b' = registered b \<and> next_id b' = next_id b \<and> closed b' = closed b \<and>
    (\<forall>i. chan_closed (ch (subscribers b' i)) \<longleftrightarrow> i \<in> set ids \<or> chan_closed (ch (subscribers b i)))"
  using assms
proof (induction ids arbitrary: b)
  case (Cons i ids)
  let ?b = "set_sub i (\<lambda>sub. sub\<lparr>watching := False, ch := (ch sub)\<lparr>chan_closed := True\<rparr>\<rparr>) b"
  have c: "close_sub i b = Return ?b" using Cons.prems by (simp add: close_sub_open)
  have k: "kept b ?b" by (simp add: kept_def)
  have d: "distinct ids" and p: "\<forall>j \<in> set ids. \<not> chan_closed (ch (subscribers ?b j))" using Cons.prems by auto
  from Cons.IH [OF d p]
  obtain b' where b': "fold (\<lambda>i r. go_bind r (close_sub i)) ids (Return ?b) = Return b'" "kept ?b b'"
    "registered b' = registered ?b" "next_id b' = next_id ?b" "closed b' = closed ?b"
    "\<forall>j. chan_closed (ch (subscribers b' j)) \<longleftrightarrow> j \<in> set ids \<or> chan_closed (ch (subscribers ?b j))"
    by blast
  then show ?case using kept_trans [OF k b'(2)] c by auto
qed simp

lemma Close_registry:
  assumes "registry_inv b"
  shows "\<exists>b'. broker_Close b = Return b' \<and> registry_inv b' \<and> kept b b' \<and> closed b' \<and>
    (\<forall>tp. registered b' tp = []) \<and> (\<forall>tp. \<forall>i \<in> set (registered b tp). chan_closed (ch (subscribers b' i)))"
proof (cases "closed b")
  case True
  then show ?thesis using assms by (auto simp: broker_Close_def registry_inv_def)
next
  case False
  have "\<forall>i \<in> set (all_registered b). \<not> chan_closed (ch (subscribers (b\<lparr>closed := True\<rparr>) i))"
    using assms by (auto simp: all_registered_def registry_inv_def)
  moreover have "distinct (all_registered b)" by (simp add: all_registered_def)
  ultimately obtain b' where b': "fold (\<lambda>i r. go_bind r (close_sub i)) (all_registered b) (Return (b\<lparr>closed := True\<rparr>)) = Return b'"
    "kept (b\<lparr>closed := True\<rparr>) b'" "next_id b' = next_id b" "closed b'"
    "\<forall>i. chan_closed (ch (subscribers b' i)) \<longleftrightarrow> i \<in> set (all_registered b) \<or> chan_closed (ch (subscribers b i))"
    using close_subs [of "all_registered b" "b\<lparr>closed := True\<rparr>"] by auto
  have "i \<in> set (registered b tp) \<Longrightarrow> i \<in> set (all_registered b)" for tp i
    using assms by (auto simp: all_registered_def registry_inv_def)
  then show ?thesis
    using b' False assms
    by (auto simp: broker_Close_def registry_inv_def kept_def registered_subs)
qed

section \<open>Invariants of the system\<close>

fun pub_ok :: "'m broker \<Rightarrow> 'm publish \<Rightarrow> bool" where
  "pub_ok b (PLoop tp m ids l d) \<longleftrightarrow> set ids \<subseteq> set (registered b tp)"
| "pub_ok b (PEvict tp m i ids l d) \<longleftrightarrow> set (i # ids) \<subseteq> set (registered b tp)"
| "pub_ok b (PRetry tp m i e ids l d) \<longleftrightarrow> set (i # ids) \<subseteq> set (registered b tp)"
| "pub_ok b _ \<longleftrightarrow> True"

fun pub_lost :: "'m publish \<Rightarrow> bool" where
  "pub_lost (PLoop tp m ids l d) = l"
| "pub_lost (PEvict tp m i ids l d) = l"
| "pub_lost (PRetry tp m i e ids l d) = (l \<or> e)"
| "pub_lost (PRemove l tp d) = l"
| "pub_lost (PReturned r) = (r = Some ErrSlowSubscriber)"
| "pub_lost _ = False"

text \<open>The message a publisher is delivering to subscription \<open>i\<close> right now.\<close>

fun in_hand :: "nat \<Rightarrow> 'm publish \<Rightarrow> 'm multiset" where
  "in_hand j (PEvict tp m i ids l d) = (if i = j then {#m#} else {#})"
| "in_hand j (PRetry tp m i e ids l d) = (if i = j then {#m#} else {#})"
| "in_hand j _ = {#}"

definition received :: "'m broker_sys \<Rightarrow> nat \<Rightarrow> 'm list" where
  "received s i = map snd (filter fst (taken s i))"

definition lost_at :: "'m broker_sys \<Rightarrow> nat \<Rightarrow> 'm list" where
  "lost_at s i = map snd (filter (\<lambda>x. fst x = i) (losses s))"

definition delivering :: "'m broker_sys \<Rightarrow> nat \<Rightarrow> 'm multiset" where
  "delivering s i = sum_list (map (in_hand i) (publishers s))"

definition control_inv :: "'m broker_sys \<Rightarrow> bool" where
  "control_inv s \<longleftrightarrow> panicked s = None \<and> registry_inv (broker s) \<and>
     (\<forall>x \<in> set (publishers s). pub_ok (broker s) x)"

definition flow_inv :: "'m broker_sys \<Rightarrow> bool" where
  "flow_inv s \<longleftrightarrow> (\<forall>i. accepted s i = map snd (taken s i) @ buf (chan_of s i)) \<and>
     (\<forall>i. mset (offered s i) = mset (received s i) + mset (buf (chan_of s i)) + mset (lost_at s i) + delivering s i)"

definition report_inv :: "'m broker_sys \<Rightarrow> bool" where
  "report_inv s \<longleftrightarrow> (\<forall>x \<in> set (losses s). fst x < next_id (broker s)) \<and>
     handler_calls s = (if onDrop (broker s)
       then map (\<lambda>(i, m). (topic_of (subscribers (broker s) i), m)) (losses s) else []) \<and>
     (\<forall>p < length (publishers s). pub_lost (publishers s ! p) \<longleftrightarrow> 0 < caused s p)"

lemmas sys_defs = set_pub_def set_chan_def offer_def accept_def take_out_def reportDrop_def chan_of_def

lemma set_chan_registry: "registry_inv b \<Longrightarrow> chan_closed c = chan_closed (ch (subscribers b i)) \<Longrightarrow>
    (i < next_id b \<or> buf c = []) \<Longrightarrow> registry_inv (set_sub i (\<lambda>sub. sub\<lparr>ch := c\<rparr>) b)"
  by (auto simp: registry_inv_def)

lemma pub_ok_set_sub [simp]: "pub_ok (set_sub i f b) x = pub_ok b x"
  by (cases x) auto

lemma control_logs [simp]:
  "control_inv (offer i m s) = control_inv s" "control_inv (accept i m s) = control_inv s"
  "control_inv (take_out i r m s) = control_inv s" "control_inv (reportDrop p tp i m s) = control_inv s"
  "broker (offer i m s) = broker s" "broker (accept i m s) = broker s"
  "broker (take_out i r m s) = broker s" "broker (reportDrop p tp i m s) = broker s"
  "chan_of (offer i m s) = chan_of s" "chan_of (accept i m s) = chan_of s"
  "chan_of (take_out i r m s) = chan_of s" "chan_of (reportDrop p tp i m s) = chan_of s"
  by (simp_all add: control_inv_def sys_defs fun_eq_iff)

lemma control_set_pub: "control_inv s \<Longrightarrow> pub_ok (broker s) x \<Longrightarrow> control_inv (set_pub p x s)"
  by (auto simp: control_inv_def set_pub_def dest!: in_set_updateD)

lemma control_set_chan: "control_inv s \<Longrightarrow> i < next_id (broker s) \<or> buf c = [] \<Longrightarrow>
    chan_closed c = chan_closed (chan_of s i) \<Longrightarrow> control_inv (set_chan i c s)"
  by (auto simp: control_inv_def set_chan_def chan_of_def intro: set_chan_registry)

lemma registered_set_chan [simp]: "registered (broker (set_chan i c s)) = registered (broker s)"
  by (simp add: set_chan_def)

lemma control_at:
  assumes "control_inv s"
  shows "at_pub s p (PLoop tp m (i # ids) l d) \<Longrightarrow> i \<in> set (registered (broker s) tp) \<and>
      set ids \<subseteq> set (registered (broker s) tp) \<and> i < next_id (broker s) \<and> \<not> chan_closed (chan_of s i)"
    and "at_pub s p (PEvict tp m i ids l d) \<Longrightarrow> i \<in> set (registered (broker s) tp) \<and>
      set ids \<subseteq> set (registered (broker s) tp) \<and> i < next_id (broker s) \<and> \<not> chan_closed (chan_of s i)"
    and "at_pub s p (PRetry tp m i e ids l d) \<Longrightarrow> i \<in> set (registered (broker s) tp) \<and>
      set ids \<subseteq> set (registered (broker s) tp) \<and> i < next_id (broker s) \<and> \<not> chan_closed (chan_of s i)"
proof -
  have ok: "pub_ok (broker s) x" if "at_pub s p x" for p x
    using assms that by (auto simp: control_inv_def at_pub_def)
  have reg: "i < next_id (broker s) \<and> \<not> chan_closed (chan_of s i)" if "i \<in> set (registered (broker s) tp)" for i
    using assms that by (auto simp: control_inv_def registry_inv_def chan_of_def)
  show "at_pub s p (PLoop tp m (i # ids) l d) \<Longrightarrow> i \<in> set (registered (broker s) tp) \<and>
      set ids \<subseteq> set (registered (broker s) tp) \<and> i < next_id (broker s) \<and> \<not> chan_closed (chan_of s i)"
    using ok [of p "PLoop tp m (i # ids) l d"] reg [of i] by simp
  show "at_pub s p (PEvict tp m i ids l d) \<Longrightarrow> i \<in> set (registered (broker s) tp) \<and>
      set ids \<subseteq> set (registered (broker s) tp) \<and> i < next_id (broker s) \<and> \<not> chan_closed (chan_of s i)"
    using ok [of p "PEvict tp m i ids l d"] reg [of i] by simp
  show "at_pub s p (PRetry tp m i e ids l d) \<Longrightarrow> i \<in> set (registered (broker s) tp) \<and>
      set ids \<subseteq> set (registered (broker s) tp) \<and> i < next_id (broker s) \<and> \<not> chan_closed (chan_of s i)"
    using ok [of p "PRetry tp m i e ids l d"] reg [of i] by simp
qed

lemma publish_step_control:
  assumes "publish_step s t" and "control_inv s"
  shows "control_inv t"
  using assms
  by (induction rule: publish_step.induct)
    (auto simp: chan_simps intro!: control_set_pub control_set_chan dest: control_at)

lemma write_control:
  assumes "control_inv s" and "unlocked s" and "r = Return b'" and "registry_inv b'" and "publishers t = publishers s"
    and "panicked t = None"
  shows "control_inv (write_result r t)"
proof -
  have "pub_ok b' x" if "x \<in> set (publishers s)" for x
    using assms(2) that by (cases x) (auto simp: unlocked_def)
  then show ?thesis using assms by (auto simp: control_inv_def write_result_def)
qed

lemma unlocked_set_pub: "unlocked s \<Longrightarrow> \<not> reading x \<Longrightarrow> unlocked (set_pub p x s)"
  by (auto simp: unlocked_def set_pub_def dest!: in_set_updateD)

lemma registry_step_control:
  assumes "registry_step s t" and i: "control_inv s"
  shows "control_inv t"
  using assms(1)
proof cases
  case (Subscribe_step ctxDone tp f)
  then show ?thesis
    using write_control [OF i Subscribe_step(2) refl, of "fst (Subscribe ctxDone tp f (broker s))" s]
      Subscribe_registry [of "broker s" ctxDone tp f] i
    by (simp add: control_inv_def write_result_def)
next
  case (Disconnect_step p l tp i' d)
  let ?s = "set_pub p (PRemove l tp d) s"
  have "control_inv ?s" "unlocked ?s"
    using i Disconnect_step by (auto intro: control_set_pub unlocked_set_pub)
  moreover obtain b' where "broker_remove tp i' (broker s) = Return b'" "registry_inv b'"
    using remove_registry [of "broker s"] i by (meson control_inv_def)
  ultimately show ?thesis
    unfolding Disconnect_step(1)
    by (intro write_control [of ?s]) (use i in \<open>auto simp: control_inv_def set_pub_def\<close>)
next
  case (Watch_fires i')
  have "registry_inv (set_sub i' (\<lambda>sub. sub\<lparr>watching := False\<rparr>) (broker s))"
    using i by (auto simp: control_inv_def registry_inv_def)
  then show ?thesis using i Watch_fires by (auto simp: control_inv_def)
next
  case (Watch_removes i')
  obtain b' where "broker_remove (topic_of (subscribers (broker s) i')) i' (broker s) = Return b'" "registry_inv b'"
    using remove_registry [of "broker s"] i by (meson control_inv_def)
  then show ?thesis
    unfolding Watch_removes(1)
    by (intro write_control [OF i]) (use i Watch_removes in \<open>auto simp: control_inv_def\<close>)
next
  case Close_step
  obtain b' where "broker_Close (broker s) = Return b'" "registry_inv b'"
    using Close_registry [of "broker s"] i by (auto simp: control_inv_def)
  then show ?thesis
    unfolding Close_step(1)
    by (intro write_control [OF i]) (use i Close_step in \<open>auto simp: control_inv_def\<close>)
qed

section \<open>Accounting\<close>

lemma sys_frame [simp]:
  "offered (set_pub p x s) = offered s" "accepted (set_pub p x s) = accepted s"
  "taken (set_pub p x s) = taken s" "losses (set_pub p x s) = losses s"
  "publishers (set_chan i c s) = publishers s" "offered (set_chan i c s) = offered s"
  "accepted (set_chan i c s) = accepted s" "taken (set_chan i c s) = taken s"
  "losses (set_chan i c s) = losses s" "publishers (offer i m s) = publishers s"
  "accepted (offer i m s) = accepted s" "taken (offer i m s) = taken s"
  "losses (offer i m s) = losses s" "publishers (accept i m s) = publishers s"
  "offered (accept i m s) = offered s" "taken (accept i m s) = taken s"
  "losses (accept i m s) = losses s" "publishers (take_out i r m s) = publishers s"
  "offered (take_out i r m s) = offered s" "accepted (take_out i r m s) = accepted s"
  "losses (take_out i r m s) = losses s" "publishers (reportDrop p tp i m s) = publishers s"
  "offered (reportDrop p tp i m s) = offered s" "accepted (reportDrop p tp i m s) = accepted s"
  "taken (reportDrop p tp i m s) = taken s"
  by (simp_all add: sys_defs)

lemma sys_effect [simp]:
  "offered (offer i m s) = (offered s)(i := offered s i @ [m])"
  "accepted (accept i m s) = (accepted s)(i := accepted s i @ [m])"
  "taken (take_out i r m s) = (taken s)(i := taken s i @ [(r, m)])"
  "losses (reportDrop p tp i m s) = losses s @ [(i, m)]"
  "chan_of (set_pub p x s) = chan_of s"
  "chan_of (set_chan i c s) = (chan_of s)(i := c)"
  by (simp_all add: sys_defs fun_eq_iff)

lemma at_pub_frame [simp]:
  "at_pub (offer i m s) = at_pub s" "at_pub (accept i m s) = at_pub s" "at_pub (take_out i r m s) = at_pub s"
  "at_pub (reportDrop p tp i m s) = at_pub s" "at_pub (set_chan i c s) = at_pub s"
  by (simp_all add: at_pub_def fun_eq_iff)

lemma delivering_frame [simp]:
  "delivering (offer i m s) = delivering s" "delivering (accept i m s) = delivering s"
  "delivering (take_out i r m s) = delivering s" "delivering (reportDrop p tp i m s) = delivering s"
  "delivering (set_chan i c s) = delivering s"
  by (simp_all add: delivering_def fun_eq_iff)

lemma delivering_set_pub:
  "at_pub s p y \<Longrightarrow> delivering (set_pub p x s) j + in_hand j y = delivering s j + in_hand j x"
  using sum_list_map_update [of p "publishers s" "in_hand j" x] by (auto simp: delivering_def at_pub_def set_pub_def)

text \<open>A publisher that moves on with nothing in hand, before or after.\<close>

lemma delivering_same: "at_pub s p y \<Longrightarrow> \<forall>j. in_hand j y = in_hand j x \<Longrightarrow> delivering (set_pub p x s) = delivering s"
  using delivering_set_pub [of s p y x] by (auto simp: fun_eq_iff)

lemmas flow_defs = flow_inv_def received_def lost_at_def

lemma flow_set_pub: "flow_inv s \<Longrightarrow> at_pub s p y \<Longrightarrow> \<forall>j. in_hand j y = in_hand j x \<Longrightarrow> flow_inv (set_pub p x s)"
  using delivering_same [of s p y x] by (simp add: flow_defs)

lemma flow_frame [simp]: "flow_inv (s\<lparr>fired := x\<rparr>) = flow_inv s" "flow_inv (s\<lparr>panicked := y\<rparr>) = flow_inv s"
  by (simp_all add: flow_defs chan_of_def delivering_def)

lemma publish_step_flow:
  assumes "publish_step s t" and "flow_inv s"
  shows "flow_inv t"
  using assms
proof (induction rule: publish_step.induct)
  case (Deliver_send s p tp m i ids l d c)
  have "delivering (set_pub p (PLoop tp m ids l d) (set_chan i c (accept i m (offer i m s)))) = delivering s"
    using Deliver_send delivering_same [of "set_chan i c (accept i m (offer i m s))" p] by simp
  then show ?case using Deliver_send by (auto simp: flow_defs chan_simps)
next
  case (Deliver_handoff s p tp m i ids l d)
  have "delivering (set_pub p (PLoop tp m ids l d) (take_out i True m (accept i m (offer i m s)))) = delivering s"
    using Deliver_handoff delivering_same [of "take_out i True m (accept i m (offer i m s))" p] by simp
  then show ?case using Deliver_handoff by (auto simp: flow_defs)
next
  case (Deliver_drop s p tp m i ids l d)
  let ?x = "PLoop tp m ids True (if policy (broker s) = Disconnect then d @ [i] else d)"
  have "delivering (set_pub p ?x (reportDrop p tp i m (offer i m s))) = delivering s"
    using Deliver_drop delivering_same [of "reportDrop p tp i m (offer i m s)" p _ ?x] by simp
  then show ?case using Deliver_drop by (simp add: flow_defs)
next
  case (Deliver_full s p tp m i ids l d)
  have "delivering (set_pub p (PEvict tp m i ids l d) (offer i m s)) j = delivering s j + (if i = j then {#m#} else {#})" for j
    using Deliver_full delivering_set_pub [of "offer i m s" p "PLoop tp m (i # ids) l d" "PEvict tp m i ids l d" j]
    by (simp split: if_splits)
  then show ?case using Deliver_full by (auto simp: flow_defs)
next
  case (Evict_oldest s p tp m i ids l d m' c)
  have "delivering (set_pub p (PRetry tp m i True ids l d)
      (set_chan i c (take_out i False m' (reportDrop p tp i m' s)))) = delivering s"
    using Evict_oldest delivering_same [of "set_chan i c (take_out i False m' (reportDrop p tp i m' s))" p] by simp
  then show ?case using Evict_oldest by (auto simp: flow_defs chan_simps)
next
  case (Evict_none s p tp m i ids l d)
  then show ?case by (auto intro: flow_set_pub)
next
  case (Retry_send s p tp m i e ids l d c)
  have "delivering s j = delivering (set_pub p (PLoop tp m ids (l \<or> e) d) (set_chan i c (accept i m s))) j +
      (if i = j then {#m#} else {#})" for j
    using Retry_send delivering_set_pub [of "set_chan i c (accept i m s)" p "PRetry tp m i e ids l d" "PLoop tp m ids (l \<or> e) d" j]
    by (simp split: if_splits)
  then show ?case using Retry_send by (auto simp: flow_defs chan_simps)
next
  case (Retry_handoff s p tp m i e ids l d)
  have "delivering s j = delivering (set_pub p (PLoop tp m ids (l \<or> e) d) (take_out i True m (accept i m s))) j +
      (if i = j then {#m#} else {#})" for j
    using Retry_handoff delivering_set_pub [of "take_out i True m (accept i m s)" p "PRetry tp m i e ids l d" "PLoop tp m ids (l \<or> e) d" j]
    by (simp split: if_splits)
  then show ?case using Retry_handoff by (auto simp: flow_defs)
next
  case (Retry_drop s p tp m i e ids l d)
  have "delivering s j = delivering (set_pub p (PLoop tp m ids True d) (reportDrop p tp i m s)) j +
      (if i = j then {#m#} else {#})" for j
    using Retry_drop delivering_set_pub [of "reportDrop p tp i m s" p "PRetry tp m i e ids l d" "PLoop tp m ids True d" j]
    by (simp split: if_splits)
  then show ?case using Retry_drop by (auto simp: flow_defs)
qed (auto intro: flow_set_pub)

lemma kept_flow: "flow_inv s \<Longrightarrow> kept (broker s) b \<Longrightarrow> flow_inv (s\<lparr>broker := b\<rparr>)"
  by (auto simp: flow_defs chan_of_def kept_def delivering_def)

text \<open>Every registry step replaces the broker by one that keeps the buffers.\<close>

lemma registry_step_kept:
  assumes "registry_step s t" and "control_inv s"
  obtains s' b f where "t = s'\<lparr>broker := b, fired := f\<rparr>" and "kept (broker s) b" and "broker s' = broker s"
    and "s' = s \<or> (\<exists>p l tp i d. at_pub s p (PRemove l tp (i # d)) \<and> s' = set_pub p (PRemove l tp d) s)"
  using assms(1)
proof cases
  case (Subscribe_step ctxDone tp f)
  then show ?thesis
    using that [of "fired s" "fst (Subscribe ctxDone tp f (broker s))" s] assms(2) Subscribe_registry
    by (auto simp: control_inv_def)
next
  case (Disconnect_step p l tp i d)
  let ?s = "set_pub p (PRemove l tp d) s"
  obtain b where "broker_remove tp i (broker s) = Return b" "kept (broker s) b"
    using remove_registry assms(2) by (meson control_inv_def)
  moreover from this have "t = ?s\<lparr>broker := b, fired := fired s\<rparr>"
    using Disconnect_step(1) by (simp add: write_result_def set_pub_def)
  moreover have "broker ?s = broker s" by (simp add: set_pub_def)
  ultimately show ?thesis using that [of "fired s" b ?s] Disconnect_step(3) by blast
next
  case (Watch_fires i)
  then show ?thesis
    using that [of "insert i (fired s)" "set_sub i (\<lambda>sub. sub\<lparr>watching := False\<rparr>) (broker s)" s]
    by (auto simp: kept_def)
next
  case (Watch_removes i)
  obtain b where "broker_remove (topic_of (subscribers (broker s) i)) i (broker s) = Return b" "kept (broker s) b"
    using remove_registry assms(2) by (meson control_inv_def)
  then show ?thesis
    using that [of "fired s - {i}" b s] Watch_removes by (auto simp: write_result_def)
next
  case Close_step
  obtain b where "broker_Close (broker s) = Return b" "kept (broker s) b"
    using Close_registry assms(2) by (meson control_inv_def)
  then show ?thesis
    using that [of "fired s" b s] Close_step by (auto simp: write_result_def)
qed

lemma registry_step_flow:
  assumes "registry_step s t" and "control_inv s" and "flow_inv s"
  shows "flow_inv t"
  using registry_step_kept [OF assms(1,2)]
proof cases
  case (1 s' b f)
  have "flow_inv s'" using 1(4) assms(3) by (auto intro: flow_set_pub)
  then show ?thesis using 1 kept_flow [of s' b] by simp
qed

section \<open>Reports\<close>

lemma report_set_pub: "report_inv s \<Longrightarrow> at_pub s p y \<Longrightarrow> pub_lost x = pub_lost y \<Longrightarrow> report_inv (set_pub p x s)"
  by (auto simp: report_inv_def set_pub_def at_pub_def nth_list_update)

lemma report_logs [simp]:
  "report_inv (offer i m s) = report_inv s" "report_inv (accept i m s) = report_inv s"
  "report_inv (take_out i r m s) = report_inv s" "report_inv (set_chan i c s) = report_inv s"
  "report_inv (s\<lparr>panicked := x\<rparr>) = report_inv s"
  by (auto simp: report_inv_def sys_defs)

text \<open>A reported loss sets the flag of the publish that caused it.\<close>

lemma report_drop:
  assumes "report_inv s" and "control_inv s" and "p < length (publishers s)" and "pub_lost x"
    and "i \<in> set (registered (broker s) tp)"
  shows "report_inv (set_pub p x (reportDrop p tp i m s))"
proof -
  have "i < next_id (broker s)" "topic_of (subscribers (broker s) i) = tp"
    using assms(2,5) by (auto simp: control_inv_def registry_inv_def)
  then show ?thesis
    using assms(1,3,4) by (auto simp: report_inv_def set_pub_def reportDrop_def nth_list_update)
qed

lemma reportDrop_swap: "take_out i r m (reportDrop p tp j n s) = reportDrop p tp j n (take_out i r m s)"
    "set_chan i c (reportDrop p tp j n s) = reportDrop p tp j n (set_chan i c s)"
  by (simp_all add: sys_defs)

lemma publish_step_report:
  assumes "publish_step s t" and "report_inv s" and "control_inv s"
  shows "report_inv t"
  using assms
proof (induction rule: publish_step.induct)
  case (Deliver_drop s p tp m i ids l d)
  then show ?case
    by (intro report_drop) (auto simp: at_pub_def dest: control_at)
next
  case (Evict_oldest s p tp m i ids l d m' c)
  then have "control_inv (set_chan i c (take_out i False m' s))"
    by (intro control_set_chan) (auto simp: chan_simps dest: control_at)
  with Evict_oldest show ?case
    unfolding reportDrop_swap
    by (intro report_drop) (auto simp: at_pub_def dest: control_at)
next
  case (Retry_drop s p tp m i e ids l d)
  then show ?case
    by (intro report_drop) (auto simp: at_pub_def dest: control_at)
qed (auto intro: report_set_pub)

lemma kept_report:
  assumes "report_inv s" and "kept (broker s) b"
  shows "report_inv (s\<lparr>broker := b, fired := f\<rparr>)"
proof -
  have "map (\<lambda>(i, m). (topic_of (subscribers b i), m)) (losses s) =
      map (\<lambda>(i, m). (topic_of (subscribers (broker s) i), m)) (losses s)"
    using assms by (auto simp: report_inv_def kept_def)
  then show ?thesis using assms by (force simp: report_inv_def kept_def)
qed

lemma registry_step_report:
  assumes "registry_step s t" and "control_inv s" and "report_inv s"
  shows "report_inv t"
  using registry_step_kept [OF assms(1,2)]
proof cases
  case (1 s' b f)
  have "report_inv s'" using 1(4) assms(3) by (auto intro: report_set_pub)
  then show ?thesis using 1 kept_report [of s' b f] by simp
qed

section \<open>Reachable states\<close>

definition broker_inv :: "'m broker_sys \<Rightarrow> bool" where
  "broker_inv s \<longleftrightarrow> control_inv s \<and> flow_inv s \<and> report_inv s"

lemma consume_inv:
  assumes "broker_inv s" and "chan_recv (chan_of s i) = Some (Some m, c)"
  shows "broker_inv (set_chan i c (take_out i True m s))"
proof -
  have "buf (chan_of s i) \<noteq> []" using assms(2) by (auto simp: chan_simps)
  then have "i < next_id (broker s)"
    using assms(1) by (auto simp: broker_inv_def control_inv_def registry_inv_def chan_of_def not_le [symmetric])
  moreover have "chan_closed c = chan_closed (chan_of s i)" using assms(2) by (auto simp: chan_simps)
  ultimately show ?thesis
    using assms by (auto simp: broker_inv_def flow_defs chan_simps intro!: control_set_chan)
qed

lemma broker_step_inv: "broker_step s t \<Longrightarrow> broker_inv s \<Longrightarrow> broker_inv t"
proof (induction rule: broker_step.induct)
  case (step_publish s t)
  then show ?case
    unfolding broker_inv_def by (blast intro: publish_step_control publish_step_flow publish_step_report)
next
  case (step_registry s t)
  then show ?case
    unfolding broker_inv_def by (blast intro: registry_step_control registry_step_flow registry_step_report)
qed (rule consume_inv)

lemma broker_option_frame: "broker_option opt \<Longrightarrow> subs (opt b) = subs b \<and> closed (opt b) = closed b \<and>
    subscribers (opt b) = subscribers b \<and> next_id (opt b) = next_id b"
  by (auto simp: broker_option_def WithSubscriberBuffer_def WithDropHandler_def WithSlowSubscriberPolicy_def
      split: if_splits option.splits)

lemma NewBroker_fields:
  assumes "\<forall>opt \<in> set opts. broker_option opt"
  shows "subs (NewBroker opts) = Map.empty \<and> \<not> closed (NewBroker opts) \<and> next_id (NewBroker opts) = 0 \<and>
    (\<forall>i. buf (ch (subscribers (NewBroker opts) i)) = [])"
  unfolding NewBroker_def
  by (rule apply_opts_inv) (use assms in \<open>auto simp: broker_option_frame make_chan_def\<close>)

lemma broker_start_inv: "broker_start s \<Longrightarrow> broker_inv s"
proof -
  assume "broker_start s"
  then obtain opts n where o: "\<forall>opt \<in> set opts. broker_option opt" and
    s: "s = \<lparr>broker = NewBroker opts, publishers = replicate n PNotCalled, fired = {}, handler_calls = [],
      panicked = None, offered = (\<lambda>_. []), accepted = (\<lambda>_. []), taken = (\<lambda>_. []), losses = [], caused = (\<lambda>_. 0)\<rparr>"
    by (auto simp: broker_start_def)
  have "registered (NewBroker opts) tp = []" for tp using NewBroker_fields [OF o] by (simp add: registered_def)
  moreover have "sum_list (map (in_hand i) (replicate n PNotCalled)) = {#}" for i by (induction n) auto
  ultimately show ?thesis
    using NewBroker_fields [OF o]
    by (auto simp: s broker_inv_def control_inv_def registry_inv_def flow_defs report_inv_def chan_of_def delivering_def)
qed

interpretation broker_steps: step_invariant broker_start broker_step broker_inv
  by unfold_locales (rule broker_start_inv, assumption, rule broker_step_inv)

lemma subseq_filter: "subseq (map f (filter P xs)) (map f xs)"
  by (induction xs) auto

section \<open>Properties\<close>

section \<open>Publishing does not block\<close>

text \<open>
  The steps of publisher \<open>p\<close> while it holds the read lock, and the work its fan-out has left: at most
  three steps per subscription.
\<close>

definition fan_out :: "nat \<Rightarrow> 'm broker_sys \<Rightarrow> 'm broker_sys \<Rightarrow> bool" where
  "fan_out p s t \<longleftrightarrow> publish_step s t \<and> p < length (publishers s) \<and> reading (publishers s ! p) \<and>
     publishers t ! p \<noteq> publishers s ! p"

fun pub_work :: "'m publish \<Rightarrow> nat" where
  "pub_work (PLoop tp m ids l d) = 3 * length ids + 1"
| "pub_work (PEvict tp m i ids l d) = 3 * length ids + 3"
| "pub_work (PRetry tp m i e ids l d) = 3 * length ids + 2"
| "pub_work _ = 0"

fun fanned_out :: "'m publish \<Rightarrow> bool" where
  "fanned_out (PRemove l tp d) = True"
| "fanned_out _ = False"

definition publishing :: "nat \<Rightarrow> 'm broker_sys \<Rightarrow> bool" where
  "publishing p s \<longleftrightarrow> control_inv s \<and> p < length (publishers s) \<and> (reading (publishers s ! p) \<or> fanned_out (publishers s ! p))"

lemma publish_step_moves:
  "publish_step s t \<Longrightarrow> control_inv s \<Longrightarrow> \<exists>q x y. at_pub s q y \<and> publishers t = (publishers s)[q := x] \<and>
     (reading y \<longrightarrow> pub_work x < pub_work y \<and> (reading x \<or> fanned_out x))"
proof (induction rule: publish_step.induct)
  case (Deliver_panic s p tp m i ids l d e)
  then show ?case using control_at(1) [of s p tp m i ids l d] by (auto simp: chan_simps)
next
  case (Evict_closed s p tp m i ids l d c)
  then show ?case using control_at(2) [of s p tp m i ids l d] by (auto simp: chan_simps)
next
  case (Retry_panic s p tp m i e ids l d x)
  then show ?case using control_at(3) [of s p tp m i e ids l d] by (auto simp: chan_simps)
qed (rule exI, rule exI, rule exI, rule conjI, assumption, fastforce simp: set_pub_def)+

lemma fan_out_moves:
  assumes "fan_out p s t" and "publishing p s"
  shows "publishing p t \<and> pub_work (publishers t ! p) < pub_work (publishers s ! p)"
proof -
  have f: "publish_step s t" "p < length (publishers s)" "reading (publishers s ! p)" "publishers t ! p \<noteq> publishers s ! p"
    and c: "control_inv s" using assms by (auto simp: fan_out_def publishing_def)
  obtain q x y where q: "at_pub s q y" "publishers t = (publishers s)[q := x]"
    "reading y \<longrightarrow> pub_work x < pub_work y \<and> (reading x \<or> fanned_out x)"
    using publish_step_moves [OF f(1) c] by blast
  have "q = p" using f(4) q(2) by (metis nth_list_update_neq)
  then show ?thesis using q f(2,3) publish_step_control [OF f(1) c] by (auto simp: at_pub_def publishing_def)
qed

lemma fan_outI: "publish_step s t \<Longrightarrow> at_pub s p y \<Longrightarrow> reading y \<Longrightarrow> publishers t = (publishers s)[p := x] \<Longrightarrow> x \<noteq> y \<Longrightarrow> \<exists>t. fan_out p s t"
  by (auto simp: fan_out_def at_pub_def)

text \<open>Every select of the fan-out has a branch that is ready, so that the publisher can always go on.\<close>

lemma loop_not_stuck:
  assumes "control_inv s" and "at_pub s p (PLoop tp m ids l d)"
  shows "\<exists>t. fan_out p s t"
proof (cases ids)
  case Nil
  then show ?thesis using fan_outI [OF Publish_unlock [of s p tp m l d] assms(2)] assms(2) by (simp add: set_pub_def)
next
  case (Cons i rest)
  have a: "at_pub s p (PLoop tp m (i # rest) l d)" using assms(2) Cons by simp
  then have opn: "\<not> chan_closed (chan_of s i)" using control_at(1) [OF assms(1)] by blast
  show ?thesis
  proof (cases "accepts s i m")
    case True
    show ?thesis
    proof (cases "chan_send (chan_of s i) m")
      case None
      then show ?thesis
        using fan_outI [OF Deliver_drop [OF a True None] a] fan_outI [OF Deliver_full [OF a True None] a]
        by (cases "policy (broker s) = DropOldest") (simp_all add: set_pub_def)
    next
      case (Some r)
      then obtain c where "chan_send (chan_of s i) m = Some (Return c)" using opn by (cases r) (auto simp: chan_simps)
      then show ?thesis using fan_outI [OF Deliver_send [OF a True] a] by (simp add: set_pub_def)
    qed
  next
    case False
    then show ?thesis using fan_outI [OF Publish_skip [OF a] a] by (simp add: set_pub_def)
  qed
qed

lemma deliver_not_stuck:
  assumes "control_inv s"
  shows "at_pub s p (PEvict tp m i ids l d) \<Longrightarrow> \<exists>t. fan_out p s t"
    and "at_pub s p (PRetry tp m i e ids l d) \<Longrightarrow> \<exists>t. fan_out p s t"
proof -
  assume a: "at_pub s p (PEvict tp m i ids l d)"
  then have opn: "\<not> chan_closed (chan_of s i)" using control_at(2) [OF assms] by blast
  show "\<exists>t. fan_out p s t"
  proof (cases "chan_recv (chan_of s i)")
    case None
    then show ?thesis using fan_outI [OF Evict_none [OF a] a] by (simp add: set_pub_def)
  next
    case (Some r)
    then obtain m' c where "chan_recv (chan_of s i) = Some (Some m', c)"
      using opn by (cases r; cases "fst r") (auto simp: chan_simps)
    then show ?thesis using fan_outI [OF Evict_oldest [OF a] a] by (simp add: set_pub_def)
  qed
next
  assume a: "at_pub s p (PRetry tp m i e ids l d)"
  then have opn: "\<not> chan_closed (chan_of s i)" using control_at(3) [OF assms] by blast
  show "\<exists>t. fan_out p s t"
  proof (cases "chan_send (chan_of s i) m")
    case None
    then show ?thesis using fan_outI [OF Retry_drop [OF a] a] by (simp add: set_pub_def)
  next
    case (Some r)
    then obtain c where "chan_send (chan_of s i) m = Some (Return c)" using opn by (cases r) (auto simp: chan_simps)
    then show ?thesis using fan_outI [OF Retry_send [OF a] a] by (simp add: set_pub_def)
  qed
qed

interpretation publish_end: step_progress "fan_out p" "publishing p" "\<lambda>s. fanned_out (publishers s ! p)"
  "\<lambda>s. pub_work (publishers s ! p)" for p
proof unfold_locales
  show "\<exists>t. fan_out p s t" if "publishing p s" "\<not> fanned_out (publishers s ! p)" for s :: "'m broker_sys"
  proof -
    have c: "control_inv s" "at_pub s p (publishers s ! p)" "reading (publishers s ! p)"
      using that by (auto simp: publishing_def at_pub_def)
    then show ?thesis using loop_not_stuck [OF c(1)] deliver_not_stuck [OF c(1)] by (cases "publishers s ! p") auto
  qed
qed (use fan_out_moves in blast)+

section \<open>Properties\<close>

text \<open>
  C18. Every message is accounted for, once: in every reachable state and for every subscription, the
  messages offered to it are exactly those its consumer received, those still buffered, those lost
  and those a publisher is just delivering; and the calls of the drop handler, when there is one, are
  exactly the losses, in order, each with the topic of its subscription.
\<close>

theorem messages_accounted:
  assumes "broker_start s0" and "broker_step\<^sup>*\<^sup>* s0 s"
  shows "mset (offered s i) = mset (received s i) + mset (buf (chan_of s i)) + mset (lost_at s i) + delivering s i \<and>
    handler_calls s = (if onDrop (broker s)
      then map (\<lambda>(i, m). (topic_of (subscribers (broker s) i), m)) (losses s) else [])"
  using broker_steps.inv_reachable [OF assms] by (simp add: broker_inv_def flow_inv_def report_inv_def)

text \<open>One publish into an empty broker with a rendezvous subscription under a drop handler.\<close>

definition demo_opts :: "(nat broker \<Rightarrow> nat broker) list" where
  "demo_opts = [\<lambda>b. b\<lparr>bufSize := 0\<rparr>, \<lambda>b. b\<lparr>onDrop := True\<rparr>]"

definition demo0 :: "nat broker_sys" where
  "demo0 = \<lparr>broker = NewBroker demo_opts, publishers = replicate 1 PNotCalled, fired = {}, handler_calls = [],
     panicked = None, offered = (\<lambda>_. []), accepted = (\<lambda>_. []), taken = (\<lambda>_. []), losses = [], caused = (\<lambda>_. 0)\<rparr>"

definition demo1 :: "nat broker_sys" where
  "demo1 = demo0\<lparr>broker := fst (Subscribe False ''t'' None (broker demo0))\<rparr>"

definition demo2 :: "nat broker_sys" where "demo2 = set_pub 0 (PWaitLock ''t'' 7) demo1"

definition demo3 :: "nat broker_sys" where "demo3 = set_pub 0 (PLoop ''t'' 7 [0] False []) demo2"

definition demo4 :: "nat broker_sys" where
  "demo4 = set_pub 0 (PLoop ''t'' 7 [] True []) (reportDrop 0 ''t'' 0 7 (offer 0 7 demo3))"

lemmas demo_defs = demo0_def demo1_def demo2_def demo3_def demo4_def demo_opts_def NewBroker_def Subscribe_def
  set_sub_def registered_def make_chan_def Let_def

lemma demo_start: "broker_start demo0"
  unfolding broker_start_def
  by (rule exI [of _ demo_opts], rule exI [of _ 1])
    (auto simp: demo0_def demo_opts_def broker_option_def WithSubscriberBuffer_def WithDropHandler_def fun_eq_iff
      intro: exI [of _ 0] exI [of _ True])

lemma broker_demo_run: "broker_step\<^sup>*\<^sup>* demo0 demo4"
proof -
  have "broker_step demo0 demo1"
    unfolding demo1_def
    by (intro step_registry Subscribe_step) (simp_all add: demo0_def unlocked_def)
  moreover have "broker_step demo1 demo2"
    unfolding demo2_def
    by (intro step_publish Publish_call) (simp_all add: demo1_def demo0_def at_pub_def)
  moreover have "broker_step demo2 demo3"
    unfolding demo3_def
    by (intro step_publish Publish_lock)
      (simp_all add: demo_defs set_pub_def at_pub_def)
  moreover have "broker_step demo3 demo4"
    unfolding demo4_def
    by (intro step_publish)
      (use Deliver_drop [of demo3 0 "''t''" 7 0 "[]" False "[]"] in
        \<open>simp_all add: demo_defs set_pub_def at_pub_def accepts_def chan_send_def chan_of_def\<close>)
  ultimately show ?thesis by (metis (no_types) rtranclp.rtrancl_into_rtrancl rtranclp.rtrancl_refl)
qed

theorem messages_accounted_witness:
  "mset (offered demo4 0) = mset (received demo4 0) + mset (buf (chan_of demo4 0)) + mset (lost_at demo4 0) + delivering demo4 0 \<and>
   handler_calls demo4 = [(''t'', 7)]"
  using messages_accounted [OF demo_start broker_demo_run, of 0]
  by (simp add: demo_defs set_pub_def reportDrop_def offer_def)

text \<open>
  C19. Order, safety and the result of \<open>Publish\<close>: in every reachable state no operation has sent on or
  closed a closed channel; each subscription's channel is FIFO, so that its consumer has received, in
  order, a subsequence of what the channel accepted; a publish that returned nil caused no loss, one that
  returned \<open>ErrSlowSubscriber\<close> at least one. And \<open>Publish\<close> never blocks on subscribers: once it holds the
  read lock its own steps bring the fan-out to its end, at most three for each subscription, whether or
  not anyone receives.
\<close>

theorem delivery_ordered_and_safe:
  assumes "broker_start s0" and "broker_step\<^sup>*\<^sup>* s0 s"
  shows "panicked s = None \<and> accepted s i = map snd (taken s i) @ buf (chan_of s i) \<and>
    subseq (received s i) (accepted s i) \<and>
    (p < length (publishers s) \<longrightarrow>
      (publishers s ! p = PReturned None \<longrightarrow> caused s p = 0) \<and>
      (publishers s ! p = PReturned (Some ErrSlowSubscriber) \<longrightarrow> 0 < caused s p) \<and>
      (reading (publishers s ! p) \<longrightarrow>
        ends_within (fan_out p) (\<lambda>t. fanned_out (publishers t ! p)) (pub_work (publishers s ! p)) s))"
proof -
  note i = broker_steps.inv_reachable [OF assms]
  have e: "ends_within (fan_out p) (\<lambda>t. fanned_out (publishers t ! p)) (pub_work (publishers s ! p)) s"
    if "p < length (publishers s)" "reading (publishers s ! p)"
    using publish_end.ends [of p s] i that by (simp add: publishing_def broker_inv_def)
  have a: "accepted s i = map snd (taken s i) @ buf (chan_of s i)"
    using i by (simp add: broker_inv_def flow_inv_def)
  then have "subseq (received s i) (accepted s i)"
    using subseq_filter [of snd fst "taken s i"] by (auto simp: received_def intro: list_emb_append2 list_emb_prefix)
  moreover have "pub_lost (publishers s ! p) \<longleftrightarrow> 0 < caused s p" if "p < length (publishers s)"
    using i that by (simp add: broker_inv_def report_inv_def)
  ultimately show ?thesis using a e i by (auto simp: broker_inv_def control_inv_def)
qed

theorem delivery_ordered_and_safe_witness:
  "panicked demo4 = None \<and> subseq (received demo4 0) (accepted demo4 0)"
  using delivery_ordered_and_safe [OF demo_start broker_demo_run, of 0] by blast

text \<open>
  Closing is final and idempotent: on every well-formed broker \<open>Close\<close> returns, every registered
  subscription's channel is closed with its buffered messages still there, the registry is empty, a
  second \<open>Close\<close> changes nothing, and a later \<open>Subscribe\<close> returns a closed, empty channel.
\<close>

theorem Close_final:
  assumes "registry_inv b"
  shows "\<exists>b'. broker_Close b = Return b' \<and> broker_Close b' = Return b' \<and>
    (\<forall>tp. registered b' tp = [] \<and> (\<forall>i \<in> set (registered b tp). chan_closed (ch (subscribers b' i)))) \<and>
    (\<forall>i. buf (ch (subscribers b' i)) = buf (ch (subscribers b i))) \<and>
    (\<forall>tp f x. case Subscribe x tp f b' of (b'', i) \<Rightarrow>
       chan_closed (ch (subscribers b'' i)) \<and> buf (ch (subscribers b'' i)) = [] \<and> registered b'' tp = [])"
proof -
  obtain b' where b': "broker_Close b = Return b'" "kept b b'" "closed b'" "\<forall>tp. registered b' tp = []"
    "\<forall>tp. \<forall>i \<in> set (registered b tp). chan_closed (ch (subscribers b' i))"
    using Close_registry [OF assms] by blast
  moreover have "broker_Close b' = Return b'" using b'(3) by (simp add: broker_Close_def)
  ultimately show ?thesis by (auto simp: kept_def Subscribe_def Let_def make_chan_def)
qed

theorem Close_final_witness:
  "\<exists>b'. broker_Close (broker demo4) = Return b' \<and> chan_closed (ch (subscribers b' 0))"
proof -
  have i: "registry_inv (broker demo4)"
    using broker_steps.inv_reachable [OF demo_start broker_demo_run] by (simp add: broker_inv_def control_inv_def)
  have "0 \<in> set (registered (broker demo4) ''t'')" by (simp add: demo_defs set_pub_def reportDrop_def offer_def)
  then show ?thesis using Close_final [OF i] by blast
qed

end
