(* ===== verification/Lifecycle.thy ===== *)
theory Lifecycle
  imports GoChan
begin

text \<open>
  The shutdown coordinator of \<open>pkg/lifecycle\<close>. Concurrent \<open>Shutdown\<close> and \<open>Register\<close> calls are a
  transition system whose steps are the critical sections, the hook calls and the accesses to \<open>result\<close>
  and \<open>finished\<close>. A hook returns nil (\<open>None\<close>), an error, or panics. An error made by \<open>errors.Join\<close> is
  the list of the errors it joins; nil is the empty list.
\<close>

section \<open>State\<close>

record ('h, 'e) coordinator =
  hooks :: "'h list"
  started :: bool
  finished :: "unit chan"
  result :: "'e list"
  triggerOnce :: bool
  triggered :: "unit chan"

definition newCoordinator :: "('h, 'e) coordinator" where
  "newCoordinator = \<lparr>hooks = [], started = False, finished = make_chan 0, result = [],
     triggerOnce = False, triggered = make_chan 0\<rparr>"

definition register :: "'h option \<Rightarrow> ('h, 'e) coordinator \<Rightarrow> ('h, 'e) coordinator go" where
  "register fn c =
     (case fn of None \<Rightarrow> Panic ''lifecycle: nil hook''
      | Some h \<Rightarrow>
        if started c then Panic ''lifecycle: Register after Shutdown''
        else Return (c\<lparr>hooks := hooks c @ [h]\<rparr>))"

definition trigger :: "('h, 'e) coordinator \<Rightarrow> ('h, 'e) coordinator go" where
  "trigger c =
     (if triggerOnce c then Return c
      else go_bind (chan_close (triggered c)) (\<lambda>t. Return (c\<lparr>triggerOnce := True, triggered := t\<rparr>)))"

section \<open>Shutdown\<close>

text \<open>
  The program points of a \<open>Shutdown\<close> call: the loop that runs \<open>hs ! (k - 1)\<close> next, the stores after it,
  and the wait of the later callers.
\<close>

datatype ('h, 'e) shutdown_call =
    NotCalled
  | Looping "'h list" nat "'e list"
  | Storing "'e list"
  | Closing
  | WaitFinished
  | Returned "'e list"
  | Panicked

record ('h, 'e) coord_sys =
  coord :: "('h, 'e) coordinator"
  calls :: "('h, 'e) shutdown_call list"
  ran :: "('h \<times> 'e option) list"

definition at_call :: "('h, 'e) coord_sys \<Rightarrow> nat \<Rightarrow> ('h, 'e) shutdown_call \<Rightarrow> bool" where
  "at_call s i x \<longleftrightarrow> i < length (calls s) \<and> calls s ! i = x"

definition set_call :: "nat \<Rightarrow> ('h, 'e) shutdown_call \<Rightarrow> ('h, 'e) coord_sys \<Rightarrow> ('h, 'e) coord_sys" where
  "set_call i x s = s\<lparr>calls := (calls s)[i := x]\<rparr>"

definition add_err :: "'e option \<Rightarrow> 'e list \<Rightarrow> 'e list" where
  "add_err r errs = (case r of None \<Rightarrow> errs | Some e \<Rightarrow> errs @ [e])"

inductive coord_step :: "('h, 'e) coord_sys \<Rightarrow> ('h, 'e) coord_sys \<Rightarrow> bool" where
  Register_ok: "register fn (coord s) = Return c \<Longrightarrow> coord_step s (s\<lparr>coord := c\<rparr>)"
| Trigger_ok: "trigger (coord s) = Return c \<Longrightarrow> coord_step s (s\<lparr>coord := c\<rparr>)"
| Shutdown_first: "at_call s i NotCalled \<Longrightarrow> \<not> started (coord s) \<Longrightarrow>
    coord_step s (set_call i (Looping (hooks (coord s)) (length (hooks (coord s))) []) (s\<lparr>coord := (coord s)\<lparr>started := True\<rparr>\<rparr>))"
| Shutdown_later: "at_call s i NotCalled \<Longrightarrow> started (coord s) \<Longrightarrow> coord_step s (set_call i WaitFinished s)"
| Hook_returns: "at_call s i (Looping hs (Suc k) errs) \<Longrightarrow>
    coord_step s (set_call i (Looping hs k (add_err r errs)) (s\<lparr>ran := ran s @ [(hs ! k, r)]\<rparr>))"
| Hook_panics: "at_call s i (Looping hs (Suc k) errs) \<Longrightarrow> coord_step s (set_call i Panicked s)"
| Loop_ends: "at_call s i (Looping hs 0 errs) \<Longrightarrow> coord_step s (set_call i (Storing errs) s)"
| Store_result: "at_call s i (Storing errs) \<Longrightarrow>
    coord_step s (set_call i Closing (s\<lparr>coord := (coord s)\<lparr>result := errs\<rparr>\<rparr>))"
| Close_finished: "at_call s i Closing \<Longrightarrow> chan_close (finished (coord s)) = Return f \<Longrightarrow>
    coord_step s (set_call i (Returned (result (coord s))) (s\<lparr>coord := (coord s)\<lparr>finished := f\<rparr>\<rparr>))"
| Close_panics: "at_call s i Closing \<Longrightarrow> chan_close (finished (coord s)) = Panic m \<Longrightarrow>
    coord_step s (set_call i Panicked s)"
| Wait_returns: "at_call s i WaitFinished \<Longrightarrow> chan_recv (finished (coord s)) = Some (None, f) \<Longrightarrow>
    coord_step s (set_call i (Returned (result (coord s))) s)"

definition coord_start :: "('h, 'e) coord_sys \<Rightarrow> bool" where
  "coord_start s \<longleftrightarrow> (\<exists>n. s = \<lparr>coord = newCoordinator, calls = replicate n NotCalled, ran = []\<rparr>)"

section \<open>WaitForSignals\<close>

text \<open>
  What \<open>WaitForSignals\<close> does, as a sequence of actions: \<open>now\<close> is the clock when it wakes and \<open>err\<close> the
  result of its \<open>Shutdown\<close> call. The context of the hooks has a deadline, or none.
\<close>

datatype ('g, 'e) wait_action =
    Notify "'g list" | Woken | ShutdownWith "instant option" | LogError "'e list" | StopSignal

definition WaitForSignals :: "'g list \<Rightarrow> duration \<Rightarrow> 'g list \<Rightarrow> instant \<Rightarrow> 'e list \<Rightarrow> ('g, 'e) wait_action list go" where
  "WaitForSignals defaults timeout sigs now err =
     (if timeout < 0 then Panic ''lifecycle: negative shutdown timeout''
      else let sigs' = (if sigs = [] then defaults else sigs);
               deadline = (if timeout > 0 then Some (now + timeout) else None)
           in Return ([Notify sigs', Woken, ShutdownWith deadline] @
                (if err \<noteq> [] then [LogError err] else []) @ [StopSignal]))"

section \<open>Invariant\<close>

text \<open>The first caller is the one call that has left \<open>NotCalled\<close> without waiting.\<close>

fun runner :: "('h, 'e) shutdown_call \<Rightarrow> nat" where
  "runner (Looping hs k errs) = 1"
| "runner (Storing errs) = 1"
| "runner Closing = 1"
| "runner Panicked = 1"
| "runner _ = 0"

definition errors_of :: "('h \<times> 'e option) list \<Rightarrow> 'e list" where
  "errors_of log = List.map_filter snd log"

fun call_ok :: "('h, 'e) coord_sys \<Rightarrow> ('h, 'e) shutdown_call \<Rightarrow> bool" where
  "call_ok s NotCalled \<longleftrightarrow> True"
| "call_ok s (Looping hs k errs) \<longleftrightarrow> hs = hooks (coord s) \<and> k \<le> length hs \<and> errs = errors_of (ran s) \<and>
     map fst (ran s) = rev (drop k hs)"
| "call_ok s (Storing errs) \<longleftrightarrow> errs = errors_of (ran s) \<and> map fst (ran s) = rev (hooks (coord s))"
| "call_ok s Closing \<longleftrightarrow> result (coord s) = errors_of (ran s) \<and> map fst (ran s) = rev (hooks (coord s))"
| "call_ok s WaitFinished \<longleftrightarrow> started (coord s)"
| "call_ok s (Returned errs) \<longleftrightarrow> chan_closed (finished (coord s)) \<and> errs = errors_of (ran s)"
| "call_ok s Panicked \<longleftrightarrow> \<not> chan_closed (finished (coord s)) \<and> (\<exists>k > 0. map fst (ran s) = rev (drop k (hooks (coord s))))"

definition coord_inv :: "('h, 'e) coord_sys \<Rightarrow> bool" where
  "coord_inv s \<longleftrightarrow> (\<forall>x \<in> set (calls s). call_ok s x) \<and>
     sum_list (map runner (calls s)) = (if started (coord s) \<and> \<not> chan_closed (finished (coord s)) then 1 else 0) \<and>
     (\<not> started (coord s) \<longrightarrow> ran s = [] \<and> \<not> chan_closed (finished (coord s))) \<and>
     (chan_closed (finished (coord s)) \<longrightarrow> result (coord s) = errors_of (ran s) \<and> map fst (ran s) = rev (hooks (coord s))) \<and>
     buf (finished (coord s)) = [] \<and> (chan_closed (triggered (coord s)) \<longleftrightarrow> triggerOnce (coord s))"

lemma errors_of_append [simp]: "errors_of (log @ [(h, r)]) = add_err r (errors_of log)"
  by (auto simp: errors_of_def add_err_def map_filter_def split: option.splits)

lemma errors_of_Nil [simp]: "errors_of [] = []"
  by (simp add: errors_of_def map_filter_def)

text \<open>While one call runs the hooks, no other call has got further than waiting.\<close>

lemma only_runner:
  assumes "coord_inv s" and "at_call s i x" and "runner x = 1"
  shows "started (coord s) \<and> \<not> chan_closed (finished (coord s))"
    and "y \<in> set ((calls s)[i := NotCalled]) \<Longrightarrow> y = NotCalled \<or> y = WaitFinished"
proof -
  have i: "i < length (calls s)" "calls s ! i = x" using assms(2) by (auto simp: at_call_def)
  have s: "sum_list (map runner ((calls s)[i := NotCalled])) + 1 = sum_list (map runner (calls s))"
    using sum_list_map_update [OF i(1), of runner NotCalled] i(2) assms(3) by simp
  then show o: "started (coord s) \<and> \<not> chan_closed (finished (coord s))"
    using assms(1) by (auto simp: coord_inv_def split: if_splits)
  show "y = NotCalled \<or> y = WaitFinished" if y: "y \<in> set ((calls s)[i := NotCalled])"
  proof -
    have "sum_list (map runner ((calls s)[i := NotCalled])) = 0"
      using s o assms(1) by (simp add: coord_inv_def)
    then have "runner y = 0" using y by auto
    moreover have "call_ok s y" using assms(1) in_set_updateD [OF y] by (auto simp: coord_inv_def)
    ultimately show ?thesis using o by (cases y) auto
  qed
qed

lemma runner_moves:
  assumes "coord_inv s" and "at_call s i x" and "runner x = 1" and "started (coord t)"
    and "calls t = (calls s)[i := x']" and "call_ok t x'"
  shows "(\<forall>y \<in> set (calls t). call_ok t y) \<and> sum_list (map runner (calls t)) = runner x'"
proof -
  have i: "i < length (calls s)" using assms(2) by (simp add: at_call_def)
  have u: "calls t = ((calls s)[i := NotCalled])[i := x']" using assms(5) by simp
  have "call_ok t y" if "y \<in> set (calls t)" for y
    using in_set_updateD [OF that [unfolded u]] only_runner(2) [OF assms(1-3), of y] assms(4,6) by auto
  moreover have "sum_list (map runner ((calls s)[i := NotCalled])) = 0"
    using only_runner(2) [OF assms(1-3)] by (fastforce simp: sum_list_eq_0_iff)
  then have "sum_list (map runner (calls t)) = runner x'"
    using sum_list_map_update [of i "(calls s)[i := NotCalled]" runner x'] i u by simp
  ultimately show ?thesis by blast
qed

lemma at_call_sum: "at_call s i x \<Longrightarrow> runner x = runner x' \<Longrightarrow>
    sum_list (map runner ((calls s)[i := x'])) = sum_list (map runner (calls s))"
  using sum_list_map_update [of i "calls s" runner x'] by (auto simp: at_call_def)

lemma at_call_ok: "coord_inv s \<Longrightarrow> at_call s i x \<Longrightarrow> call_ok s x"
  by (auto simp: coord_inv_def at_call_def)

lemma call_ok_calls [simp]: "call_ok (s\<lparr>calls := xs\<rparr>) x = call_ok s x"
  by (cases x) auto

lemma trigger_frame: "trigger c = Return c' \<Longrightarrow> (chan_closed (triggered c) \<longleftrightarrow> triggerOnce c) \<Longrightarrow>
    hooks c' = hooks c \<and> started c' = started c \<and> finished c' = finished c \<and> result c' = result c \<and>
    (chan_closed (triggered c') \<longleftrightarrow> triggerOnce c')"
  by (cases "triggerOnce c") (auto simp: trigger_def chan_close_def split: if_splits)

lemma call_ok_frame: "hooks (coord t) = hooks (coord s) \<Longrightarrow> started (coord t) = started (coord s) \<Longrightarrow>
    finished (coord t) = finished (coord s) \<Longrightarrow> result (coord t) = result (coord s) \<Longrightarrow> ran t = ran s \<Longrightarrow>
    call_ok t x \<longleftrightarrow> call_ok s x"
  by (cases x) auto

lemma idle_calls: "coord_inv s \<Longrightarrow> \<not> started (coord s) \<Longrightarrow> x \<in> set (calls s) \<Longrightarrow> x = NotCalled"
proof -
  assume a: "coord_inv s" "\<not> started (coord s)" "x \<in> set (calls s)"
  then have "runner x = 0" by (auto simp: coord_inv_def)
  moreover have "call_ok s x" "\<not> chan_closed (finished (coord s))" using a by (auto simp: coord_inv_def)
  ultimately show "x = NotCalled" using a(2) by (cases x) auto
qed

lemma coord_step_inv:
  assumes "coord_step s t" and inv: "coord_inv s"
  shows "coord_inv t"
  using assms(1)
proof cases
  case (Register_ok fn c)
  then have "\<not> started (coord s)" by (auto simp: register_def split: option.splits if_splits)
  moreover from this Register_ok obtain h where "c = (coord s)\<lparr>hooks := hooks (coord s) @ [h]\<rparr>"
    by (auto simp: register_def split: option.splits if_splits)
  moreover from this have "call_ok t x" if "x \<in> set (calls s)" for x
    using idle_calls [OF inv _ that] \<open>\<not> started (coord s)\<close> by simp
  ultimately show ?thesis
    using Register_ok(1) inv by (auto simp: coord_inv_def)
next
  case (Trigger_ok c)
  have f: "hooks c = hooks (coord s) \<and> started c = started (coord s) \<and> finished c = finished (coord s) \<and>
      result c = result (coord s) \<and> (chan_closed (triggered c) \<longleftrightarrow> triggerOnce c)"
    by (rule trigger_frame [OF Trigger_ok(2)]) (use inv in \<open>simp add: coord_inv_def\<close>)
  then have "call_ok t x = call_ok s x" for x using Trigger_ok(1) by (intro call_ok_frame) auto
  then show ?thesis using Trigger_ok(1) inv f by (simp add: coord_inv_def)
next
  case (Shutdown_first i)
  have n: "y \<in> set (calls s) \<Longrightarrow> call_ok (s\<lparr>coord := (coord s)\<lparr>started := True\<rparr>\<rparr>) y" for y
    using idle_calls [OF inv Shutdown_first(3), of y] by auto
  have "sum_list (map runner (calls s)) = 0" using inv Shutdown_first(3) by (simp add: coord_inv_def)
  then have "sum_list (map runner (calls t)) = 1"
    using Shutdown_first(1,2) sum_list_map_update [of i "calls s" runner] by (simp add: set_call_def at_call_def)
  then show ?thesis
    using inv Shutdown_first(1,3) n by (auto simp: coord_inv_def set_call_def dest!: in_set_updateD)
next
  case (Shutdown_later i)
  then show ?thesis
    using inv at_call_sum [OF Shutdown_later(2), of WaitFinished]
    by (auto simp: coord_inv_def set_call_def dest!: in_set_updateD)
next
  case (Hook_returns i hs k errs r)
  have ok: "call_ok s (Looping hs (Suc k) errs)" using at_call_ok [OF inv Hook_returns(2)] .
  then have "k < length hs" by auto
  then have "hs ! k # drop (Suc k) hs = drop k hs" by (rule Cons_nth_drop_Suc)
  from this [symmetric] have "rev (drop k hs) = rev (drop (Suc k) hs) @ [hs ! k]" by simp
  with ok have "call_ok t (Looping hs k (add_err r errs))"
    by (auto simp: Hook_returns(1) set_call_def)
  then show ?thesis
    using runner_moves [OF inv Hook_returns(2), of t "Looping hs k (add_err r errs)"]
      only_runner(1) [OF inv Hook_returns(2)] inv
    by (simp add: Hook_returns(1) coord_inv_def set_call_def del: call_ok.simps)
next
  case (Hook_panics i hs k errs)
  have ok: "call_ok s (Looping hs (Suc k) errs)" using at_call_ok [OF inv Hook_panics(2)] .
  have o: "started (coord s) \<and> \<not> chan_closed (finished (coord s))" using only_runner(1) [OF inv Hook_panics(2)] by simp
  have "call_ok t Panicked"
    using ok o by (auto simp: Hook_panics(1) set_call_def intro!: exI [of _ "Suc k"])
  then show ?thesis
    using runner_moves [OF inv Hook_panics(2), of t Panicked] o inv
    by (simp add: Hook_panics(1) coord_inv_def set_call_def)
next
  case (Loop_ends i hs errs)
  have "call_ok s (Looping hs 0 errs)" using at_call_ok [OF inv Loop_ends(2)] .
  then have "call_ok t (Storing errs)" by (simp add: Loop_ends(1) set_call_def)
  then show ?thesis
    using runner_moves [OF inv Loop_ends(2), of t "Storing errs"] only_runner(1) [OF inv Loop_ends(2)] inv
    by (simp add: Loop_ends(1) coord_inv_def set_call_def)
next
  case (Store_result i errs)
  have "call_ok s (Storing errs)" using at_call_ok [OF inv Store_result(2)] .
  then have "call_ok t Closing" by (simp add: Store_result(1) set_call_def)
  then show ?thesis
    using runner_moves [OF inv Store_result(2), of t Closing] only_runner(1) [OF inv Store_result(2)] inv
    by (simp add: Store_result(1) coord_inv_def set_call_def)
next
  case (Close_finished i f)
  have ok: "call_ok s Closing" using at_call_ok [OF inv Close_finished(2)] .
  have f: "f = (finished (coord s))\<lparr>chan_closed := True\<rparr>" using Close_finished(3) by (simp add: chan_simps)
  have "call_ok t (Returned (result (coord s)))" using ok by (simp add: Close_finished(1) set_call_def f)
  then show ?thesis
    using runner_moves [OF inv Close_finished(2), of t "Returned (result (coord s))"]
      only_runner(1) [OF inv Close_finished(2)] inv ok
    by (simp add: Close_finished(1) coord_inv_def set_call_def f)
next
  case (Close_panics i m)
  then show ?thesis using only_runner(1) [OF inv Close_panics(2)] by (simp add: chan_simps)
next
  case (Wait_returns i f)
  then show ?thesis
    using inv at_call_sum [OF Wait_returns(2), of "Returned (result (coord s))"]
    by (auto simp: coord_inv_def set_call_def chan_simps dest!: in_set_updateD)
qed

lemma coord_start_inv: "coord_start s \<Longrightarrow> coord_inv s"
  by (auto simp: coord_start_def coord_inv_def newCoordinator_def make_chan_def sum_list_replicate)

interpretation coord_steps: step_invariant coord_start coord_step coord_inv
  by unfold_locales (rule coord_start_inv, assumption, rule coord_step_inv)

section \<open>A single caller\<close>

text \<open>
  \<open>shutdown\<close> as one call makes it with no other in the way: \<open>call\<close> is what each hook does. \<open>None\<close> means
  that it blocks on \<open>finished\<close>. The package's functions apply to the coordinator of the process.
\<close>

fun run_hooks :: "('h \<Rightarrow> 'e option go) \<Rightarrow> 'h list \<Rightarrow> 'e list \<Rightarrow> 'e list go" where
  "run_hooks call [] errs = Return errs"
| "run_hooks call (h # hs) errs = go_bind (call h) (\<lambda>r. run_hooks call hs (add_err r errs))"

definition shutdown :: "('h \<Rightarrow> 'e option go) \<Rightarrow> ('h, 'e) coordinator \<Rightarrow> (('h, 'e) coordinator \<times> 'e list) go option" where
  "shutdown call c =
     (if started c then (case chan_recv (finished c) of None \<Rightarrow> None | Some _ \<Rightarrow> Some (Return (c, result c)))
      else Some (go_bind (run_hooks call (rev (hooks c)) []) (\<lambda>errs.
             go_bind (chan_close (finished c)) (\<lambda>f.
               Return (c\<lparr>started := True, result := errs, finished := f\<rparr>, errs)))))"

definition std :: "('h, 'e) coordinator" where
  "std = newCoordinator"

definition Register :: "'h option \<Rightarrow> ('h, 'e) coordinator \<Rightarrow> ('h, 'e) coordinator go" where
  "Register fn c = register fn c"

definition Shutdown :: "('h \<Rightarrow> 'e option go) \<Rightarrow> ('h, 'e) coordinator \<Rightarrow> (('h, 'e) coordinator \<times> 'e list) go option" where
  "Shutdown call c = shutdown call c"

definition Trigger :: "('h, 'e) coordinator \<Rightarrow> ('h, 'e) coordinator go" where
  "Trigger c = trigger c"

text \<open>What a hook returned, and the log of running a list of hooks.\<close>

definition hook_log :: "('h \<Rightarrow> 'e option go) \<Rightarrow> 'h list \<Rightarrow> ('h \<times> 'e option) list" where
  "hook_log call hs = map (\<lambda>h. (h, case call h of Return r \<Rightarrow> r | Panic m \<Rightarrow> None)) hs"

lemma run_hooks_errors: "run_hooks call hs errs = Return errs' \<Longrightarrow> errs' = errs @ errors_of (hook_log call hs)"
proof (induction hs arbitrary: errs)
  case (Cons h hs)
  then obtain r where "call h = Return r" "run_hooks call hs (add_err r errs) = Return errs'" by (cases "call h") auto
  then show ?case using Cons.IH by (cases r) (fastforce simp: hook_log_def add_err_def errors_of_def map_filter_def)+
qed (simp add: hook_log_def)

lemma hooks_loop_runs:
  assumes "run_hooks call (rev (take k hs)) errs = Return errs'" and "at_call s i (Looping hs k errs)" and "k \<le> length hs"
  shows "coord_step\<^sup>*\<^sup>* s (set_call i (Looping hs 0 errs') (s\<lparr>ran := ran s @ hook_log call (rev (take k hs))\<rparr>))"
  using assms
proof (induction k arbitrary: errs s)
  case 0
  then have "set_call i (Looping hs 0 errs') (s\<lparr>ran := ran s @ hook_log call (rev (take 0 hs))\<rparr>) = s"
    by (auto simp: set_call_def at_call_def hook_log_def list_update_same_conv)
  then show ?case by simp
next
  case (Suc k)
  have tk: "rev (take (Suc k) hs) = hs ! k # rev (take k hs)" using Suc.prems(3) by (simp add: take_Suc_conv_app_nth)
  then obtain r where r: "call (hs ! k) = Return r" "run_hooks call (rev (take k hs)) (add_err r errs) = Return errs'"
    using Suc.prems(1) by (cases "call (hs ! k)") auto
  let ?t = "set_call i (Looping hs k (add_err r errs)) (s\<lparr>ran := ran s @ [(hs ! k, r)]\<rparr>)"
  have "coord_step s ?t" using Hook_returns [OF Suc.prems(2)] .
  moreover have "coord_step\<^sup>*\<^sup>* ?t (set_call i (Looping hs 0 errs') (?t\<lparr>ran := ran ?t @ hook_log call (rev (take k hs))\<rparr>))"
    using Suc.prems(2,3) by (intro Suc.IH [OF r(2)]) (simp_all add: at_call_def set_call_def)
  ultimately show ?case using r(1) tk by (simp add: set_call_def hook_log_def)
qed

lemma shutdown_firstD:
  "shutdown call c = Some (Return (c', errs)) \<Longrightarrow> \<not> started c \<Longrightarrow> run_hooks call (rev (hooks c)) [] = Return errs \<and>
   \<not> chan_closed (finished c) \<and> c' = c\<lparr>started := True, result := errs, finished := (finished c)\<lparr>chan_closed := True\<rparr>\<rparr>"
  by (cases "run_hooks call (rev (hooks c)) []") (auto simp: shutdown_def chan_close_def split: if_splits)

text \<open>The call alone is a run of the concurrent coordinator, with the same result and the same log.\<close>

lemma shutdown_is_run:
  assumes "shutdown call (coord s) = Some (Return (c, errs))" and "\<not> started (coord s)" and "at_call s i NotCalled"
  shows "coord_step\<^sup>*\<^sup>* s (set_call i (Returned errs) (s\<lparr>ran := ran s @ hook_log call (rev (hooks (coord s))), coord := c\<rparr>))"
proof -
  let ?hs = "hooks (coord s)"
  let ?f = "(finished (coord s))\<lparr>chan_closed := True\<rparr>"
  have r: "run_hooks call (rev ?hs) [] = Return errs" "chan_close (finished (coord s)) = Return ?f"
    and c: "c = (coord s)\<lparr>started := True, result := errs, finished := ?f\<rparr>"
    using shutdown_firstD [OF assms(1,2)] by (simp_all add: chan_simps)
  define s1 where "s1 = set_call i (Looping ?hs (length ?hs) []) (s\<lparr>coord := (coord s)\<lparr>started := True\<rparr>\<rparr>)"
  define s2 where "s2 = set_call i (Looping ?hs 0 errs) (s1\<lparr>ran := ran s1 @ hook_log call (rev ?hs)\<rparr>)"
  have i: "i < length (calls s)" using assms(3) by (simp add: at_call_def)
  have "coord_step s s1" unfolding s1_def by (rule Shutdown_first) (use assms in simp_all)
  moreover have "coord_step\<^sup>*\<^sup>* s1 s2"
    using hooks_loop_runs [of call "length ?hs" ?hs "[]" errs s1 i] r(1) i by (simp add: s1_def s2_def at_call_def set_call_def)
  moreover have "coord_step s2 (set_call i (Storing errs) s2)"
    using i by (intro Loop_ends [of _ _ ?hs]) (simp add: s1_def s2_def at_call_def set_call_def)
  moreover have "coord_step (set_call i (Storing errs) s2) (set_call i Closing (s2\<lparr>coord := (coord s2)\<lparr>result := errs\<rparr>\<rparr>))"
    using i Store_result [of "set_call i (Storing errs) s2" i errs] by (simp add: s1_def s2_def at_call_def set_call_def)
  moreover have "coord_step (set_call i Closing (s2\<lparr>coord := (coord s2)\<lparr>result := errs\<rparr>\<rparr>))
      (set_call i (Returned errs) (s\<lparr>ran := ran s @ hook_log call (rev ?hs), coord := c\<rparr>))"
    using i r(2) c Close_finished [of "set_call i Closing (s2\<lparr>coord := (coord s2)\<lparr>result := errs\<rparr>\<rparr>)" i ?f]
    by (simp add: s1_def s2_def at_call_def set_call_def)
  ultimately show ?thesis by (meson converse_rtranclp_into_rtranclp rtranclp.rtrancl_into_rtrancl rtranclp_trans)
qed

text \<open>A later call runs no hook, and returns the result of the first.\<close>

lemma shutdown_again:
  assumes "shutdown call c = Some (Return (c', errs))" and "buf (finished c) = []"
  shows "shutdown call' c' = Some (Return (c', errs))"
proof (cases "started c")
  case True
  then show ?thesis using assms by (auto simp: shutdown_def split: option.splits)
next
  case False
  then show ?thesis using shutdown_firstD [OF assms(1)] assms(2) by (simp add: shutdown_def chan_recv_def)
qed

section \<open>Every caller returns\<close>

text \<open>
  The steps of \<open>Shutdown\<close> calls whose hooks return, the work the callers have left, and that they get
  through it: the first caller runs the hooks, the others are released by it.
\<close>

definition calm_step :: "('h, 'e) coord_sys \<Rightarrow> ('h, 'e) coord_sys \<Rightarrow> bool" where
  "calm_step s t \<longleftrightarrow> coord_step s t \<and> calls t \<noteq> calls s \<and> Panicked \<notin> set (calls t)"

fun call_work :: "nat \<Rightarrow> ('h, 'e) shutdown_call \<Rightarrow> nat" where
  "call_work n NotCalled = n + 4"
| "call_work n (Looping hs k errs) = k + 3"
| "call_work n (Storing errs) = 2"
| "call_work n Closing = 1"
| "call_work n WaitFinished = 1"
| "call_work n (Returned errs) = 0"
| "call_work n Panicked = 0"

definition shutdown_work :: "('h, 'e) coord_sys \<Rightarrow> nat" where
  "shutdown_work s = sum_list (map (call_work (length (hooks (coord s)))) (calls s))"

definition all_returned :: "('h, 'e) coord_sys \<Rightarrow> bool" where
  "all_returned s \<longleftrightarrow> (\<forall>x \<in> set (calls s). \<exists>errs. x = Returned errs)"

definition calm :: "('h, 'e) coord_sys \<Rightarrow> bool" where
  "calm s \<longleftrightarrow> coord_inv s \<and> Panicked \<notin> set (calls s)"

lemma shutdown_work_move:
  assumes "at_call s i x" and "calls t = (calls s)[i := y]" and "hooks (coord t) = hooks (coord s)"
    and "call_work (length (hooks (coord s))) y < call_work (length (hooks (coord s))) x"
  shows "shutdown_work t < shutdown_work s"
  using sum_list_map_update [of i "calls s" "call_work (length (hooks (coord s)))" y] assms
  by (simp add: shutdown_work_def at_call_def)

lemma calm_step_works: "calm_step s t \<Longrightarrow> calm s \<Longrightarrow> shutdown_work t < shutdown_work s"
proof -
  assume a: "calm_step s t" "calm s"
  then have c: "coord_step s t" "calls t \<noteq> calls s" by (simp_all add: calm_step_def)
  from c(1) show ?thesis
  proof cases
    case (Shutdown_first i)
    then show ?thesis using shutdown_work_move [OF Shutdown_first(2), of t "Looping (hooks (coord s)) (length (hooks (coord s))) []"] by (simp add: set_call_def)
  next
    case (Shutdown_later i)
    then show ?thesis using shutdown_work_move [OF Shutdown_later(2), of t WaitFinished] by (simp add: set_call_def)
  next
    case (Hook_returns i hs k errs r)
    then show ?thesis using shutdown_work_move [OF Hook_returns(2), of t "Looping hs k (add_err r errs)"] by (simp add: set_call_def)
  next
    case (Hook_panics i hs k errs)
    then show ?thesis using shutdown_work_move [OF Hook_panics(2), of t Panicked] by (simp add: set_call_def)
  next
    case (Loop_ends i hs errs)
    then show ?thesis using shutdown_work_move [OF Loop_ends(2), of t "Storing errs"] by (simp add: set_call_def)
  next
    case (Store_result i errs)
    then show ?thesis using shutdown_work_move [OF Store_result(2), of t Closing] by (simp add: set_call_def)
  next
    case (Close_finished i f)
    then show ?thesis using shutdown_work_move [OF Close_finished(2), of t "Returned (result (coord s))"] by (simp add: set_call_def)
  next
    case (Close_panics i m)
    then show ?thesis using shutdown_work_move [OF Close_panics(2), of t Panicked] by (simp add: set_call_def)
  next
    case (Wait_returns i f)
    then show ?thesis using shutdown_work_move [OF Wait_returns(2), of t "Returned (result (coord s))"] by (simp add: set_call_def)
  qed (use c(2) in simp_all)
qed

text \<open>A call that is not waiting for another can move without a panic; one that waits is released.\<close>

lemma calm_stepI: "coord_step s t \<Longrightarrow> at_call s i x \<Longrightarrow> calls t = (calls s)[i := y] \<Longrightarrow> y \<noteq> x \<Longrightarrow> y \<noteq> Panicked \<Longrightarrow>
    calm s \<Longrightarrow> \<exists>u. calm_step s u"
  unfolding calm_step_def calm_def at_call_def by (metis in_set_updateD nth_list_update_eq)

lemma mover_moves:
  assumes "calm s" and "at_call s i x" and "x \<noteq> WaitFinished" and "\<nexists>errs. x = Returned errs"
  shows "\<exists>t. calm_step s t"
proof (cases x)
  case NotCalled
  then show ?thesis
    using calm_stepI [OF Shutdown_first [of s i] assms(2)] calm_stepI [OF Shutdown_later [of s i] assms(2)] assms(1,2)
    by (cases "started (coord s)") (auto simp: set_call_def)
next
  case (Looping hs k errs)
  then show ?thesis
    using calm_stepI [OF Loop_ends [of s i hs errs] assms(2)] calm_stepI [OF Hook_returns [of s i hs _ errs None] assms(2)] assms(1,2)
    by (cases k) (auto simp: set_call_def)
next
  case (Storing errs)
  then show ?thesis using calm_stepI [OF Store_result [of s i errs] assms(2)] assms(1,2) by (auto simp: set_call_def)
next
  case Closing
  then have "chan_close (finished (coord s)) = Return ((finished (coord s))\<lparr>chan_closed := True\<rparr>)"
    using only_runner(1) [of s i Closing] assms(1,2) by (simp add: calm_def chan_simps)
  then show ?thesis using calm_stepI [OF Close_finished [of s i] assms(2)] assms(1,2) Closing by (auto simp: set_call_def)
next
  case Panicked
  then show ?thesis using assms(1,2) nth_mem [of i "calls s"] by (auto simp: calm_def at_call_def)
qed (use assms(3,4) in auto)

lemma calm_not_stuck:
  assumes "calm s" and "\<not> all_returned s"
  shows "\<exists>t. calm_step s t"
proof (cases "\<exists>x \<in> set (calls s). x \<noteq> WaitFinished \<and> (\<nexists>errs. x = Returned errs)")
  case True
  then show ?thesis using mover_moves [OF assms(1)] by (metis at_call_def in_set_conv_nth)
next
  case False
  then have z: "sum_list (map runner (calls s)) = 0" by (auto simp: sum_list_eq_0_iff)
  obtain i where i: "at_call s i WaitFinished" using assms(2) False unfolding all_returned_def at_call_def by (metis in_set_conv_nth)
  then have "call_ok s WaitFinished" using at_call_ok [of s i WaitFinished] assms(1) by (simp add: calm_def)
  then have "chan_closed (finished (coord s)) \<and> buf (finished (coord s)) = []"
    using z assms(1) unfolding calm_def coord_inv_def by (metis call_ok.simps(5) zero_neq_one)
  then have "chan_recv (finished (coord s)) = Some (None, finished (coord s))" by (simp add: chan_simps)
  then show ?thesis using calm_stepI [OF Wait_returns [OF i] i] assms(1) by (auto simp: set_call_def)
qed

interpretation shutdown_end: step_progress calm_step calm all_returned shutdown_work
proof unfold_locales
  show "calm t" if "calm_step s t" "calm s" for s t :: "('h, 'e) coord_sys"
    using that coord_step_inv by (auto simp: calm_step_def calm_def)
qed (use calm_not_stuck calm_step_works in blast)+

text \<open>A call that a panicking hook has unwound stays so, and while there is one no call has returned.\<close>

lemma Panicked_stays: "coord_step s t \<Longrightarrow> Panicked \<in> set (calls s) \<Longrightarrow> Panicked \<in> set (calls t)"
proof -
  assume st: "coord_step s t" and "Panicked \<in> set (calls s)"
  then obtain j where j: "j < length (calls s)" "calls s ! j = Panicked" by (metis in_set_conv_nth)
  have "j < length (calls t) \<and> calls t ! j = Panicked"
    using st j by cases (auto simp: set_call_def at_call_def nth_list_update)
  then show ?thesis by (metis nth_mem)
qed

lemma panicking_hook_strands:
  assumes "coord_inv s" and "Panicked \<in> set (calls s)"
  shows "hooks (coord s) \<noteq> [] \<Longrightarrow> length (ran s) < length (hooks (coord s))"
    and "coord_step\<^sup>*\<^sup>* s t \<Longrightarrow> Returned errs \<notin> set (calls t)"
proof -
  have p: "call_ok s Panicked" using assms unfolding coord_inv_def by blast
  then obtain k where k: "k > 0" "map fst (ran s) = rev (drop k (hooks (coord s)))" by auto
  have "length (ran s) = length (hooks (coord s)) - k" using arg_cong [OF k(2), of length] by simp
  with k(1) show "hooks (coord s) \<noteq> [] \<Longrightarrow> length (ran s) < length (hooks (coord s))"
    by (cases "hooks (coord s)") auto
  show "Returned errs \<notin> set (calls t)" if "coord_step\<^sup>*\<^sup>* s t"
  proof -
    have "Panicked \<in> set (calls t)"
      using that assms(2) by (induction rule: rtranclp_induct) (auto dest: Panicked_stays)
    moreover have "coord_inv t" using coord_steps.inv_steps [OF that assms(1)] .
    ultimately show ?thesis unfolding coord_inv_def by fastforce
  qed
qed

section \<open>Properties\<close>

text \<open>
  C21. Hooks run in reverse registration order, each at most once, whatever the interleaving of
  \<open>Register\<close>, \<open>Trigger\<close> and \<open>Shutdown\<close> calls: the hooks that have run are always an initial part of the
  reversed list of registered hooks. When any \<open>Shutdown\<close> call has returned, all hooks have run, and every
  call that returns gives the same result: the errors of exactly the hooks that failed, in that order.
  And every call does return if no hook panics: the steps of the callers end, within the work they have
  left, with all of them returned. A hook that panics strands the coordinator: once it has unwound the
  first call, the hooks registered before it have not run, and no call has returned or ever will.
\<close>

theorem hooks_run_once_in_reverse:
  assumes "coord_start s0" and "coord_step\<^sup>*\<^sup>* s0 s"
  shows "(\<exists>k. map fst (ran s) = take k (rev (hooks (coord s)))) \<and>
    (Returned errs \<in> set (calls s) \<longrightarrow> map fst (ran s) = rev (hooks (coord s)) \<and> errs = errors_of (ran s)) \<and>
    (Panicked \<notin> set (calls s) \<longrightarrow> ends_within calm_step all_returned (shutdown_work s) s) \<and>
    (Panicked \<in> set (calls s) \<longrightarrow> (hooks (coord s) \<noteq> [] \<longrightarrow> length (ran s) < length (hooks (coord s))) \<and>
      (\<forall>t. coord_step\<^sup>*\<^sup>* s t \<longrightarrow> Returned errs \<notin> set (calls t)))"
proof -
  have i: "coord_inv s" using coord_steps.inv_reachable [OF assms] .
  have r: "\<exists>k. map fst (ran s) = rev (drop k (hooks (coord s)))"
  proof (cases "started (coord s) \<and> \<not> chan_closed (finished (coord s))")
    case True
    then have "sum_list (map runner (calls s)) = 1" using i by (simp add: coord_inv_def)
    then obtain x where x: "x \<in> set (calls s)" "runner x \<noteq> 0" by (metis sum_list_eq_0_iff list.set_map imageE zero_neq_one)
    then have "call_ok s x" using i by (simp add: coord_inv_def)
    with x(2) show ?thesis by (cases x) (auto intro: exI [of _ 0])
  next
    case False
    then show ?thesis
      using i by (auto simp: coord_inv_def intro: exI [of _ 0] exI [of _ "length (hooks (coord s))"])
  qed
  then have "\<exists>k. map fst (ran s) = take k (rev (hooks (coord s)))" by (metis rev_drop)
  moreover have "call_ok s (Returned errs)" if "Returned errs \<in> set (calls s)"
    using i that unfolding coord_inv_def by blast
  moreover have "ends_within calm_step all_returned (shutdown_work s) s" if "Panicked \<notin> set (calls s)"
    using shutdown_end.ends [of s] i that by (simp add: calm_def)
  moreover have "(hooks (coord s) \<noteq> [] \<longrightarrow> length (ran s) < length (hooks (coord s))) \<and>
      (\<forall>t. coord_step\<^sup>*\<^sup>* s t \<longrightarrow> Returned errs \<notin> set (calls t))" if "Panicked \<in> set (calls s)"
    using panicking_hook_strands [OF i that] by blast
  ultimately show ?thesis using i by (auto simp: coord_inv_def)
qed

text \<open>Two hooks, the second fails; one caller.\<close>

definition demo_coord :: "bool \<Rightarrow> (nat, nat) coordinator" where
  "demo_coord b = newCoordinator\<lparr>hooks := [1, 2], started := b\<rparr>"

definition demo_state :: "bool \<Rightarrow> (nat, nat) shutdown_call \<Rightarrow> (nat \<times> nat option) list \<Rightarrow> (nat, nat) coord_sys" where
  "demo_state b x log = \<lparr>coord = demo_coord b, calls = [x], ran = log\<rparr>"

definition demo_init :: "(nat, nat) coord_sys" where
  "demo_init = \<lparr>coord = newCoordinator, calls = [NotCalled], ran = []\<rparr>"

lemma demo_registered: "coord_step\<^sup>*\<^sup>* demo_init (demo_state False NotCalled [])"
proof -
  let ?s = "\<lparr>coord = newCoordinator\<lparr>hooks := [1]\<rparr>, calls = [NotCalled], ran = []\<rparr> :: (nat, nat) coord_sys"
  have "coord_step demo_init ?s"
    using Register_ok [of "Some 1" demo_init] by (simp add: demo_init_def register_def newCoordinator_def)
  moreover have "coord_step ?s (demo_state False NotCalled [])"
    using Register_ok [of "Some 2" ?s] by (simp add: register_def newCoordinator_def demo_state_def demo_coord_def)
  ultimately show ?thesis by (meson rtranclp.rtrancl_into_rtrancl rtranclp.rtrancl_refl)
qed

lemma demo_looping: "coord_step\<^sup>*\<^sup>* demo_init (demo_state True (Looping [1, 2] 1 [9]) [(2, Some 9)])"
proof -
  have "coord_step (demo_state False NotCalled []) (demo_state True (Looping [1, 2] 2 []) [])"
    using Shutdown_first [of "demo_state False NotCalled []" 0]
    by (simp add: demo_state_def at_call_def set_call_def demo_coord_def newCoordinator_def numeral_2_eq_2)
  moreover have "coord_step (demo_state True (Looping [1, 2] 2 []) []) (demo_state True (Looping [1, 2] 1 [9]) [(2, Some 9)])"
    using Hook_returns [of "demo_state True (Looping [1, 2] 2 []) []" 0 "[1, 2]" 1 "[]" "Some 9"]
    by (simp add: demo_state_def at_call_def set_call_def add_err_def numeral_2_eq_2)
  ultimately show ?thesis using demo_registered by (meson rtranclp.rtrancl_into_rtrancl)
qed

theorem hooks_run_once_in_reverse_witness:
  "(\<exists>k. map fst (ran (demo_state True (Looping [1, 2] 1 [9]) [(2, Some 9)])) = take k (rev [1, 2])) \<and>
   coord_step (demo_state True (Looping [1, 2] 1 [9]) [(2, Some 9)]) (demo_state True Panicked [(2, Some 9)]) \<and>
   (\<nexists>t. coord_step\<^sup>*\<^sup>* (demo_state True Panicked [(2, Some 9)]) t \<and> Returned [9] \<in> set (calls t))"
proof -
  let ?s = "demo_state True (Looping [1, 2] 1 [9]) [(2, Some 9)]"
  have s: "coord_start demo_init" by (auto simp: coord_start_def demo_init_def intro: exI [of _ 1])
  have p: "coord_step ?s (demo_state True Panicked [(2, Some 9)])"
    using Hook_panics [of ?s 0 "[1, 2]" 0 "[9]"] by (simp add: demo_state_def at_call_def set_call_def)
  with demo_looping have q: "coord_step\<^sup>*\<^sup>* demo_init (demo_state True Panicked [(2, Some 9)])"
    by (meson rtranclp.rtrancl_into_rtrancl)
  have "\<exists>k. map fst (ran ?s) = take k (rev [1, 2])"
    using hooks_run_once_in_reverse [OF s demo_looping] by (simp add: demo_state_def demo_coord_def)
  moreover have "\<forall>t. coord_step\<^sup>*\<^sup>* (demo_state True Panicked [(2, Some 9)]) t \<longrightarrow> Returned [9] \<notin> set (calls t)"
    using hooks_run_once_in_reverse [OF s q, of "[9]"] by (simp add: demo_state_def)
  ultimately show ?thesis using p by blast
qed

end
