(* ===== verification/GoStrings.thy ===== *)
theory GoStrings
  imports GoPrelude "HOL-Library.List_Lexorder" "HOL-Library.Char_ord" "HOL-Library.Product_Lexorder"
begin

text \<open>
  Strings as the standard library handles them: decimal formatting and parsing of integers,
  joining, and the byte-wise order, which is the lexicographic order of the library.
\<close>

section \<open>Decimal numbers\<close>

definition digit_char :: "nat \<Rightarrow> char" where
  "digit_char d = char_of (48 + d)"

definition digit_val :: "char \<Rightarrow> nat" where
  "digit_val c = of_char c - 48"

definition is_digit :: "char \<Rightarrow> bool" where
  "is_digit c \<longleftrightarrow> (48 :: nat) \<le> of_char c \<and> (of_char c :: nat) \<le> 57"

fun format_nat :: "nat \<Rightarrow> string" where
  "format_nat n = (if n < 10 then [digit_char n] else format_nat (n div 10) @ [digit_char (n mod 10)])"

declare format_nat.simps [simp del]

text \<open>\<open>strconv.Itoa\<close> and \<open>strconv.FormatInt\<close> in base 10.\<close>

definition Itoa :: "int \<Rightarrow> string" where
  "Itoa i = (if i < 0 then CHR ''-'' # format_nat (nat (- i)) else format_nat (nat i))"

definition parse_nat :: "string \<Rightarrow> nat" where
  "parse_nat cs = foldl (\<lambda>n c. n * 10 + digit_val c) 0 cs"

lemma digit_val_char [simp]: "d < 10 \<Longrightarrow> digit_val (digit_char d) = d"
  by (simp add: digit_val_def digit_char_def)

lemma is_digit_char [simp]: "d < 10 \<Longrightarrow> is_digit (digit_char d)"
  by (simp add: is_digit_def digit_char_def)

lemma parse_nat_snoc [simp]: "parse_nat (cs @ [c]) = parse_nat cs * 10 + digit_val c"
  by (simp add: parse_nat_def)

lemma parse_format_nat [simp]: "parse_nat (format_nat n) = n"
proof (induction n rule: format_nat.induct)
  case (1 n)
  have "parse_nat [digit_char n] = n" if "n < 10" using that by (simp add: parse_nat_def)
  with 1 show ?case by (simp add: format_nat.simps [of n])
qed

lemma format_nat_digits: "c \<in> set (format_nat n) \<Longrightarrow> is_digit c"
proof (induction n rule: format_nat.induct)
  case (1 n)
  then show ?case by (auto simp: format_nat.simps [of n] split: if_splits)
qed

lemma format_nat_nonempty [simp]: "format_nat n \<noteq> []"
  by (simp add: format_nat.simps [of n])

lemma Itoa_inj: "Itoa i = Itoa j \<longleftrightarrow> i = j"
proof
  assume e: "Itoa i = Itoa j"
  have m: "CHR ''-'' \<notin> set (format_nat n)" for n
    using format_nat_digits [of "CHR ''-''" n] by (auto simp: is_digit_def)
  have p: "format_nat a = format_nat b \<Longrightarrow> a = b" for a b
    using parse_format_nat by metis
  show "i = j"
    using e m [of "nat i"] m [of "nat j"] p [of "nat i" "nat j"] p [of "nat (- i)" "nat (- j)"]
    by (auto simp: Itoa_def split: if_splits) (metis list.set_intros(1))+
qed simp

section \<open>Joining\<close>

text \<open>\<open>strings.Join\<close>.\<close>

fun strings_Join :: "string list \<Rightarrow> string \<Rightarrow> string" where
  "strings_Join [] sep = ''''"
| "strings_Join [x] sep = x"
| "strings_Join (x # y # ys) sep = x @ sep @ strings_Join (y # ys) sep"

end
