(* ===== verification/Metrics.thy ===== *)
theory Metrics
  imports Float64 GoStrings
begin

text \<open>
  The counters of \<open>pkg/metrics\<close>: histogram buckets, the lock-free recording of one series with its
  concurrent scrapes, the registry of series, and the text exposition. Sums are binary64 values; the
  atomic counters are natural numbers (they would wrap after \<open>2 ^ 64\<close> requests).
\<close>

section \<open>Buckets\<close>

definition defBuckets :: "float64 list" where
  "defBuckets = map f64 [5/1000, 1/100, 25/1000, 5/100, 1/10, 25/100, 5/10, 1, 25/10, 5, 10]"

text \<open>\<open>fmt\<close> is \<open>strconv.FormatFloat(x, 'g', -1, 64)\<close>, the shortest decimal that reads back as \<open>x\<close>.\<close>

definition bucketLabels :: "(float64 \<Rightarrow> string) \<Rightarrow> string list" where
  "bucketLabels fmt = map fmt defBuckets @ [''+Inf'']"

fun bucket_scan :: "float64 list \<Rightarrow> nat \<Rightarrow> float64 \<Rightarrow> nat" where
  "bucket_scan [] i seconds = i"
| "bucket_scan (upper # rest) i seconds = (if fle seconds upper then i else bucket_scan rest (Suc i) seconds)"

definition bucketIndex :: "float64 \<Rightarrow> nat" where
  "bucketIndex seconds = bucket_scan defBuckets 0 seconds"

definition n_buckets :: nat where
  "n_buckets = length defBuckets + 1"

section \<open>Series\<close>

record series =
  s_method :: string
  s_code :: string
  buckets :: "nat list"
  sumBits :: float64
  count :: nat

definition new_series :: "string \<Rightarrow> int \<Rightarrow> series" where
  "new_series m c = \<lparr>s_method = m, s_code = Itoa c, buckets = replicate n_buckets 0, sumBits = Fin 0, count = 0\<rparr>"

text \<open>
  One \<open>observe\<close> call: the add to its bucket, the compare-and-swap loop of \<open>addFloat\<close> (load, then swap or
  retry), the add to the counter. Every atomic access is a step.
\<close>

datatype observer = OStart float64 | OLoad float64 | OSwap float64 float64 | OCount float64 | ODone float64

fun obs_value :: "observer \<Rightarrow> float64" where
  "obs_value (OStart v) = v"
| "obs_value (OLoad v) = v"
| "obs_value (OSwap v old) = v"
| "obs_value (OCount v) = v"
| "obs_value (ODone v) = v"

text \<open>
  One series read by \<open>collect\<close>: the sum, then the counter, then the buckets in order, cumulated on
  the way (\<open>acc\<close> holds the cumulative values read so far).
\<close>

datatype scrape = ScStart | ScSum float64 | ScBuckets float64 nat "nat list"

text \<open>\<open>added\<close> logs the values in the order in which their swaps succeeded; no rule reads it.\<close>

record series_sys =
  ser :: series
  observers :: "observer list"
  scrapes :: "scrape list"
  added :: "float64 list"

definition at_obs :: "series_sys \<Rightarrow> nat \<Rightarrow> observer \<Rightarrow> bool" where
  "at_obs s i x \<longleftrightarrow> i < length (observers s) \<and> observers s ! i = x"

definition at_scrape :: "series_sys \<Rightarrow> nat \<Rightarrow> scrape \<Rightarrow> bool" where
  "at_scrape s i x \<longleftrightarrow> i < length (scrapes s) \<and> scrapes s ! i = x"

definition running :: "nat list \<Rightarrow> nat" where
  "running acc = (if acc = [] then 0 else last acc)"

inductive series_step :: "series_sys \<Rightarrow> series_sys \<Rightarrow> bool" where
  Obs_bucket: "at_obs s i (OStart v) \<Longrightarrow> series_step s
    (s\<lparr>ser := (ser s)\<lparr>buckets := (buckets (ser s))[bucketIndex v := buckets (ser s) ! bucketIndex v + 1]\<rparr>,
       observers := (observers s)[i := OLoad v]\<rparr>)"
| Obs_load: "at_obs s i (OLoad v) \<Longrightarrow> series_step s (s\<lparr>observers := (observers s)[i := OSwap v (sumBits (ser s))]\<rparr>)"
| Obs_swap: "at_obs s i (OSwap v old) \<Longrightarrow> sumBits (ser s) = old \<Longrightarrow> series_step s
    (s\<lparr>ser := (ser s)\<lparr>sumBits := fadd old v\<rparr>, observers := (observers s)[i := OCount v], added := added s @ [v]\<rparr>)"
| Obs_retry: "at_obs s i (OSwap v old) \<Longrightarrow> sumBits (ser s) \<noteq> old \<Longrightarrow>
    series_step s (s\<lparr>observers := (observers s)[i := OLoad v]\<rparr>)"
| Obs_count: "at_obs s i (OCount v) \<Longrightarrow> series_step s
    (s\<lparr>ser := (ser s)\<lparr>count := count (ser s) + 1\<rparr>, observers := (observers s)[i := ODone v]\<rparr>)"
| Scrape_sum: "at_scrape s j ScStart \<Longrightarrow> series_step s (s\<lparr>scrapes := (scrapes s)[j := ScSum (sumBits (ser s))]\<rparr>)"
| Scrape_count: "at_scrape s j (ScSum x) \<Longrightarrow>
    series_step s (s\<lparr>scrapes := (scrapes s)[j := ScBuckets x (count (ser s)) []]\<rparr>)"
| Scrape_bucket: "at_scrape s j (ScBuckets x c acc) \<Longrightarrow> length acc < length (buckets (ser s)) \<Longrightarrow> series_step s
    (s\<lparr>scrapes := (scrapes s)[j := ScBuckets x c (acc @ [running acc + buckets (ser s) ! length acc])]\<rparr>)"

definition series_start :: "series_sys \<Rightarrow> bool" where
  "series_start s \<longleftrightarrow> (\<exists>m c vs n. s = \<lparr>ser = new_series m c, observers = map OStart vs,
     scrapes = replicate n ScStart, added = []\<rparr>)"

section \<open>Invariant\<close>

fun in_bucket :: "nat \<Rightarrow> observer \<Rightarrow> nat" where
  "in_bucket b (OStart v) = 0"
| "in_bucket b x = (if bucketIndex (obs_value x) = b then 1 else 0)"

fun counted :: "observer \<Rightarrow> nat" where
  "counted (ODone v) = 1"
| "counted _ = 0"

fun bucketed :: "observer \<Rightarrow> nat" where
  "bucketed (OStart v) = 0"
| "bucketed _ = 1"

fun swapped :: "observer \<Rightarrow> float64 multiset" where
  "swapped (OCount v) = {#v#}"
| "swapped (ODone v) = {#v#}"
| "swapped _ = {#}"

fun scrape_ok :: "nat list \<Rightarrow> scrape \<Rightarrow> bool" where
  "scrape_ok bs (ScBuckets x c acc) \<longleftrightarrow> length acc \<le> length bs \<and> sorted acc \<and>
     c \<le> running acc + sum_list (drop (length acc) bs)"
| "scrape_ok bs _ \<longleftrightarrow> True"

definition series_inv :: "series_sys \<Rightarrow> bool" where
  "series_inv s \<longleftrightarrow> length (buckets (ser s)) = n_buckets \<and>
     (\<forall>b < n_buckets. buckets (ser s) ! b = sum_list (map (in_bucket b) (observers s))) \<and>
     sum_list (buckets (ser s)) = sum_list (map bucketed (observers s)) \<and>
     count (ser s) = sum_list (map counted (observers s)) \<and>
     mset (added s) = sum_list (map swapped (observers s)) \<and>
     sumBits (ser s) = foldl fadd (Fin 0) (added s) \<and>
     (\<forall>x \<in> set (scrapes s). scrape_ok (buckets (ser s)) x)"

lemma bucket_scan_bound: "bucket_scan us i v \<le> i + length us"
proof (induction us arbitrary: i)
  case (Cons u us)
  then show ?case using Cons.IH [of "Suc i"] by simp
qed simp

lemma bucketIndex_less [simp]: "bucketIndex v < n_buckets"
  using bucket_scan_bound [of defBuckets 0 v] by (simp add: bucketIndex_def n_buckets_def)

lemma sum_list_bump:
  fixes xs :: "nat list"
  shows "i < length xs \<Longrightarrow> sum_list (xs[i := xs ! i + 1]) = sum_list xs + 1"
  using sum_list_map_update [of i xs "\<lambda>x. x" "xs ! i + 1"] by simp

lemma drop_bump:
  fixes bs :: "nat list"
  assumes "i < length bs"
  shows "sum_list (drop k bs) \<le> sum_list (drop k (bs[i := bs ! i + 1]))"
proof (cases "k \<le> i")
  case True
  then have "sum_list ((drop k bs)[i - k := drop k bs ! (i - k) + 1]) = sum_list (drop k bs) + 1"
    using assms by (intro sum_list_bump) simp
  then show ?thesis using True assms by (simp add: drop_update_swap)
qed simp

lemma scrape_ok_bump: "i < length bs \<Longrightarrow> scrape_ok bs x \<Longrightarrow> scrape_ok (bs[i := bs ! i + 1]) x"
  using drop_bump [of i bs] by (cases x) (auto intro: order_trans)

lemma scrape_ok_bucket:
  assumes "scrape_ok bs (ScBuckets x c acc)" and "length acc < length bs"
  shows "scrape_ok bs (ScBuckets x c (acc @ [running acc + bs ! length acc]))"
proof -
  have "drop (length acc) bs = bs ! length acc # drop (Suc (length acc)) bs"
    using assms(2) by (rule Cons_nth_drop_Suc [symmetric])
  moreover have "y \<le> running acc" if "y \<in> set acc" "sorted acc" for y
    using that by (induction acc rule: rev_induct) (auto simp: running_def sorted_append)
  ultimately show ?thesis using assms by (auto simp: running_def sorted_append trans_le_add1)
qed

lemma counted_le: "counted x \<le> bucketed x"
  by (cases x) auto

lemma series_step_scrapes: "series_step s t \<Longrightarrow> series_inv s \<Longrightarrow> \<forall>x \<in> set (scrapes t). scrape_ok (buckets (ser t)) x"
proof (induction rule: series_step.induct)
  case (Obs_bucket s i v)
  then show ?case using scrape_ok_bump [of "bucketIndex v" "buckets (ser s)"] by (simp add: series_inv_def)
next
  case (Scrape_count s j x)
  then show ?case
    by (auto simp: series_inv_def running_def counted_le dest!: in_set_updateD intro!: sum_list_mono)
next
  case (Scrape_bucket s j x c acc)
  then have "ScBuckets x c acc \<in> set (scrapes s)" by (metis at_scrape_def nth_mem)
  then have "scrape_ok (buckets (ser s)) (ScBuckets x c acc)"
    using Scrape_bucket.prems by (simp add: series_inv_def del: scrape_ok.simps)
  then show ?case
    using Scrape_bucket scrape_ok_bucket [of "buckets (ser s)" x c acc]
    by (auto simp: series_inv_def simp del: scrape_ok.simps dest!: in_set_updateD)
qed (auto simp: series_inv_def dest!: in_set_updateD)

lemma obs_sum:
  fixes f :: "observer \<Rightarrow> 'a :: comm_monoid_add"
  shows "at_obs s i x \<Longrightarrow> sum_list (map f ((observers s)[i := y])) + f x = sum_list (map f (observers s)) + f y"
  using sum_list_map_update [of i "observers s" f y] by (auto simp: at_obs_def)

lemma obs_sum_same: "at_obs s i x \<Longrightarrow> f x = f y \<Longrightarrow>
    sum_list (map f ((observers s)[i := y])) = sum_list (map (f :: observer \<Rightarrow> nat) (observers s))"
  using obs_sum [of s i x f y] by simp

lemma obs_mset_same: "at_obs s i x \<Longrightarrow> f x = f y \<Longrightarrow>
    sum_list (map f ((observers s)[i := y])) = sum_list (map (f :: observer \<Rightarrow> float64 multiset) (observers s))"
  using obs_sum [of s i x f y] by simp

lemma series_step_inv:
  assumes "series_step s t" and inv: "series_inv s"
  shows "series_inv t"
proof -
  note scr = series_step_scrapes [OF assms]
  from assms(1) show ?thesis
  proof cases
    case (Obs_bucket i v)
    have "sum_list (map (in_bucket b) ((observers s)[i := OLoad v])) =
        sum_list (map (in_bucket b) (observers s)) + (if bucketIndex v = b then 1 else 0)" for b
      using obs_sum [OF Obs_bucket(2), of "in_bucket b" "OLoad v"] by simp
    moreover have "sum_list (map bucketed ((observers s)[i := OLoad v])) = sum_list (map bucketed (observers s)) + 1"
      using obs_sum [OF Obs_bucket(2), of bucketed "OLoad v"] by simp
    ultimately show ?thesis
      using Obs_bucket inv scr sum_list_bump [of "bucketIndex v" "buckets (ser s)"]
      by (auto simp: series_inv_def nth_list_update obs_sum_same [OF Obs_bucket(2)] obs_mset_same [OF Obs_bucket(2)])
  next
    case (Obs_load i v)
    then show ?thesis
      using inv scr by (simp add: series_inv_def obs_sum_same [OF Obs_load(2)] obs_mset_same [OF Obs_load(2)])
  next
    case (Obs_swap i v old)
    have "sum_list (map swapped ((observers s)[i := OCount v])) = add_mset v (sum_list (map swapped (observers s)))"
      using obs_sum [OF Obs_swap(2), of swapped "OCount v"] by simp
    then show ?thesis
      using Obs_swap inv scr by (simp add: series_inv_def obs_sum_same [OF Obs_swap(2)])
  next
    case (Obs_retry i v old)
    then show ?thesis
      using inv scr by (simp add: series_inv_def obs_sum_same [OF Obs_retry(2)] obs_mset_same [OF Obs_retry(2)])
  next
    case (Obs_count i v)
    have "sum_list (map counted ((observers s)[i := ODone v])) = sum_list (map counted (observers s)) + 1"
      using obs_sum [OF Obs_count(2), of counted "ODone v"] by simp
    then show ?thesis
      using Obs_count inv scr
      by (simp add: series_inv_def obs_sum_same [OF Obs_count(2)] obs_mset_same [OF Obs_count(2)])
  qed (use inv scr in \<open>auto simp: series_inv_def\<close>)
qed

lemma series_start_inv: "series_start s \<Longrightarrow> series_inv s"
proof -
  assume "series_start s"
  then obtain m c vs n where s: "s = \<lparr>ser = new_series m c, observers = map OStart vs,
     scrapes = replicate n ScStart, added = []\<rparr>" by (auto simp: series_start_def)
  have "sum_list (map (in_bucket b) (map OStart vs)) = 0" "sum_list (map bucketed (map OStart vs)) = 0"
    "sum_list (map counted (map OStart vs)) = 0" "sum_list (map swapped (map OStart vs)) = {#}" for b
    by (induction vs) auto
  then show ?thesis by (auto simp: s series_inv_def new_series_def sum_list_replicate)
qed

interpretation series_steps: step_invariant series_start series_step series_inv
  by unfold_locales (rule series_start_inv, assumption, rule series_step_inv)

text \<open>The values being recorded never change.\<close>

lemma series_step_values: "series_step s t \<Longrightarrow> map obs_value (observers t) = map obs_value (observers s)"
  by (induction rule: series_step.induct)
    (auto simp: at_obs_def map_update list_update_id [symmetric] simp del: list_update_id
      intro!: list_eq_iff_nth_eq [THEN iffD2] simp: nth_list_update)

lemma series_values: "series_step\<^sup>*\<^sup>* s t \<Longrightarrow> map obs_value (observers t) = map obs_value (observers s)"
  by (induction rule: rtranclp_induct) (auto simp: series_step_values)

section \<open>The registry of series\<close>

text \<open>
  The map of series is an association list with distinct keys; its iteration order, which Go leaves
  open, is the order of the list. \<open>series_observe\<close> is one call of \<open>observe\<close> run without interference.
\<close>

definition knownMethods :: "string list" where
  "knownMethods = [''GET'', ''HEAD'', ''POST'', ''PUT'', ''PATCH'', ''DELETE'', ''CONNECT'', ''OPTIONS'', ''TRACE'']"

definition normalizeMethod :: "string \<Rightarrow> string" where
  "normalizeMethod m = (if m \<in> set knownMethods then m else ''other'')"

type_synonym recorder = "((string \<times> int) \<times> series) list"

definition recorder_New :: recorder where
  "recorder_New = []"

definition series_observe :: "float64 \<Rightarrow> series \<Rightarrow> series" where
  "series_observe seconds s = s\<lparr>buckets := (buckets s)[bucketIndex seconds := buckets s ! bucketIndex seconds + 1],
     sumBits := fadd (sumBits s) seconds, count := count s + 1\<rparr>"

definition newSeries :: "string \<times> int \<Rightarrow> recorder \<Rightarrow> recorder \<times> series" where
  "newSeries key r =
     (case map_of r key of Some s \<Rightarrow> (r, s)
      | None \<Rightarrow> let s = new_series (fst key) (snd key) in (r @ [(key, s)], s))"

definition recorder_observe :: "string \<Rightarrow> int \<Rightarrow> float64 \<Rightarrow> recorder \<Rightarrow> recorder" where
  "recorder_observe m c seconds r =
     (let key = (m, c);
          r' = (case map_of r key of Some s \<Rightarrow> r | None \<Rightarrow> fst (newSeries key r))
      in map (\<lambda>(k, s). (k, if k = key then series_observe seconds s else s)) r')"

section \<open>Exposition\<close>

record snapshot =
  snap_method :: string
  snap_code :: string
  snap_buckets :: "nat list"
  snap_sum :: float64
  snap_count :: nat

text \<open>A series read by a scrape that nothing interferes with.\<close>

fun cumulate :: "nat \<Rightarrow> nat list \<Rightarrow> nat list" where
  "cumulate r [] = []"
| "cumulate r (b # bs) = (r + b) # cumulate (r + b) bs"

definition snap :: "series \<Rightarrow> snapshot" where
  "snap s = \<lparr>snap_method = s_method s, snap_code = s_code s, snap_buckets = cumulate 0 (buckets s),
     snap_sum = sumBits s, snap_count = count s\<rparr>"

definition collect :: "recorder \<Rightarrow> snapshot list" where
  "collect r = sort_key (\<lambda>s. (snap_code s, snap_method s)) (map (\<lambda>(k, s). snap s) r)"

definition counterName :: string where "counterName = ''http_requests_total''"

definition counterHelp :: string where
  "counterHelp = ''Total number of HTTP requests, by method and response status code.''"

definition durationName :: string where "durationName = ''http_request_duration_seconds''"

definition durationHelp :: string where
  "durationHelp = ''HTTP request latency in seconds, by method and response status code.''"

definition newline :: string where "newline = [CHR 0x0A]"

definition quote :: string where "quote = [CHR 0x22]"

definition labels_open :: "snapshot \<Rightarrow> string" where
  "labels_open s = ''{code='' @ quote @ snap_code s @ quote @ '',method='' @ quote @ snap_method s @ quote"

definition appendLabels :: "snapshot \<Rightarrow> string" where
  "appendLabels s = labels_open s @ ''} ''"

definition bucket_line :: "snapshot \<Rightarrow> string \<Rightarrow> nat \<Rightarrow> string" where
  "bucket_line s label cumulative =
     durationName @ ''_bucket'' @ labels_open s @ '',le='' @ quote @ label @ quote @ ''} '' @ format_nat cumulative @ newline"

definition histogram_lines :: "(float64 \<Rightarrow> string) \<Rightarrow> snapshot \<Rightarrow> string" where
  "histogram_lines fmt s =
     concat (map (\<lambda>(label, c). bucket_line s label c) (zip (bucketLabels fmt) (snap_buckets s))) @
     durationName @ ''_sum'' @ appendLabels s @ fmt (snap_sum s) @ newline @
     durationName @ ''_count'' @ appendLabels s @ format_nat (snap_count s) @ newline"

definition counter_line :: "snapshot \<Rightarrow> string" where
  "counter_line s = counterName @ appendLabels s @ format_nat (snap_count s) @ newline"

definition appendExposition :: "(float64 \<Rightarrow> string) \<Rightarrow> recorder \<Rightarrow> string \<Rightarrow> string" where
  "appendExposition fmt r buf =
     (let snaps = collect r
      in if snaps = [] then buf
         else buf @
           ''# HELP '' @ durationName @ '' '' @ durationHelp @ newline @
           ''# TYPE '' @ durationName @ '' histogram'' @ newline @
           concat (map (histogram_lines fmt) snaps) @
           ''# HELP '' @ counterName @ '' '' @ counterHelp @ newline @
           ''# TYPE '' @ counterName @ '' counter'' @ newline @
           concat (map counter_line snaps))"

text \<open>Well-formed registries: distinct keys, each series labelled by its key.\<close>

definition recorder_inv :: "recorder \<Rightarrow> bool" where
  "recorder_inv r \<longleftrightarrow> distinct (map fst r) \<and>
     (\<forall>((m, c), s) \<in> set r. s_method s = m \<and> s_code s = Itoa c \<and> length (buckets s) = n_buckets \<and>
        count s = sum_list (buckets s))"

lemma recorder_observe_keys: "set (map fst (recorder_observe m c v r)) = insert (m, c) (set (map fst r))"
proof -
  have k: "map fst (map (\<lambda>(k, s). (k, f k s)) r') = map fst r'" for f :: "string \<times> int \<Rightarrow> series \<Rightarrow> series" and r'
    by (induction r') auto
  show ?thesis
  proof (cases "map_of r (m, c)")
    case None
    then show ?thesis unfolding recorder_observe_def Let_def k by (simp add: newSeries_def Let_def)
  next
    case (Some s)
    then have "(m, c) \<in> set (map fst r)" using map_of_SomeD [OF Some] by force
    then show ?thesis unfolding recorder_observe_def Let_def k using Some by auto
  qed
qed

lemma series_observe_inv: "length (buckets s) = n_buckets \<Longrightarrow> count s = sum_list (buckets s) \<Longrightarrow>
    length (buckets (series_observe v s)) = n_buckets \<and> count (series_observe v s) = sum_list (buckets (series_observe v s)) \<and>
    s_method (series_observe v s) = s_method s \<and> s_code (series_observe v s) = s_code s"
  using sum_list_bump [of "bucketIndex v" "buckets s"] by (simp add: series_observe_def)

lemma recorder_observe_inv:
  assumes "recorder_inv r"
  shows "recorder_inv (recorder_observe m c v r)"
proof -
  define r' where "r' = (case map_of r (m, c) of Some s \<Rightarrow> r | None \<Rightarrow> fst (newSeries (m, c) r))"
  have "recorder_inv r'"
    using assms
    by (auto simp: r'_def recorder_inv_def newSeries_def Let_def new_series_def sum_list_replicate
        map_of_eq_None_iff split: option.splits)
  then have "recorder_inv (map (\<lambda>(k, s). (k, if k = (m, c) then series_observe v s else s)) r')"
    using series_observe_inv by (fastforce simp: recorder_inv_def split_def comp_def)
  then show ?thesis by (simp add: recorder_observe_def r'_def Let_def)
qed

lemma snap_key_inj:
  assumes "recorder_inv r"
  shows "distinct (map (\<lambda>s. (snap_code s, snap_method s)) (map (\<lambda>(k, s). snap s) r))"
proof -
  have "map (\<lambda>s. (snap_code s, snap_method s)) (map (\<lambda>(k, s). snap s) r) = map (\<lambda>(m, c). (Itoa c, m)) (map fst r)"
    using assms by (auto simp: recorder_inv_def snap_def)
  moreover have "inj (\<lambda>(m :: string, c). (Itoa c, m))" by (auto simp: inj_def Itoa_inj)
  then have "distinct (map (\<lambda>(m, c). (Itoa c, m)) (map fst r))"
    using assms inj_on_subset [of _ UNIV]
    by (subst distinct_map) (auto simp: recorder_inv_def simp del: map_map)
  ultimately show ?thesis by (simp only:)
qed

lemma collect_perm:
  assumes "recorder_inv r" and "mset r = mset r'"
  shows "collect r = collect r'"
  unfolding collect_def
proof (rule sort_key_inj_key_eq)
  let ?f = "\<lambda>s. (snap_code s, snap_method s)"
  have "mset (map (\<lambda>(k, s). snap s) r) = mset (map (\<lambda>(k, s). snap s) r')" using assms(2) by simp
  then show "mset (map (\<lambda>(k, s). snap s) r) = mset (sort_key ?f (map (\<lambda>(k, s). snap s) r'))" by simp
  show "inj_on ?f (set (map (\<lambda>(k, s). snap s) r))" using snap_key_inj [OF assms(1)] by (metis distinct_map)
qed simp

lemma collect_sorted:
  assumes "recorder_inv r"
  shows "sorted_wrt (<) (map (\<lambda>s. (snap_code s, snap_method s)) (collect r))"
proof -
  let ?f = "\<lambda>s. (snap_code s, snap_method s)"
  have "mset (map ?f (collect r)) = mset (map ?f (map (\<lambda>(k, s). snap s) r))"
    by (simp only: collect_def mset_map mset_sort)
  from mset_eq_imp_distinct_iff [OF this] have "distinct (map ?f (collect r))" using snap_key_inj [OF assms] by blast
  moreover have "sorted (map ?f (collect r))" by (simp add: collect_def)
  ultimately show ?thesis by (simp add: strict_sorted_iff)
qed

section \<open>A run\<close>

text \<open>A scrape that nothing interferes with reads the cumulated buckets.\<close>

lemma scrape_completes:
  assumes "at_scrape s j (ScBuckets x c acc)" and "length acc + length bs = length (buckets (ser s))"
    and "bs = drop (length acc) (buckets (ser s))"
  shows "series_step\<^sup>*\<^sup>* s (s\<lparr>scrapes := (scrapes s)[j := ScBuckets x c (acc @ cumulate (running acc) bs)]\<rparr>)"
  using assms
proof (induction bs arbitrary: s acc)
  case Nil
  then have "(scrapes s)[j := ScBuckets x c acc] = scrapes s" by (metis at_scrape_def list_update_id)
  then show ?case by simp
next
  case (Cons b bs)
  let ?t = "s\<lparr>scrapes := (scrapes s)[j := ScBuckets x c (acc @ [running acc + b])]\<rparr>"
  have l: "length acc < length (buckets (ser s))" using Cons.prems(2) by simp
  then have b: "b = buckets (ser s) ! length acc" "bs = drop (Suc (length acc)) (buckets (ser s))"
    using Cons.prems(3) Cons_nth_drop_Suc [OF l] by (metis list.inject)+
  have "series_step s ?t" using Scrape_bucket [OF Cons.prems(1) l] b(1) by simp
  moreover have "running (acc @ [running acc + b]) = running acc + b" by (simp add: running_def)
  then have "series_step\<^sup>*\<^sup>* ?t (s\<lparr>scrapes := (scrapes s)[j := ScBuckets x c (acc @ cumulate (running acc) (b # bs))]\<rparr>)"
    using Cons.IH [of ?t "acc @ [running acc + b]"] Cons.prems(1,2) b(2) by (simp add: at_scrape_def)
  ultimately show ?case by (rule converse_rtranclp_into_rtranclp)
qed

text \<open>
  One observation of one second and one scrape: the scrape loads the sum, the observation runs to its
  end, and the scrape goes on.
\<close>

definition demo_series :: "nat \<Rightarrow> float64 \<Rightarrow> nat \<Rightarrow> series" where
  "demo_series b x c = \<lparr>s_method = ''GET'', s_code = Itoa 200, buckets = [0, 0, 0, 0, 0, 0, 0, b, 0, 0, 0, 0],
     sumBits = x, count = c\<rparr>"

definition demo_sys :: "series \<Rightarrow> observer \<Rightarrow> scrape \<Rightarrow> float64 list \<Rightarrow> series_sys" where
  "demo_sys r x y lg = \<lparr>ser = r, observers = [x], scrapes = [y], added = lg\<rparr>"

lemma demo_facts: "bucketIndex (Fin 1) = 7" "n_buckets = 12" "fadd (Fin 0) (Fin 1) = Fin 1"
  by code_simp+

definition demo_start :: series_sys where
  "demo_start = demo_sys (demo_series 0 (Fin 0) 0) (OStart (Fin 1)) ScStart []"

definition demo_end :: series_sys where
  "demo_end = demo_sys (demo_series 1 (Fin 1) 1) (ODone (Fin 1)) (ScBuckets (Fin 0) 1 [0, 0, 0, 0, 0, 0, 0, 1, 1, 1, 1, 1]) [Fin 1]"

lemma demo_start_new: "demo_start = \<lparr>ser = new_series ''GET'' 200, observers = map OStart [Fin 1],
    scrapes = replicate 1 ScStart, added = []\<rparr>"
  by (simp add: demo_start_def demo_sys_def demo_series_def new_series_def demo_facts numeral_eq_Suc)

lemma series_demo_run: "series_step\<^sup>*\<^sup>* demo_start demo_end"
proof -
  let ?a = "demo_series 0 (Fin 0) 0" and ?b = "demo_series 1 (Fin 0) 0" and ?v = "Fin 1"
  let ?c = "demo_series 1 (Fin 1) 0" and ?d = "demo_series 1 (Fin 1) 1" and ?x = "Fin 0"
  have n: "[0, 0, 0, 0, 0, 0, 0, 0, 0, 0, 0, 0 :: nat][7 := Suc 0] = [0, 0, 0, 0, 0, 0, 0, Suc 0, 0, 0, 0, 0]"
    by (simp add: numeral_eq_Suc)
  note d = demo_sys_def demo_series_def at_obs_def at_scrape_def
  have "series_step demo_start (demo_sys ?a (OStart ?v) (ScSum ?x) [])"
    using Scrape_sum [of demo_start 0] by (simp add: demo_start_def d)
  moreover have "series_step (demo_sys ?a (OStart ?v) (ScSum ?x) []) (demo_sys ?b (OLoad ?v) (ScSum ?x) [])"
    using Obs_bucket [of "demo_sys ?a (OStart ?v) (ScSum ?x) []" 0 ?v] by (simp add: d demo_facts n)
  moreover have "series_step (demo_sys ?b (OLoad ?v) (ScSum ?x) []) (demo_sys ?b (OSwap ?v ?x) (ScSum ?x) [])"
    using Obs_load [of "demo_sys ?b (OLoad ?v) (ScSum ?x) []" 0 ?v] by (simp add: d)
  moreover have "series_step (demo_sys ?b (OSwap ?v ?x) (ScSum ?x) []) (demo_sys ?c (OCount ?v) (ScSum ?x) [?v])"
    using Obs_swap [of "demo_sys ?b (OSwap ?v ?x) (ScSum ?x) []" 0 ?v ?x] by (simp add: d demo_facts del: fadd.simps)
  moreover have "series_step (demo_sys ?c (OCount ?v) (ScSum ?x) [?v]) (demo_sys ?d (ODone ?v) (ScSum ?x) [?v])"
    using Obs_count [of "demo_sys ?c (OCount ?v) (ScSum ?x) [?v]" 0 ?v] by (simp add: d)
  moreover have "series_step (demo_sys ?d (ODone ?v) (ScSum ?x) [?v]) (demo_sys ?d (ODone ?v) (ScBuckets ?x 1 []) [?v])"
    using Scrape_count [of "demo_sys ?d (ODone ?v) (ScSum ?x) [?v]" 0 ?x] by (simp add: d)
  moreover have "series_step\<^sup>*\<^sup>* (demo_sys ?d (ODone ?v) (ScBuckets ?x 1 []) [?v]) demo_end"
    using scrape_completes [of "demo_sys ?d (ODone ?v) (ScBuckets ?x 1 []) [?v]" 0 ?x 1 "[]" "buckets ?d"]
    by (simp add: d demo_end_def running_def)
  ultimately show ?thesis by (meson converse_rtranclp_into_rtranclp)
qed

lemma demo_start_ok: "series_start demo_start"
  unfolding series_start_def demo_start_new by blast

section \<open>Properties\<close>

text \<open>
  C23. Whatever observations run concurrently, a completed scrape of a series is a histogram: the
  cumulative buckets never decrease and the last one, \<open>+Inf\<close>, is at least the count that was read.
\<close>

theorem scrape_is_histogram:
  assumes "series_start s0" and "series_step\<^sup>*\<^sup>* s0 s" and "ScBuckets x c acc \<in> set (scrapes s)"
    and "length acc = n_buckets"
  shows "sorted acc \<and> c \<le> last acc"
proof -
  have i: "series_inv s" using series_steps.inv_reachable [OF assms(1,2)] .
  then have "scrape_ok (buckets (ser s)) (ScBuckets x c acc)" "length (buckets (ser s)) = n_buckets"
    using assms(3) unfolding series_inv_def by blast+
  then show ?thesis using assms(4) by (auto simp: running_def n_buckets_def split: if_splits)
qed

theorem scrape_is_histogram_witness:
  "sorted [0 :: nat, 0, 0, 0, 0, 0, 0, 1, 1, 1, 1, 1] \<and> (1 :: nat) \<le> last [0, 0, 0, 0, 0, 0, 0, 1, 1, 1, 1, 1]"
  by (rule scrape_is_histogram [OF demo_start_ok series_demo_run, of "Fin 0"])
    (simp_all add: demo_end_def demo_sys_def demo_facts)

text \<open>
  C24. No observation is lost: when every concurrent \<open>observe\<close> has returned, the counter is the number
  of observations, bucket \<open>b\<close> the number of those whose index is \<open>b\<close>, and the sum is the binary64 sum of
  all their values, added in the order in which the swaps succeeded.
\<close>

theorem observations_counted:
  assumes "series_step\<^sup>*\<^sup>* \<lparr>ser = new_series m k, observers = map OStart vs, scrapes = replicate n ScStart, added = []\<rparr> s"
    and "\<forall>x \<in> set (observers s). \<exists>v. x = ODone v"
  shows "count (ser s) = length vs \<and> sum_list (buckets (ser s)) = length vs \<and>
    (\<forall>b < n_buckets. buckets (ser s) ! b = length (filter (\<lambda>v. bucketIndex v = b) vs)) \<and>
    mset (added s) = mset vs \<and> sumBits (ser s) = foldl fadd (Fin 0) (added s)"
proof -
  have i: "series_inv s"
    by (rule series_steps.inv_reachable [OF _ assms(1)]) (auto simp: series_start_def)
  have v: "map obs_value (observers s) = vs" using series_values [OF assms(1)] by (simp add: comp_def)
  have "observers s = map ODone (map obs_value (observers s))"
    using assms(2) by (auto intro!: map_idI [symmetric])
  then have o: "observers s = map ODone vs" using v by simp
  have "sum_list (map (in_bucket b) (map ODone vs)) = length (filter (\<lambda>v. bucketIndex v = b) vs)"
    "sum_list (map bucketed (map ODone vs)) = length vs" "sum_list (map counted (map ODone vs)) = length vs"
    "sum_list (map swapped (map ODone vs)) = mset vs" for b
    by (induction vs) auto
  then show ?thesis using i o unfolding series_inv_def by metis
qed

theorem observations_counted_witness:
  "count (ser demo_end) = 1 \<and> buckets (ser demo_end) ! 7 = 1 \<and> sumBits (ser demo_end) = foldl fadd (Fin 0) (added demo_end)"
proof -
  have "\<forall>x \<in> set (observers demo_end). \<exists>v. x = ODone v" by (simp add: demo_end_def demo_sys_def)
  from observations_counted [OF series_demo_run [unfolded demo_start_new] this] show ?thesis
    by (simp add: demo_facts)
qed

text \<open>
  The count of a scrape can be ahead of its sum: there is a run of one observation of one second
  and one scrape after which the scrape has read the sum 0 together with the count 1, although the
  counter is incremented after the sum.
\<close>

theorem scraped_count_ahead_of_sum:
  "\<exists>s0 s acc. series_start s0 \<and> series_step\<^sup>*\<^sup>* s0 s \<and> map obs_value (observers s0) = [Fin 1] \<and>
     ScBuckets (Fin 0) 1 acc \<in> set (scrapes s) \<and> length acc = n_buckets"
proof (intro exI conjI)
  show "series_start demo_start" "series_step\<^sup>*\<^sup>* demo_start demo_end" by (fact demo_start_ok, fact series_demo_run)
  show "map obs_value (observers demo_start) = [Fin 1]" by (simp add: demo_start_def demo_sys_def)
  show "ScBuckets (Fin 0) 1 [0, 0, 0, 0, 0, 0, 0, 1, 1, 1, 1, 1] \<in> set (scrapes demo_end)"
    by (simp add: demo_end_def demo_sys_def)
qed (simp add: demo_facts)

text \<open>
  C26. The exposition does not depend on the iteration order of the map of series: registries with
  the same series give the same text. A registry without series gives no text, and the series appear
  strictly ordered by status code and method, so that no label pair occurs twice.
\<close>

theorem exposition_deterministic:
  assumes "recorder_inv r" and "mset r = mset r'"
  shows "appendExposition fmt r buf = appendExposition fmt r' buf \<and>
    (r = [] \<longrightarrow> appendExposition fmt r buf = buf) \<and>
    sorted_wrt (<) (map (\<lambda>s. (snap_code s, snap_method s)) (collect r))"
  using collect_perm [OF assms] collect_sorted [OF assms(1)]
  by (simp add: appendExposition_def) (simp add: collect_def)

definition demo_recorder :: recorder where
  "demo_recorder = recorder_observe ''GET'' 404 (Fin 1) (recorder_observe ''GET'' 200 (Fin 1) recorder_New)"

lemma recorder_New_inv: "recorder_inv recorder_New"
  by (simp add: recorder_inv_def recorder_New_def)

theorem exposition_deterministic_witness:
  "appendExposition (\<lambda>_. ''0.5'') demo_recorder [] = appendExposition (\<lambda>_. ''0.5'') (rev demo_recorder) []"
proof -
  have "recorder_inv demo_recorder"
    unfolding demo_recorder_def by (intro recorder_observe_inv recorder_New_inv)
  then show ?thesis using exposition_deterministic [of demo_recorder "rev demo_recorder"] by simp
qed

text \<open>
  C27. Label cardinality is bounded: whatever methods clients send, a recorder fed with normalized
  methods and status codes from 100 to 999 holds at most 9000 series, and every one of them counts as
  many observations as its buckets.
\<close>

theorem cardinality_bounded:
  assumes "\<forall>(m, c, v) \<in> set reqs. 100 \<le> c \<and> c \<le> 999"
  shows "length (fold (\<lambda>(m, c, v). recorder_observe (normalizeMethod m) c v) reqs recorder_New) \<le> 9000 \<and>
    recorder_inv (fold (\<lambda>(m, c, v). recorder_observe (normalizeMethod m) c v) reqs recorder_New)"
proof -
  define K where "K = set (''other'' # knownMethods) \<times> {100..999 :: int}"
  have K: "card K = 9000" "finite K" by (simp_all add: K_def card_cartesian_product knownMethods_def)
  let ?P = "\<lambda>r. recorder_inv r \<and> set (map fst r) \<subseteq> K"
  have "?P (fold (\<lambda>(m, c, v). recorder_observe (normalizeMethod m) c v) reqs r)" if "?P r" for r
    using assms that
  proof (induction reqs arbitrary: r)
    case (Cons q reqs)
    obtain m c v where q: "q = (m, c, v)" by (cases q) auto
    have "normalizeMethod m \<in> set (''other'' # knownMethods)" by (simp add: normalizeMethod_def)
    then have "?P (recorder_observe (normalizeMethod m) c v r)"
      using Cons.prems q recorder_observe_inv [of r] recorder_observe_keys [of "normalizeMethod m" c v r]
      by (auto simp: K_def)
    then show ?case using Cons.IH [of "recorder_observe (normalizeMethod m) c v r"] Cons.prems q by simp
  qed simp
  from this [of recorder_New] have r: "?P (fold (\<lambda>(m, c, v). recorder_observe (normalizeMethod m) c v) reqs recorder_New)"
    using recorder_New_inv by (simp add: recorder_New_def)
  have l: "length r \<le> 9000" if "?P r" for r
    using distinct_card [of "map fst r"] card_mono [OF K(2), of "set (map fst r)"] that K(1)
    by (simp add: recorder_inv_def)
  show ?thesis using r l [OF r] by blast
qed

theorem cardinality_bounded_witness:
  "length (fold (\<lambda>(m, c, v). recorder_observe (normalizeMethod m) c v)
     [(''GET'', 200, Fin 1), (''BREW'', 404, Fin 1)] recorder_New) \<le> 9000"
proof -
  have "\<forall>(m, c, v) \<in> set [(''GET'', 200, Fin 1), (''BREW'', 404, Fin 1)]. 100 \<le> (c :: int) \<and> c \<le> 999" by simp
  from cardinality_bounded [OF this] show ?thesis by (rule conjunct1)
qed

end
