(* ===== verification/Http.thy ===== *)
theory Http
  imports Float64 GoStrings
begin

text \<open>
  What the middleware uses of \<open>net/http\<close>. A handler is given by the calls it makes on its response
  writer for a request and by how it ends: it returns or panics. A \<open>Write\<close> carries the number of bytes
  the writer accepted. Handlers of the model decide on their calls from the request alone. A decorator
  maps handlers to handlers; the log records and metric observations it makes are part of the outcome.
\<close>

section \<open>Headers and requests\<close>

text \<open>
  Header names are compared as written: every name in the sources is in canonical form.
\<close>

type_synonym header = "string \<Rightarrow> string list"

definition header_Get :: "header \<Rightarrow> string \<Rightarrow> string" where
  "header_Get h k = (case h k of [] \<Rightarrow> '''' | v # _ \<Rightarrow> v)"

record request =
  req_method :: string
  url_path :: string
  req_header :: header
  ctx_request_id :: "string option"

section \<open>Handlers\<close>

datatype hcall = HSet string string | HAdd string string | HDel string | WriteHeader int | Write string nat

datatype panic_value = ErrAbortHandler | OtherPanic string

datatype log_level = LevelInfo | LevelWarn | LevelError

text \<open>Levels are ordered by severity, the number \<open>log/slog\<close> gives them.\<close>

fun severity :: "log_level \<Rightarrow> int" where
  "severity LevelInfo = 0"
| "severity LevelWarn = 4"
| "severity LevelError = 8"

lemma severity_inj [simp]: "severity l = severity m \<longleftrightarrow> l = m"
  by (cases l; cases m) simp_all

instantiation log_level :: linorder
begin

definition less_eq_log_level :: "log_level \<Rightarrow> log_level \<Rightarrow> bool" where
  "less_eq_log_level l m \<longleftrightarrow> severity l \<le> severity m"

definition less_log_level :: "log_level \<Rightarrow> log_level \<Rightarrow> bool" where
  "less_log_level l m \<longleftrightarrow> severity l < severity m"

instance
  by standard (auto simp: less_eq_log_level_def less_log_level_def dest: order.antisym)

end

datatype attr = AStr string string | AInt string int

datatype effect = LogRecord log_level string "attr list" | Observe string int float64

record outcome =
  calls :: "hcall list"
  panic_with :: "panic_value option"
  effects :: "effect list"

type_synonym handler = "request \<Rightarrow> outcome"

section \<open>The response\<close>

record response =
  hdr :: header
  sent :: "(int \<times> header) option"
  informational :: "int list"
  body :: string

definition fresh_response :: response where
  "fresh_response = \<lparr>hdr = (\<lambda>_. []), sent = None, informational = [], body = []\<rparr>"

definition valid_code :: "int \<Rightarrow> bool" where
  "valid_code c \<longleftrightarrow> 100 \<le> c \<and> c \<le> 999"

definition informational_code :: "int \<Rightarrow> bool" where
  "informational_code c \<longleftrightarrow> 100 \<le> c \<and> c \<le> 199 \<and> c \<noteq> 101"

definition body_allowed :: "int \<Rightarrow> bool" where
  "body_allowed c \<longleftrightarrow> \<not> (100 \<le> c \<and> c \<le> 199) \<and> c \<noteq> 204 \<and> c \<noteq> 304"

text \<open>
  The server's response writer: the first final status freezes the headers; informational statuses go
  out at once and leave it open; a second final status is ignored; a status outside 100 to 999 panics
  and has no effect; writing implies 200.
\<close>

definition send_status :: "int \<Rightarrow> response \<Rightarrow> response" where
  "send_status c r =
     (if sent r \<noteq> None then r
      else if informational_code c then r\<lparr>informational := informational r @ [c]\<rparr>
      else if valid_code c then r\<lparr>sent := Some (c, hdr r)\<rparr>
      else r)"

fun rw_call :: "hcall \<Rightarrow> response \<Rightarrow> response" where
  "rw_call (HSet k v) r = r\<lparr>hdr := (hdr r)(k := [v])\<rparr>"
| "rw_call (HAdd k v) r = r\<lparr>hdr := (hdr r)(k := hdr r k @ [v])\<rparr>"
| "rw_call (HDel k) r = r\<lparr>hdr := (hdr r)(k := [])\<rparr>"
| "rw_call (WriteHeader c) r = send_status c r"
| "rw_call (Write b n) r =
     (let r' = send_status 200 r
      in case sent r' of
           Some (c, h) \<Rightarrow> if body_allowed c then r'\<lparr>body := body r' @ b\<rparr> else r'
         | None \<Rightarrow> r')"

text \<open>What the client receives: a handler that returns without a status answers 200.\<close>

definition serve :: "hcall list \<Rightarrow> response" where
  "serve cs = send_status 200 (fold rw_call cs fresh_response)"

definition status_of :: "hcall list \<Rightarrow> int" where
  "status_of cs = (case sent (serve cs) of Some (c, h) \<Rightarrow> c | None \<Rightarrow> 0)"

definition header_of :: "hcall list \<Rightarrow> header" where
  "header_of cs = (case sent (serve cs) of Some (c, h) \<Rightarrow> h | None \<Rightarrow> (\<lambda>_. []))"

text \<open>
  A possible outcome of a handler: \<open>WriteHeader\<close> with an invalid status panics, so it can only be the
  last call of a handler that panics.
\<close>

definition possible :: "outcome \<Rightarrow> bool" where
  "possible out \<longleftrightarrow> (\<forall>c. WriteHeader c \<in> set (butlast (calls out)) \<longrightarrow> valid_code c) \<and>
     (\<forall>c. calls out \<noteq> [] \<longrightarrow> last (calls out) = WriteHeader c \<longrightarrow> valid_code c \<or> panic_with out \<noteq> None)"

text \<open>\<open>http.Error\<close>.\<close>

definition http_Error :: "string \<Rightarrow> int \<Rightarrow> hcall list" where
  "http_Error msg c =
     [HDel ''Content-Length'', HSet ''Content-Type'' ''text/plain; charset=utf-8'',
      HSet ''X-Content-Type-Options'' ''nosniff'', WriteHeader c,
      Write (msg @ [CHR 0x0A]) (length msg + 1)]"

section \<open>Status and header calls\<close>

definition header_call :: "hcall \<Rightarrow> bool" where
  "header_call c = (case c of WriteHeader _ \<Rightarrow> False | Write _ _ \<Rightarrow> False | _ \<Rightarrow> True)"

lemma sent_stable: "sent r = Some x \<Longrightarrow> sent (rw_call c r) = Some x"
  by (cases c) (auto simp: send_status_def Let_def split: option.splits prod.splits)

lemma sent_stable_fold: "sent r = Some x \<Longrightarrow> sent (fold rw_call cs r) = Some x"
  by (induction cs arbitrary: r) (auto simp: sent_stable)

lemma send_status_open [simp]: "sent r = None \<Longrightarrow> \<not> informational_code c \<Longrightarrow> valid_code c \<Longrightarrow>
    send_status c r = r\<lparr>sent := Some (c, hdr r)\<rparr>"
  by (simp add: send_status_def)

lemma send_status_sent [simp]: "sent r \<noteq> None \<Longrightarrow> send_status c r = r"
  by (simp add: send_status_def)

lemma codes [simp]: "valid_code 200" "\<not> informational_code 200" "valid_code 500" "\<not> informational_code 500"
  "valid_code 204" "\<not> informational_code 204" "valid_code 429" "\<not> informational_code 429"
  "body_allowed 500" "body_allowed 200" "body_allowed 429" "\<not> body_allowed 204"
  by (simp_all add: valid_code_def informational_code_def body_allowed_def)

lemma header_calls_open: "list_all header_call cs \<Longrightarrow>
    sent (fold rw_call cs r) = sent r \<and> informational (fold rw_call cs r) = informational r \<and>
    body (fold rw_call cs r) = body r"
proof (induction cs arbitrary: r)
  case (Cons c cs)
  then show ?case by (cases c) (auto simp: header_call_def)
qed simp

text \<open>A header that no later call touches is sent as the earlier header calls left it.\<close>

definition touches :: "string \<Rightarrow> hcall \<Rightarrow> bool" where
  "touches k c = (case c of HSet k' v \<Rightarrow> k' = k | HAdd k' v \<Rightarrow> k' = k | HDel k' \<Rightarrow> k' = k | _ \<Rightarrow> False)"

definition header_fixed :: "string \<Rightarrow> string list \<Rightarrow> response \<Rightarrow> bool" where
  "header_fixed k vs r \<longleftrightarrow> hdr r k = vs \<and> (case sent r of Some (c, h) \<Rightarrow> h k = vs | None \<Rightarrow> True)"

lemma header_fixed_send: "header_fixed k vs r \<Longrightarrow> header_fixed k vs (send_status c r)"
  by (auto simp: header_fixed_def send_status_def split: option.splits)

lemma header_fixed_call:
  assumes "header_fixed k vs r" and "\<not> touches k c"
  shows "header_fixed k vs (rw_call c r)"
proof (cases c)
  case (Write b n)
  have "header_fixed k vs (send_status 200 r)" using assms(1) by (rule header_fixed_send)
  then show ?thesis by (auto simp: Write Let_def header_fixed_def split: option.splits)
next
  case (WriteHeader s)
  then show ?thesis using header_fixed_send [OF assms(1)] by simp
qed (use assms in \<open>auto simp: header_fixed_def touches_def\<close>)

lemma header_fixed_calls: "header_fixed k vs r \<Longrightarrow> list_all (\<lambda>c. \<not> touches k c) cs \<Longrightarrow> header_fixed k vs (fold rw_call cs r)"
  by (induction cs arbitrary: r) (auto intro: header_fixed_call)

lemma serve_sent: "\<exists>c h. sent (serve cs) = Some (c, h)"
  by (cases "sent (fold rw_call cs fresh_response)") (auto simp: serve_def)

lemma header_of_untouched:
  assumes "list_all header_call pre" and "list_all (\<lambda>c. \<not> touches k c) cs"
  shows "header_of (pre @ cs) k = hdr (fold rw_call pre fresh_response) k"
proof -
  let ?r = "fold rw_call pre fresh_response"
  have "header_fixed k (hdr ?r k) ?r"
    using header_calls_open [OF assms(1), of fresh_response] by (simp add: header_fixed_def fresh_response_def)
  then have "header_fixed k (hdr ?r k) (serve (pre @ cs))"
    using assms(2) by (simp add: serve_def header_fixed_send header_fixed_calls)
  then show ?thesis using serve_sent [of "pre @ cs"] by (auto simp: header_of_def header_fixed_def)
qed

section \<open>Recording the status\<close>

text \<open>
  The contract of a writer that records the status of the response it forwards to: the first
  \<open>WriteHeader\<close> sets it, any write closes it.
\<close>

definition plain_call :: "hcall \<Rightarrow> bool" where
  "plain_call c = (case c of WriteHeader s \<Rightarrow> valid_code s \<and> \<not> informational_code s | _ \<Rightarrow> True)"

locale status_recorder =
  fixes recorded :: "'r \<Rightarrow> int"
    and wrote :: "'r \<Rightarrow> bool"
    and rec_call :: "hcall \<Rightarrow> 'r \<Rightarrow> 'r"
  assumes on_header: "header_call c \<Longrightarrow> recorded (rec_call c r) = recorded r \<and> wrote (rec_call c r) = wrote r"
    and on_status: "recorded (rec_call (WriteHeader s) r) = (if wrote r then recorded r else s) \<and>
      wrote (rec_call (WriteHeader s) r)"
    and on_write: "recorded (rec_call (Write b n) r) = recorded r \<and> wrote (rec_call (Write b n) r)"
begin

definition tracks :: "'r \<Rightarrow> response \<Rightarrow> bool" where
  "tracks r p \<longleftrightarrow> (if wrote r then \<exists>h. sent p = Some (recorded r, h) else sent p = None \<and> recorded r = 200)"

lemma tracks_call:
  assumes "tracks r p" and "plain_call c"
  shows "tracks (rec_call c r) (rw_call c p)"
proof (cases c)
  case (WriteHeader s)
  then show ?thesis
    using assms on_status [of s r] by (cases "wrote r") (auto simp: tracks_def plain_call_def)
next
  case (Write b n)
  then show ?thesis
    using assms on_write [of b n r] by (cases "wrote r") (auto simp: tracks_def Let_def)
next
  case (HSet k v)
  then show ?thesis using assms(1) on_header [of c r] by (simp add: tracks_def header_call_def)
next
  case (HAdd k v)
  then show ?thesis using assms(1) on_header [of c r] by (simp add: tracks_def header_call_def)
next
  case (HDel k)
  then show ?thesis using assms(1) on_header [of c r] by (simp add: tracks_def header_call_def)
qed

lemma tracks_calls: "tracks r p \<Longrightarrow> list_all plain_call cs \<Longrightarrow> tracks (fold rec_call cs r) (fold rw_call cs p)"
  by (induction cs arbitrary: r p) (auto intro: tracks_call)

lemma recorded_is_sent:
  assumes "\<not> wrote r" and "recorded r = 200" and "list_all plain_call cs"
  shows "recorded (fold rec_call cs r) = status_of cs"
proof -
  have "tracks r fresh_response" using assms by (simp add: tracks_def fresh_response_def)
  then have "tracks (fold rec_call cs r) (fold rw_call cs fresh_response)" using tracks_calls assms(3) by blast
  then show ?thesis by (auto simp: tracks_def status_of_def serve_def split: if_splits)
qed

lemma wrote_iff: "wrote (fold rec_call cs r) \<longleftrightarrow> wrote r \<or> \<not> list_all header_call cs"
proof (induction cs arbitrary: r)
  case (Cons c cs)
  have "wrote (rec_call c r) \<longleftrightarrow> wrote r \<or> \<not> header_call c"
    using on_header [of c r] on_status [of _ r] on_write [of _ _ r] by (cases c) (auto simp: header_call_def)
  then show ?case using Cons.IH [of "rec_call c r"] by auto
qed simp

end

end
