(* ===== verification/Middleware.thy ===== *)
theory Middleware
  imports Http RateLimit Metrics
begin

text \<open>
  The decorators: \<open>RequestID\<close>, \<open>Logger\<close>, \<open>Recoverer\<close> and \<open>Cors\<close> of \<open>pkg/middleware\<close>, the rate limiter's
  \<open>Middleware\<close> of \<open>pkg/ratelimit\<close>, and the recorder's \<open>Middleware\<close> and \<open>Handler\<close> of \<open>pkg/metrics\<close>.
\<close>

text \<open>Decorating a nil handler panics.\<close>

definition decorate :: "string \<Rightarrow> (handler \<Rightarrow> handler) \<Rightarrow> handler option \<Rightarrow> handler go" where
  "decorate msg d next = (case next of None \<Rightarrow> Panic msg | Some h \<Rightarrow> Return (d h))"

section \<open>Request ids\<close>

definition HeaderName :: string where "HeaderName = ''X-Request-ID''"

definition canonicalHeaderName :: string where "canonicalHeaderName = ''X-Request-Id''"

definition maxIDLen :: nat where "maxIDLen = 128"

definition isValidID :: "string \<Rightarrow> bool" where
  "isValidID i =
     (if length i = 0 \<or> length i > maxIDLen then False
      else list_all (\<lambda>c. \<not> ((of_char c :: nat) < 0x21 \<or> (of_char c :: nat) > 0x7e)) i)"

definition RequestIDFrom :: "request \<Rightarrow> string" where
  "RequestIDFrom r = (case ctx_request_id r of None \<Rightarrow> '''' | Some i \<Rightarrow> i)"

text \<open>
  \<open>crypto/rand.Text\<close>: 26 characters of the base 32 alphabet, one for each random byte. \<open>entropy\<close> are the bytes
  the source of randomness gives for this request.
\<close>

definition base32alphabet :: string where "base32alphabet = ''ABCDEFGHIJKLMNOPQRSTUVWXYZ234567''"

definition rand_Text :: "(nat \<Rightarrow> 8 word) \<Rightarrow> string" where
  "rand_Text entropy = map (\<lambda>i. base32alphabet ! (unat (entropy i) mod 32)) [0..<26]"

definition generateID :: "(nat \<Rightarrow> 8 word) \<Rightarrow> string" where
  "generateID entropy = rand_Text entropy"

definition request_id_handler :: "(nat \<Rightarrow> 8 word) \<Rightarrow> handler \<Rightarrow> handler" where
  "request_id_handler entropy next r =
     (let i0 = header_Get (req_header r) canonicalHeaderName;
          i = (if \<not> isValidID i0 then generateID entropy else i0);
          out = next (r\<lparr>ctx_request_id := Some i\<rparr>)
      in out\<lparr>calls := HSet canonicalHeaderName i # calls out\<rparr>)"

definition RequestID :: "(nat \<Rightarrow> 8 word) \<Rightarrow> handler option \<Rightarrow> handler go" where
  "RequestID entropy = decorate ''middleware: nil handler'' (request_id_handler entropy)"

text \<open>Whatever the random bytes, a generated id is one that the next hop accepts, and two ids differ where their bytes do modulo 32.\<close>

lemma generateID_valid [simp]: "isValidID (generateID entropy)"
proof -
  have "list_all (\<lambda>c. \<not> ((of_char c :: nat) < 0x21 \<or> (of_char c :: nat) > 0x7e)) base32alphabet" by code_simp
  moreover have "length base32alphabet = 32" by code_simp
  ultimately show ?thesis by (simp add: isValidID_def maxIDLen_def generateID_def rand_Text_def list_all_length)
qed

lemma generateID_inj: "generateID entropy = generateID entropy' \<longleftrightarrow> (\<forall>i < 26. unat (entropy i) mod 32 = unat (entropy' i) mod 32)"
proof -
  have "distinct base32alphabet" "length base32alphabet = 32" by code_simp+
  then have "base32alphabet ! (unat a mod 32) = base32alphabet ! (unat b mod 32) \<longleftrightarrow> unat a mod 32 = unat b mod 32" for a b :: "8 word"
    by (simp add: nth_eq_iff_index_eq)
  then show ?thesis by (auto simp: generateID_def rand_Text_def)
qed

section \<open>The response recorder\<close>

record responseRecorder =
  status :: int
  written :: int
  wroteHeader :: bool

definition new_recorder :: responseRecorder where
  "new_recorder = \<lparr>status = 200, written = 0, wroteHeader = False\<rparr>"

definition recorder_WriteHeader :: "int \<Rightarrow> responseRecorder \<Rightarrow> responseRecorder" where
  "recorder_WriteHeader c rr =
     (if \<not> wroteHeader rr then rr\<lparr>status := c, wroteHeader := True\<rparr> else rr)"

definition recorder_Write :: "nat \<Rightarrow> responseRecorder \<Rightarrow> responseRecorder" where
  "recorder_Write n rr = rr\<lparr>wroteHeader := True, written := wrap64 (written rr + int n)\<rparr>"

fun recorder_call :: "hcall \<Rightarrow> responseRecorder \<Rightarrow> responseRecorder" where
  "recorder_call (WriteHeader c) rr = recorder_WriteHeader c rr"
| "recorder_call (Write b n) rr = recorder_Write n rr"
| "recorder_call _ rr = rr"

interpretation response_recorder: status_recorder status wroteHeader recorder_call
proof (unfold_locales, goal_cases)
  case (1 c r)
  then show ?case by (cases c) (simp_all add: header_call_def)
qed (simp_all add: recorder_WriteHeader_def recorder_Write_def)

section \<open>Logger\<close>

definition levelFor :: "int \<Rightarrow> log_level" where
  "levelFor s = (if s \<ge> 500 then LevelError else if s \<ge> 400 then LevelWarn else LevelInfo)"

text \<open>A response is never logged below one with a smaller status.\<close>

lemma levelFor_mono: "mono levelFor"
  by (rule monoI) (auto simp: levelFor_def less_eq_log_level_def)

definition id_attr :: "request \<Rightarrow> attr list" where
  "id_attr r = (if RequestIDFrom r \<noteq> '''' then [AStr ''request_id'' (RequestIDFrom r)] else [])"

text \<open>The log record is written by a deferred function: also when the handler panics.\<close>

definition logger_handler :: "duration \<Rightarrow> handler \<Rightarrow> handler" where
  "logger_handler elapsed next r =
     (let out = next r;
          rr = fold recorder_call (calls out) new_recorder;
          attrs = [AStr ''method'' (req_method r), AStr ''path'' (url_path r), AInt ''status'' (status rr),
                   AInt ''duration'' elapsed, AInt ''bytes'' (written rr)] @ id_attr r
      in out\<lparr>effects := effects out @ [LogRecord (levelFor (status rr)) ''http request'' attrs]\<rparr>)"

definition Logger :: "bool \<Rightarrow> duration \<Rightarrow> (handler option \<Rightarrow> handler go) go" where
  "Logger logger_nil elapsed =
     (if logger_nil then Panic ''middleware: nil logger''
      else Return (decorate ''middleware: nil handler'' (logger_handler elapsed)))"

section \<open>Recoverer\<close>

definition logPanic :: "string \<Rightarrow> request \<Rightarrow> string \<Rightarrow> effect" where
  "logPanic stack r v = LogRecord LevelError ''http handler panic''
     ([AStr ''method'' (req_method r), AStr ''path'' (url_path r), AStr ''panic'' v, AStr ''stack'' stack] @ id_attr r)"

definition recoverer_handler :: "string \<Rightarrow> handler \<Rightarrow> handler" where
  "recoverer_handler stack next r =
     (let out = next r;
          rr = fold recorder_call (calls out) new_recorder
      in case panic_with out of
           None \<Rightarrow> out
         | Some ErrAbortHandler \<Rightarrow> out
         | Some (OtherPanic v) \<Rightarrow>
             \<lparr>calls = calls out @ (if \<not> wroteHeader rr then http_Error ''Internal Server Error'' 500 else []),
              panic_with = None, effects = effects out @ [logPanic stack r v]\<rparr>)"

definition Recoverer :: "string \<Rightarrow> handler option \<Rightarrow> handler go" where
  "Recoverer stack = decorate ''middleware: nil handler'' (recoverer_handler stack)"

section \<open>Cors\<close>

record CorsConfig =
  AllowedOrigins :: "string list"
  AllowedMethods :: "string list"
  AllowedHeaders :: "string list"
  ExposedHeaders :: "string list"
  AllowCredentials :: bool
  MaxAge :: duration

definition headerOrigin :: string where "headerOrigin = ''Origin''"
definition headerACRequestMethod :: string where "headerACRequestMethod = ''Access-Control-Request-Method''"
definition headerACRequestHeaders :: string where "headerACRequestHeaders = ''Access-Control-Request-Headers''"
definition headerACAllowOrigin :: string where "headerACAllowOrigin = ''Access-Control-Allow-Origin''"
definition headerACAllowMethods :: string where "headerACAllowMethods = ''Access-Control-Allow-Methods''"
definition headerACAllowHeaders :: string where "headerACAllowHeaders = ''Access-Control-Allow-Headers''"
definition headerACAllowCredentials :: string where "headerACAllowCredentials = ''Access-Control-Allow-Credentials''"
definition headerACExposeHeaders :: string where "headerACExposeHeaders = ''Access-Control-Expose-Headers''"
definition headerACMaxAge :: string where "headerACMaxAge = ''Access-Control-Max-Age''"
definition headerVary :: string where "headerVary = ''Vary''"

lemmas cors_names = headerOrigin_def headerACRequestMethod_def headerACRequestHeaders_def headerACAllowOrigin_def
  headerACAllowMethods_def headerACAllowHeaders_def headerACAllowCredentials_def headerACExposeHeaders_def
  headerACMaxAge_def headerVary_def

definition defaultCorsMethods :: "string list" where
  "defaultCorsMethods = [''GET'', ''HEAD'', ''POST'']"

record cors =
  allowedOrigins :: "string set"
  allowAllOrigins :: bool
  allowCredentials :: bool
  allowedMethods :: string
  allowedHeaders :: string
  reflectHeaders :: bool
  exposedHeaders :: string
  maxAge :: string

text \<open>The loop over the configured origins: the wildcard flag and the set of the others.\<close>

fun scan_origins :: "string list \<Rightarrow> bool \<Rightarrow> string set \<Rightarrow> bool \<times> string set" where
  "scan_origins [] allowAll origins = (allowAll, origins)"
| "scan_origins (x # xs) allowAll origins =
     (if x = ''*'' then scan_origins xs True origins else scan_origins xs allowAll (insert x origins))"

definition newCors :: "CorsConfig \<Rightarrow> cors go" where
  "newCors cfg =
     (let (allowAll, origins) = scan_origins (AllowedOrigins cfg) False {}
      in if AllowCredentials cfg \<and> allowAll
           then Panic (''middleware: CORS AllowCredentials with wildcard origin '' @ [CHR 0x22] @ ''*'' @ [CHR 0x22] @
                  '' is forbidden by the Fetch spec'')
         else if MaxAge cfg < 0 then Panic ''middleware: CORS negative MaxAge''
         else let methods = (if AllowedMethods cfg = [] then defaultCorsMethods else AllowedMethods cfg);
                  reflect = (AllowedHeaders cfg = [] \<or> list_ex (\<lambda>h. h = ''*'') (AllowedHeaders cfg));
                  age = (if MaxAge cfg > 0 then Itoa (quot64 (MaxAge cfg) Second) else '''')
              in Return \<lparr>allowedOrigins = origins, allowAllOrigins = allowAll, allowCredentials = AllowCredentials cfg,
                   allowedMethods = strings_Join methods '', '', allowedHeaders = strings_Join (AllowedHeaders cfg) '', '',
                   reflectHeaders = reflect, exposedHeaders = strings_Join (ExposedHeaders cfg) '', '', maxAge = age\<rparr>)"

definition isAllowed :: "cors \<Rightarrow> string \<Rightarrow> bool" where
  "isAllowed c origin \<longleftrightarrow> origin \<in> allowedOrigins c"

definition writeAllowOrigin :: "cors \<Rightarrow> string \<Rightarrow> hcall list \<times> bool" where
  "writeAllowOrigin c origin =
     (if allowAllOrigins c \<and> \<not> allowCredentials c then ([HSet headerACAllowOrigin ''*''], False)
      else ([HSet headerACAllowOrigin origin], True))"

definition cors_actual :: "cors \<Rightarrow> string \<Rightarrow> bool \<Rightarrow> hcall list" where
  "cors_actual c origin allowed =
     (if \<not> allowed then []
      else let (cs, varies) = writeAllowOrigin c origin
           in cs @ (if varies then [HAdd headerVary headerOrigin] else []) @
              (if allowCredentials c then [HSet headerACAllowCredentials ''true''] else []) @
              (if exposedHeaders c \<noteq> '''' then [HSet headerACExposeHeaders (exposedHeaders c)] else []))"

definition preflight :: "cors \<Rightarrow> request \<Rightarrow> string \<Rightarrow> bool \<Rightarrow> hcall list" where
  "preflight c r origin allowed =
     [HAdd headerVary headerOrigin, HAdd headerVary headerACRequestMethod, HAdd headerVary headerACRequestHeaders] @
     (if allowed then
        fst (writeAllowOrigin c origin) @ [HSet headerACAllowMethods (allowedMethods c)] @
        (if reflectHeaders c
           then (if header_Get (req_header r) headerACRequestHeaders \<noteq> ''''
                 then [HSet headerACAllowHeaders (header_Get (req_header r) headerACRequestHeaders)] else [])
         else if allowedHeaders c \<noteq> '''' then [HSet headerACAllowHeaders (allowedHeaders c)] else []) @
        (if allowCredentials c then [HSet headerACAllowCredentials ''true''] else []) @
        (if maxAge c \<noteq> '''' then [HSet headerACMaxAge (maxAge c)] else [])
      else []) @
     [WriteHeader 204]"

definition cors_handler :: "cors \<Rightarrow> handler \<Rightarrow> handler" where
  "cors_handler c next r =
     (let origin = header_Get (req_header r) headerOrigin
      in if origin = '''' then next r
         else let allowed = (allowAllOrigins c \<or> isAllowed c origin)
              in if req_method r = ''OPTIONS'' \<and> header_Get (req_header r) headerACRequestMethod \<noteq> ''''
                 then \<lparr>calls = preflight c r origin allowed, panic_with = None, effects = []\<rparr>
                 else let out = next r in out\<lparr>calls := cors_actual c origin allowed @ calls out\<rparr>)"

definition Cors :: "CorsConfig \<Rightarrow> (handler option \<Rightarrow> handler go) go" where
  "Cors cfg = go_bind (newCors cfg) (\<lambda>c. Return (decorate ''middleware: nil handler'' (cors_handler c)))"

section \<open>Rate limiting\<close>

definition headerRetryAfter :: string where "headerRetryAfter = ''Retry-After''"

definition retryAfter :: "(float64 \<Rightarrow> int) \<Rightarrow> limiter \<Rightarrow> string" where
  "retryAfter conv l = Itoa (f64_to_int64 conv (fceil (fdiv (Fin 1) (rate l))))"

text \<open>One request at clock reading \<open>now\<close>: the limiter afterwards and the outcome.\<close>

definition limiter_Middleware :: "(float64 \<Rightarrow> int) \<Rightarrow> handler \<Rightarrow> instant \<Rightarrow> limiter \<Rightarrow> request \<Rightarrow> limiter \<times> outcome" where
  "limiter_Middleware conv next now l r =
     (let (l', ok) = Allow l now
      in if \<not> ok
         then (l', \<lparr>calls = HSet headerRetryAfter (retryAfter conv l) # http_Error ''Too Many Requests'' 429,
                    panic_with = None, effects = []\<rparr>)
         else (l', next r))"

section \<open>Metrics\<close>

record statusWriter =
  sw_status :: int
  sw_wroteHeader :: bool

definition statusWriter_WriteHeader :: "int \<Rightarrow> statusWriter \<Rightarrow> statusWriter" where
  "statusWriter_WriteHeader c w = (if \<not> sw_wroteHeader w then w\<lparr>sw_status := c, sw_wroteHeader := True\<rparr> else w)"

definition statusWriter_Write :: "statusWriter \<Rightarrow> statusWriter" where
  "statusWriter_Write w = w\<lparr>sw_wroteHeader := True\<rparr>"

fun statusWriter_call :: "hcall \<Rightarrow> statusWriter \<Rightarrow> statusWriter" where
  "statusWriter_call (WriteHeader c) w = statusWriter_WriteHeader c w"
| "statusWriter_call (Write b n) w = statusWriter_Write w"
| "statusWriter_call _ w = w"

interpretation status_writer: status_recorder sw_status sw_wroteHeader statusWriter_call
proof (unfold_locales, goal_cases)
  case (1 c r)
  then show ?case by (cases c) (simp_all add: header_call_def)
qed (simp_all add: statusWriter_WriteHeader_def statusWriter_Write_def)

text \<open>The observation follows the call of the handler: it is not reached when the handler panics.\<close>

definition metrics_handler :: "float64 \<Rightarrow> handler \<Rightarrow> handler" where
  "metrics_handler seconds next r =
     (let out = next r;
          w = fold statusWriter_call (calls out) \<lparr>sw_status = 200, sw_wroteHeader = False\<rparr>
      in case panic_with out of
           None \<Rightarrow> out\<lparr>effects := effects out @ [Observe (normalizeMethod (req_method r)) (sw_status w) seconds]\<rparr>
         | Some p \<Rightarrow> out)"

definition metrics_Middleware :: "float64 \<Rightarrow> handler option \<Rightarrow> handler go" where
  "metrics_Middleware seconds = decorate ''metrics: nil handler'' (metrics_handler seconds)"

definition contentType :: string where "contentType = ''text/plain; version=0.0.4; charset=utf-8''"

definition metrics_Handler :: "(float64 \<Rightarrow> string) \<Rightarrow> recorder \<Rightarrow> handler" where
  "metrics_Handler fmt rec r =
     (let text = appendExposition fmt rec []
      in \<lparr>calls = [HSet ''Content-Type'' contentType, HSet ''Content-Length'' (Itoa (int (length text))),
            Write text (length text)], panic_with = None, effects = []\<rparr>)"

section \<open>Properties\<close>

text \<open>
  C28. \<open>Recoverer\<close> contains panics: when the handler panics with anything but \<open>ErrAbortHandler\<close>, the
  decorated handler returns, the panic is logged once, and a handler that had written neither status
  nor body is answered with 500 and the plain-text body; one that had started its response leaves it
  exactly as it was. In every other case the decorator changes nothing.
\<close>

theorem Recoverer_contains_panics:
  "(panic_with (next r) = Some (OtherPanic v) \<longrightarrow>
      (let out = recoverer_handler stack next r
       in panic_with out = None \<and> effects out = effects (next r) @ [logPanic stack r v] \<and>
          (list_all header_call (calls (next r)) \<longrightarrow>
             status_of (calls out) = 500 \<and> body (serve (calls out)) = ''Internal Server Error'' @ [CHR 0x0A]) \<and>
          (\<not> list_all header_call (calls (next r)) \<longrightarrow> calls out = calls (next r)))) \<and>
   ((\<forall>v. panic_with (next r) \<noteq> Some (OtherPanic v)) \<longrightarrow> recoverer_handler stack next r = next r)"
proof (intro conjI impI)
  assume p: "panic_with (next r) = Some (OtherPanic v)"
  let ?cs = "calls (next r)"
  have w: "wroteHeader (fold recorder_call ?cs new_recorder) \<longleftrightarrow> \<not> list_all header_call ?cs"
    using response_recorder.wrote_iff [of ?cs new_recorder] by (simp add: new_recorder_def)
  have "status_of (?cs @ http_Error ''Internal Server Error'' 500) = 500 \<and>
      body (serve (?cs @ http_Error ''Internal Server Error'' 500)) = ''Internal Server Error'' @ [CHR 0x0A]"
    if "list_all header_call ?cs"
    using header_calls_open [OF that, of fresh_response]
    by (simp add: status_of_def serve_def http_Error_def fresh_response_def Let_def)
  then show "let out = recoverer_handler stack next r
       in panic_with out = None \<and> effects out = effects (next r) @ [logPanic stack r v] \<and>
          (list_all header_call (calls (next r)) \<longrightarrow>
             status_of (calls out) = 500 \<and> body (serve (calls out)) = ''Internal Server Error'' @ [CHR 0x0A]) \<and>
          (\<not> list_all header_call (calls (next r)) \<longrightarrow> calls out = calls (next r))"
    using w by (simp add: recoverer_handler_def p Let_def)
next
  assume "\<forall>v. panic_with (next r) \<noteq> Some (OtherPanic v)"
  then show "recoverer_handler stack next r = next r"
    by (auto simp: recoverer_handler_def Let_def split: option.splits panic_value.splits)
qed

definition panics_after :: "hcall list \<Rightarrow> handler" where
  "panics_after cs r = \<lparr>calls = cs, panic_with = Some (OtherPanic ''boom''), effects = []\<rparr>"

definition demo_request :: request where
  "demo_request = \<lparr>req_method = ''GET'', url_path = ''/'', req_header = (\<lambda>_. []), ctx_request_id = None\<rparr>"

theorem Recoverer_contains_panics_witness:
  "status_of (calls (recoverer_handler '''' (panics_after [HSet ''A'' ''b'']) demo_request)) = 500"
  using Recoverer_contains_panics [of "panics_after [HSet ''A'' ''b'']" demo_request "''boom''" "''''"]
  by (simp add: panics_after_def Let_def header_call_def)

text \<open>
  A panic can still be answered with success: the recorder takes any first \<open>WriteHeader\<close> for the
  response's status, so that a handler that panics after an informational status, or whose panic is
  the one \<open>net/http\<close> raises for a status outside 100 to 999, gets no 500: the client receives 200 and an
  empty body.
\<close>

theorem Recoverer_false_success:
  assumes "informational_code c \<or> \<not> valid_code c"
  shows "possible (panics_after [WriteHeader c] r) \<and>
    status_of (calls (recoverer_handler stack (panics_after [WriteHeader c]) r)) = 200 \<and>
    body (serve (calls (recoverer_handler stack (panics_after [WriteHeader c]) r))) = ''''"
  using assms
  by (auto simp: possible_def panics_after_def recoverer_handler_def new_recorder_def recorder_WriteHeader_def Let_def
      status_of_def serve_def send_status_def fresh_response_def)

theorem Recoverer_false_success_witness:
  "status_of (calls (recoverer_handler '''' (panics_after [WriteHeader 0]) demo_request)) = 200 \<and>
   status_of (calls (recoverer_handler '''' (panics_after [WriteHeader 103]) demo_request)) = 200"
  using Recoverer_false_success [of 0 demo_request "''''"] Recoverer_false_success [of 103 demo_request "''''"]
  by (simp add: valid_code_def informational_code_def)

text \<open>
  What a recorder knows at the end of the handler, without a recorder: the status of the first call that
  starts a response, and the bytes the writes accepted.
\<close>

fun first_status :: "hcall list \<Rightarrow> int" where
  "first_status [] = 200"
| "first_status (WriteHeader s # cs) = s"
| "first_status (Write b n # cs) = 200"
| "first_status (_ # cs) = first_status cs"

fun bytes_accepted :: "hcall list \<Rightarrow> int" where
  "bytes_accepted [] = 0"
| "bytes_accepted (Write b n # cs) = int n + bytes_accepted cs"
| "bytes_accepted (_ # cs) = bytes_accepted cs"

lemma bytes_accepted_nonneg: "0 \<le> bytes_accepted cs"
  by (induction cs rule: bytes_accepted.induct) simp_all

lemma recorder_keeps_status: "wroteHeader rr \<Longrightarrow> status (fold recorder_call cs rr) = status rr"
proof (induction cs arbitrary: rr)
  case (Cons c cs)
  then show ?case by (cases c) (simp_all add: recorder_WriteHeader_def recorder_Write_def)
qed simp

lemma recorder_first_status:
  "\<not> wroteHeader rr \<Longrightarrow> status rr = 200 \<Longrightarrow> status (fold recorder_call cs rr) = first_status cs"
proof (induction cs arbitrary: rr rule: first_status.induct)
qed (simp_all add: recorder_keeps_status recorder_WriteHeader_def recorder_Write_def)

lemma recorder_written:
  assumes "0 \<le> written rr" and "in_int64 (written rr + bytes_accepted cs)"
  shows "written (fold recorder_call cs rr) = written rr + bytes_accepted cs"
  using assms
proof (induction cs arbitrary: rr)
  case (Cons c cs)
  show ?case
  proof (cases c)
    case (Write b n)
    have "in_int64 (written rr + int n)"
      using Cons.prems bytes_accepted_nonneg [of cs] by (simp add: Write int64_defs)
    then show ?thesis using Cons.IH [of "recorder_Write n rr"] Cons.prems
      by (simp add: Write recorder_Write_def add.assoc)
  next
    case (WriteHeader s)
    then show ?thesis using Cons.IH [of "recorder_WriteHeader s rr"] Cons.prems by (simp add: recorder_WriteHeader_def)
  qed (use Cons in simp_all)
qed simp

text \<open>
  C30. \<open>Logger\<close> is transparent and truthful. It forwards the handler's calls and its panic unchanged and
  logs exactly one record, also for a handler that panics: the method, the path, a status, from which the
  level is chosen, the duration, the bytes accepted and the request id if there is one. The status is
  that of the call that started the response, 200 if there was none. If the handler returns and its
  statuses are final ones, this is the status the client receives; of a handler that panics it is only
  what had been recorded when the panic passed, 200 before any response.
\<close>

theorem Logger_logs_sent_status:
  "let out = logger_handler elapsed next r; s = first_status (calls (next r))
   in calls out = calls (next r) \<and> panic_with out = panic_with (next r) \<and>
      (\<exists>b. effects out = effects (next r) @ [LogRecord (levelFor s) ''http request''
         ([AStr ''method'' (req_method r), AStr ''path'' (url_path r), AInt ''status'' s, AInt ''duration'' elapsed,
           AInt ''bytes'' b] @ (if RequestIDFrom r \<noteq> '''' then [AStr ''request_id'' (RequestIDFrom r)] else []))] \<and>
         (in_int64 (bytes_accepted (calls (next r))) \<longrightarrow> b = bytes_accepted (calls (next r)))) \<and>
      (panic_with (next r) = None \<and> list_all plain_call (calls (next r)) \<longrightarrow> s = status_of (calls out)) \<and>
      (panic_with (next r) \<noteq> None \<and> list_all header_call (calls (next r)) \<longrightarrow> s = 200)"
proof -
  let ?rr = "fold recorder_call (calls (next r)) new_recorder"
  have s: "status ?rr = first_status (calls (next r))"
    by (rule recorder_first_status) (simp_all add: new_recorder_def)
  have b: "in_int64 (bytes_accepted (calls (next r))) \<longrightarrow> written ?rr = bytes_accepted (calls (next r))"
    using recorder_written [of new_recorder "calls (next r)"] by (simp add: new_recorder_def)
  have p: "list_all plain_call (calls (next r)) \<longrightarrow> first_status (calls (next r)) = status_of (calls (next r))"
    using response_recorder.recorded_is_sent [of new_recorder "calls (next r)"] s by (auto simp: new_recorder_def)
  have h: "list_all header_call cs \<Longrightarrow> first_status cs = 200" for cs
    by (induction cs rule: first_status.induct) (simp_all add: header_call_def)
  show ?thesis using s b p h [of "calls (next r)"] by (simp add: logger_handler_def id_attr_def Let_def)
qed

definition answers :: "hcall list \<Rightarrow> handler" where
  "answers cs r = \<lparr>calls = cs, panic_with = None, effects = []\<rparr>"

theorem Logger_logs_sent_status_witness:
  "\<exists>attrs. effects (logger_handler 7 (answers [WriteHeader 404, Write ''no'' 2]) demo_request) =
     [LogRecord LevelWarn ''http request'' attrs] \<and> AInt ''status'' 404 \<in> set attrs \<and> AInt ''bytes'' 2 \<in> set attrs \<and>
     status_of (calls (answers [WriteHeader 404, Write ''no'' 2] demo_request)) = 404"
proof -
  let ?h = "answers [WriteHeader 404, Write ''no'' 2]"
  have "list_all plain_call (calls (?h demo_request))" "panic_with (?h demo_request) = None"
    "in_int64 (bytes_accepted (calls (?h demo_request)))"
    by (simp_all add: answers_def plain_call_def valid_code_def informational_code_def int64_defs)
  then show ?thesis
    using Logger_logs_sent_status [of 7 ?h demo_request]
    by (auto simp: answers_def Let_def levelFor_def logger_handler_def)
qed

text \<open>
  C31. \<open>RequestID\<close> gives every request one well-formed id: the inbound id when it is well formed, the
  generated one otherwise, which is well formed whatever the random bytes. The wrapped handler sees it in
  its context and, unless it touches that header itself, the client receives exactly that id; no control
  character, space or overlong text from the request is ever reflected.
\<close>

theorem RequestID_end_to_end:
  assumes "\<And>r'. list_all (\<lambda>c. \<not> touches canonicalHeaderName c) (calls (next r'))"
  shows "\<exists>i. isValidID i \<and>
    (isValidID (header_Get (req_header r) canonicalHeaderName) \<longrightarrow> i = header_Get (req_header r) canonicalHeaderName) \<and>
    (\<not> isValidID (header_Get (req_header r) canonicalHeaderName) \<longrightarrow> i = generateID entropy) \<and>
    RequestIDFrom (r\<lparr>ctx_request_id := Some i\<rparr>) = i \<and>
    request_id_handler entropy next r =
      (next (r\<lparr>ctx_request_id := Some i\<rparr>))\<lparr>calls := HSet canonicalHeaderName i # calls (next (r\<lparr>ctx_request_id := Some i\<rparr>))\<rparr> \<and>
    header_of (calls (request_id_handler entropy next r)) canonicalHeaderName = [i]"
proof -
  define i0 where "i0 = header_Get (req_header r) canonicalHeaderName"
  define i where "i = (if \<not> isValidID i0 then generateID entropy else i0)"
  have i: "isValidID i" "isValidID i0 \<longrightarrow> i = i0" "\<not> isValidID i0 \<longrightarrow> i = generateID entropy"
    "RequestIDFrom (r\<lparr>ctx_request_id := Some i\<rparr>) = i"
    by (simp_all add: RequestIDFrom_def i_def)
  have h: "request_id_handler entropy next r =
      (next (r\<lparr>ctx_request_id := Some i\<rparr>))\<lparr>calls := HSet canonicalHeaderName i # calls (next (r\<lparr>ctx_request_id := Some i\<rparr>))\<rparr>"
    by (simp add: request_id_handler_def Let_def i_def i0_def)
  have "header_of ([HSet canonicalHeaderName i] @ calls (next (r\<lparr>ctx_request_id := Some i\<rparr>))) canonicalHeaderName =
      hdr (fold rw_call [HSet canonicalHeaderName i] fresh_response) canonicalHeaderName"
    by (rule header_of_untouched) (use assms in \<open>simp_all add: header_call_def\<close>)
  then have "header_of (calls (request_id_handler entropy next r)) canonicalHeaderName = [i]"
    unfolding h by simp
  with i h show ?thesis unfolding i0_def by blast
qed

theorem RequestID_end_to_end_witness:
  "header_of (calls (request_id_handler (\<lambda>i. of_nat i) (answers [WriteHeader 200])
     (demo_request\<lparr>req_header := (\<lambda>_. [[CHR 0x0A]])\<rparr>))) canonicalHeaderName = [''ABCDEFGHIJKLMNOPQRSTUVWXYZ'']"
proof -
  let ?r = "demo_request\<lparr>req_header := (\<lambda>_. [[CHR 0x0A]])\<rparr>"
  have "generateID (\<lambda>i. of_nat i) = ''ABCDEFGHIJKLMNOPQRSTUVWXYZ''"
    by (simp add: generateID_def rand_Text_def upt_rec base32alphabet_def)
  moreover have "\<not> isValidID (header_Get (req_header ?r) canonicalHeaderName)"
    by (simp add: isValidID_def maxIDLen_def header_Get_def)
  moreover have "list_all (\<lambda>c. \<not> touches canonicalHeaderName c) (calls (answers [WriteHeader 200] r'))" for r'
    by (simp add: answers_def touches_def)
  ultimately show ?thesis using RequestID_end_to_end [of "answers [WriteHeader 200]" ?r "\<lambda>i. of_nat i"] by auto
qed

subsection \<open>The CORS policy\<close>

lemma scan_origins_set: "scan_origins xs a S = (a \<or> ''*'' \<in> set xs, S \<union> (set xs - {''*''}))"
  by (induction xs arbitrary: a S) auto

lemma newCors_fields:
  assumes "newCors cfg = Return c"
  shows "allowAllOrigins c \<longleftrightarrow> ''*'' \<in> set (AllowedOrigins cfg)"
    "allowedOrigins c = set (AllowedOrigins cfg) - {''*''}" "allowCredentials c = AllowCredentials cfg"
    "\<not> (AllowCredentials cfg \<and> ''*'' \<in> set (AllowedOrigins cfg))"
  using assms by (auto simp: newCors_def scan_origins_set Let_def split: if_splits)

text \<open>The two headers that grant access, after the calls the middleware itself makes.\<close>

lemma preflight_headers:
  assumes "\<not> (allowAllOrigins c \<and> allowCredentials c)"
  shows "header_of (preflight c r origin allowed) headerACAllowOrigin =
      (if allowed then [if allowAllOrigins c then ''*'' else origin] else [])"
    and "header_of (preflight c r origin allowed) headerACAllowCredentials =
      (if allowed \<and> allowCredentials c then [''true''] else [])"
    and "status_of (preflight c r origin allowed) = 204"
proof -
  let ?pre = "butlast (preflight c r origin allowed)"
  have p: "preflight c r origin allowed = ?pre @ [WriteHeader 204]" by (simp add: preflight_def)
  have h: "list_all header_call ?pre"
    by (auto simp: preflight_def writeAllowOrigin_def butlast_append header_call_def)
  have t: "list_all (\<lambda>c. \<not> touches k c) [WriteHeader 204]" for k by (simp add: touches_def)
  show "header_of (preflight c r origin allowed) headerACAllowOrigin =
      (if allowed then [if allowAllOrigins c then ''*'' else origin] else [])"
    by (subst p, subst header_of_untouched [OF h t])
      (use assms in \<open>auto simp: preflight_def writeAllowOrigin_def butlast_append fresh_response_def cors_names\<close>)
  show "header_of (preflight c r origin allowed) headerACAllowCredentials =
      (if allowed \<and> allowCredentials c then [''true''] else [])"
    by (subst p, subst header_of_untouched [OF h t])
      (use assms in \<open>auto simp: preflight_def writeAllowOrigin_def butlast_append fresh_response_def cors_names\<close>)
  show "status_of (preflight c r origin allowed) = 204"
    using header_calls_open [OF h, of fresh_response]
    by (subst p) (simp add: status_of_def serve_def fresh_response_def)
qed

lemma actual_headers:
  assumes "\<not> (allowAllOrigins c \<and> allowCredentials c)"
  shows "list_all (\<lambda>x. \<not> touches headerACAllowOrigin x) cs \<Longrightarrow>
      header_of (cors_actual c origin allowed @ cs) headerACAllowOrigin =
      (if allowed then [if allowAllOrigins c then ''*'' else origin] else [])"
    and "list_all (\<lambda>x. \<not> touches headerACAllowCredentials x) cs \<Longrightarrow>
      header_of (cors_actual c origin allowed @ cs) headerACAllowCredentials =
      (if allowed \<and> allowCredentials c then [''true''] else [])"
proof -
  have h: "list_all header_call (cors_actual c origin allowed)"
    by (auto simp: cors_actual_def writeAllowOrigin_def header_call_def)
  show "header_of (cors_actual c origin allowed @ cs) headerACAllowOrigin =
      (if allowed then [if allowAllOrigins c then ''*'' else origin] else [])"
    if "list_all (\<lambda>x. \<not> touches headerACAllowOrigin x) cs"
    by (subst header_of_untouched [OF h that])
      (use assms in \<open>auto simp: cors_actual_def writeAllowOrigin_def fresh_response_def cors_names\<close>)
  show "header_of (cors_actual c origin allowed @ cs) headerACAllowCredentials =
      (if allowed \<and> allowCredentials c then [''true''] else [])"
    if "list_all (\<lambda>x. \<not> touches headerACAllowCredentials x) cs"
    by (subst header_of_untouched [OF h that])
      (use assms in \<open>auto simp: cors_actual_def writeAllowOrigin_def fresh_response_def cors_names\<close>)
qed

text \<open>
  C32. The CORS policy: with a configuration that \<open>Cors\<close> accepts, and a handler that does not write
  these headers itself, a cross-origin response, preflight or not, carries
  \<open>Access-Control-Allow-Origin\<close> exactly when the origin is configured or the wildcard is, naming that
  origin or the wildcard; it carries \<open>Access-Control-Allow-Credentials\<close> exactly when, further, credentials
  are enabled, and then never with the wildcard. A request without an origin reaches the handler
  untouched, and a preflight is answered with 204 without running it.
\<close>

theorem Cors_grants_exactly_configured:
  assumes "newCors cfg = Return c"
    and "list_all (\<lambda>x. \<not> touches headerACAllowOrigin x \<and> \<not> touches headerACAllowCredentials x) (calls (next r))"
  shows "let origin = header_Get (req_header r) headerOrigin;
             out = cors_handler c next r;
             allowed = (origin \<in> set (AllowedOrigins cfg) \<or> ''*'' \<in> set (AllowedOrigins cfg));
             isPreflight = (req_method r = ''OPTIONS'' \<and> header_Get (req_header r) headerACRequestMethod \<noteq> '''')
         in (origin = '''' \<longrightarrow> out = next r) \<and>
            (origin \<noteq> '''' \<longrightarrow>
               header_of (calls out) headerACAllowOrigin =
                 (if allowed then [if ''*'' \<in> set (AllowedOrigins cfg) then ''*'' else origin] else []) \<and>
               header_of (calls out) headerACAllowCredentials =
                 (if allowed \<and> AllowCredentials cfg then [''true''] else []) \<and>
               (AllowCredentials cfg \<longrightarrow> header_of (calls out) headerACAllowOrigin \<noteq> [''*''] \<or> origin = ''*'') \<and>
               (isPreflight \<longrightarrow> status_of (calls out) = 204 \<and> panic_with out = None \<and> effects out = []))"
proof -
  note f = newCors_fields [OF assms(1)]
  have n: "\<not> (allowAllOrigins c \<and> allowCredentials c)" using f by auto
  have a: "(allowAllOrigins c \<or> isAllowed c origin) \<longleftrightarrow>
      origin \<in> set (AllowedOrigins cfg) \<or> ''*'' \<in> set (AllowedOrigins cfg)" for origin
    using f by (auto simp: isAllowed_def)
  have t: "list_all (\<lambda>x. \<not> touches headerACAllowOrigin x) (calls (next r))"
    "list_all (\<lambda>x. \<not> touches headerACAllowCredentials x) (calls (next r))"
    using assms(2) by (auto simp: list_all_iff)
  define origin where "origin = header_Get (req_header r) headerOrigin"
  define allowed where "allowed \<longleftrightarrow> origin \<in> set (AllowedOrigins cfg) \<or> ''*'' \<in> set (AllowedOrigins cfg)"
  define pre where "pre \<longleftrightarrow> req_method r = ''OPTIONS'' \<and> header_Get (req_header r) headerACRequestMethod \<noteq> ''''"
  have out: "cors_handler c next r = (if origin = '''' then next r
      else if pre then \<lparr>calls = preflight c r origin allowed, panic_with = None, effects = []\<rparr>
      else (next r)\<lparr>calls := cors_actual c origin allowed @ calls (next r)\<rparr>)"
    by (simp add: cors_handler_def Let_def a origin_def allowed_def pre_def)
  have h: "origin \<noteq> '''' \<Longrightarrow> header_of (calls (cors_handler c next r)) headerACAllowOrigin =
        (if allowed then [if ''*'' \<in> set (AllowedOrigins cfg) then ''*'' else origin] else [])"
    "origin \<noteq> '''' \<Longrightarrow> header_of (calls (cors_handler c next r)) headerACAllowCredentials =
        (if allowed \<and> AllowCredentials cfg then [''true''] else [])"
    using f(1,3) by (simp_all add: out preflight_headers [OF n] actual_headers(1) [OF n t(1)] actual_headers(2) [OF n t(2)])
  have "origin \<noteq> '''' \<Longrightarrow> AllowCredentials cfg \<Longrightarrow>
      header_of (calls (cors_handler c next r)) headerACAllowOrigin \<noteq> [''*''] \<or> origin = ''*''"
    using f(4) by (simp add: h)
  moreover have "origin \<noteq> '''' \<Longrightarrow> pre \<Longrightarrow> status_of (calls (cors_handler c next r)) = 204 \<and>
      panic_with (cors_handler c next r) = None \<and> effects (cors_handler c next r) = []"
    by (simp add: out preflight_headers [OF n])
  moreover have "origin = '''' \<Longrightarrow> cors_handler c next r = next r" by (simp add: out)
  ultimately show ?thesis
    using h unfolding Let_def origin_def [symmetric] allowed_def [symmetric] pre_def [symmetric] by blast
qed

definition demo_cors :: CorsConfig where
  "demo_cors = \<lparr>AllowedOrigins = [''https://a''], AllowedMethods = [], AllowedHeaders = [], ExposedHeaders = [],
     AllowCredentials = True, MaxAge = 0\<rparr>"

definition from_origin :: "string \<Rightarrow> request" where
  "from_origin x = demo_request\<lparr>req_header := (\<lambda>_. [])(''Origin'' := [x])\<rparr>"

theorem Cors_grants_exactly_configured_witness:
  "\<exists>c. newCors demo_cors = Return c \<and>
     header_of (calls (cors_handler c (answers [WriteHeader 200]) (from_origin ''https://a''))) headerACAllowOrigin = [''https://a''] \<and>
     header_of (calls (cors_handler c (answers [WriteHeader 200]) (from_origin ''https://b''))) headerACAllowOrigin = []"
proof -
  obtain c where c: "newCors demo_cors = Return c"
    by (simp add: newCors_def demo_cors_def scan_origins_set Let_def)
  have t: "list_all (\<lambda>x. \<not> touches headerACAllowOrigin x \<and> \<not> touches headerACAllowCredentials x)
      (calls (answers [WriteHeader 200] r))" for r by (simp add: answers_def touches_def)
  have o: "header_Get (req_header (from_origin x)) headerOrigin = x" for x
    by (simp add: from_origin_def header_Get_def headerOrigin_def)
  show ?thesis
    using Cors_grants_exactly_configured [OF c t, of "from_origin ''https://a''"]
      Cors_grants_exactly_configured [OF c t, of "from_origin ''https://b''"] c o
    by (simp add: demo_cors_def Let_def)
qed

subsection \<open>Rate limiting and metrics\<close>

text \<open>A history of requests, each with its clock reading: the limiter afterwards and the outcomes.\<close>

fun limiter_serve :: "(float64 \<Rightarrow> int) \<Rightarrow> handler \<Rightarrow> limiter \<Rightarrow> (instant \<times> request) list \<Rightarrow> limiter \<times> outcome list" where
  "limiter_serve conv next l [] = (l, [])"
| "limiter_serve conv next l ((now, r) # reqs) =
     (let (l', out) = limiter_Middleware conv next now l r;
          (l'', outs) = limiter_serve conv next l' reqs
      in (l'', out # outs))"

definition shed :: "(float64 \<Rightarrow> int) \<Rightarrow> limiter \<Rightarrow> outcome" where
  "shed conv l = \<lparr>calls = HSet headerRetryAfter (retryAfter conv l) # http_Error ''Too Many Requests'' 429,
     panic_with = None, effects = []\<rparr>"

lemma Allow_rate: "rate (fst (Allow l now)) = rate l"
  by (simp add: Allow_def advance_def Let_def)

lemma shed_response: "status_of (calls (shed conv l)) = 429 \<and>
    header_of (calls (shed conv l)) headerRetryAfter = [retryAfter conv l] \<and>
    body (serve (calls (shed conv l))) = ''Too Many Requests'' @ [CHR 0x0A]"
proof -
  have "header_of ([HSet headerRetryAfter (retryAfter conv l)] @ http_Error ''Too Many Requests'' 429) headerRetryAfter =
      hdr (fold rw_call [HSet headerRetryAfter (retryAfter conv l)] fresh_response) headerRetryAfter"
    by (rule header_of_untouched)
      (simp_all add: header_call_def http_Error_def touches_def headerRetryAfter_def)
  then show ?thesis
    by (simp add: shed_def status_of_def serve_def http_Error_def fresh_response_def Let_def)
qed

text \<open>The decisions \<open>Allow\<close> takes at a sequence of clock readings; \<open>allow_run\<close> counts the admissions among them.\<close>

fun decisions :: "limiter \<Rightarrow> instant list \<Rightarrow> bool list" where
  "decisions l [] = []"
| "decisions l (t # ts) = snd (Allow l t) # decisions (fst (Allow l t)) ts"

lemma decisions_allow_run: "snd (allow_run l ts) = length (filter id (decisions l ts))"
  by (induction ts arbitrary: l) (auto simp: case_prod_beta Let_def)

lemma length_decisions [simp]: "length (decisions l ts) = length ts"
  by (induction ts arbitrary: l) auto

lemma limiter_serve_decides:
  "snd (limiter_serve conv next l reqs) =
     map2 (\<lambda>(t, r) ok. if ok then next r else shed conv l) reqs (decisions l (map fst reqs)) \<and>
   fst (limiter_serve conv next l reqs) = fst (allow_run l (map fst reqs))"
proof (induction reqs arbitrary: l)
  case (Cons q reqs)
  obtain t r where q: "q = (t, r)" by (cases q)
  obtain l' ok where a: "Allow l t = (l', ok)" by (cases "Allow l t")
  have "shed conv l' = shed conv l" using Allow_rate [of l t] a by (simp add: shed_def retryAfter_def)
  then show ?case
    using Cons.IH [of l'] by (auto simp: q a limiter_Middleware_def case_prod_beta Let_def shed_def [symmetric])
qed simp

text \<open>
  C33. The rate limiting middleware sheds and never queues: over any history of requests the outcome of
  each is the wrapped handler's where \<open>Allow\<close> admits at that request's clock reading, and a 429 with the
  limiter's \<open>Retry-After\<close> and a fixed body where it does not, the handler untouched; so the number of
  requests handed on is the number of admissions, which the bucket's bound limits.
\<close>

theorem limiter_sheds_with_429:
  "snd (limiter_serve conv next l reqs) =
     map2 (\<lambda>(t, r) ok. if ok then next r else shed conv l) reqs (decisions l (map fst reqs)) \<and>
   fst (limiter_serve conv next l reqs) = fst (allow_run l (map fst reqs)) \<and>
   length (filter id (decisions l (map fst reqs))) = snd (allow_run l (map fst reqs)) \<and>
   status_of (calls (shed conv l)) = 429 \<and>
   header_of (calls (shed conv l)) headerRetryAfter = [retryAfter conv l] \<and>
   body (serve (calls (shed conv l))) = ''Too Many Requests'' @ [CHR 0x0A]"
  using limiter_serve_decides [of conv "next" l reqs] shed_response [of conv l]
    decisions_allow_run [of l "map fst reqs"] by simp

theorem limiter_sheds_with_429_witness:
  "let l = \<lparr>rate = Fin 2, burst = f64_of_int 1, tokens = f64_of_int 1, last_time = 0\<rparr>
   in snd (limiter_serve amd64_conv (answers []) l [(0, demo_request), (0, demo_request), (500000000, demo_request)]) =
     [answers [] demo_request, shed amd64_conv l, answers [] demo_request]"
proof -
  let ?l = "\<lparr>rate = Fin 2, burst = f64_of_int 1, tokens = f64_of_int 1, last_time = 0\<rparr>"
  have "decisions ?l [0, 0, 500000000] = [True, False, True]" by code_simp
  then show ?thesis
    using limiter_sheds_with_429 [of amd64_conv "answers []" ?l
        "[(0, demo_request), (0, demo_request), (500000000, demo_request)]"] by simp
qed

text \<open>
  C34. The metrics middleware records what the client receives: for a handler that returns and whose
  statuses are final ones it adds exactly one observation, labelled with the normalized method and the
  status sent, which is between 100 and 999; the observation of a handler that panics is missing.
\<close>

theorem metrics_record_sent_status:
  assumes "list_all plain_call (calls (next r))"
  shows "let out = metrics_handler seconds next r
    in calls out = calls (next r) \<and> panic_with out = panic_with (next r) \<and>
       effects out = effects (next r) @ (if panic_with (next r) = None
         then [Observe (normalizeMethod (req_method r)) (status_of (calls (next r))) seconds] else []) \<and>
       valid_code (status_of (calls (next r)))"
proof -
  have s: "sw_status (fold statusWriter_call (calls (next r)) \<lparr>sw_status = 200, sw_wroteHeader = False\<rparr>) =
      status_of (calls (next r))"
    using assms by (intro status_writer.recorded_is_sent) simp_all
  have "valid_code c" if "sent (fold rw_call cs r) = Some (c, h)" "list_all plain_call cs"
    "\<forall>c h. sent r = Some (c, h) \<longrightarrow> valid_code c" for cs r c h
    using that
  proof (induction cs arbitrary: r)
    case (Cons x cs)
    have "\<forall>c h. sent (rw_call x r) = Some (c, h) \<longrightarrow> valid_code c"
      using Cons.prems(2,3)
      by (cases x) (auto simp: send_status_def plain_call_def Let_def split: option.splits if_splits)
    then show ?case using Cons.IH [of "rw_call x r"] Cons.prems(1,2) by simp
  qed auto
  from this [of "calls (next r)" fresh_response] have "valid_code (status_of (calls (next r)))"
    using assms by (cases "sent (fold rw_call (calls (next r)) fresh_response)")
      (auto simp: status_of_def serve_def fresh_response_def)
  then show ?thesis using s by (auto simp: metrics_handler_def Let_def split: option.splits)
qed

theorem metrics_record_sent_status_witness:
  "effects (metrics_handler (Fin 1) (answers [WriteHeader 204]) (demo_request\<lparr>req_method := ''BREW''\<rparr>)) =
     [Observe ''other'' 204 (Fin 1)]"
proof -
  let ?r = "demo_request\<lparr>req_method := ''BREW''\<rparr>"
  have "list_all plain_call (calls (answers [WriteHeader 204] ?r))"
    by (simp add: answers_def plain_call_def)
  moreover have "status_of [WriteHeader 204] = 204" by (simp add: status_of_def serve_def fresh_response_def)
  ultimately show ?thesis
    using metrics_record_sent_status [of "answers [WriteHeader 204]" ?r "Fin 1"]
    by (simp add: answers_def Let_def normalizeMethod_def knownMethods_def)
qed

end
