(* ===== verification/GoText.thy ===== *)
theory GoText
  imports GoStrings
begin

text \<open>
  Text processing of the standard library: UTF-8 decoding, white space, splitting and cutting of
  strings, and the decimal parsers of \<open>strconv\<close> with their syntax and range errors. Strings are byte
  lists, as in Go.
\<close>

section \<open>UTF-8\<close>

definition byte_of :: "char \<Rightarrow> nat" where
  "byte_of c = of_char c"

definition between :: "nat \<Rightarrow> char \<Rightarrow> nat \<Rightarrow> bool" where
  "between lo c hi \<longleftrightarrow> lo \<le> byte_of c \<and> byte_of c \<le> hi"

text \<open>
  \<open>utf8.DecodeRuneInString\<close>: the first rune and its width; an invalid encoding is U+FFFD of width 1.
\<close>

fun decode_rune :: "string \<Rightarrow> nat \<times> nat" where
  "decode_rune [] = (0xFFFD, 0)"
| "decode_rune (c0 # cs) =
     (let b0 = byte_of c0 in
      if b0 < 0x80 then (b0, 1)
      else if between 0xC2 c0 0xDF then
        (case cs of
           c1 # _ \<Rightarrow> if between 0x80 c1 0xBF then ((b0 - 0xC0) * 0x40 + (byte_of c1 - 0x80), 2) else (0xFFFD, 1)
         | _ \<Rightarrow> (0xFFFD, 1))
      else if between 0xE0 c0 0xEF then
        (case cs of
           c1 # c2 # _ \<Rightarrow>
             if between (if b0 = 0xE0 then 0xA0 else 0x80) c1 (if b0 = 0xED then 0x9F else 0xBF) \<and> between 0x80 c2 0xBF
             then ((b0 - 0xE0) * 0x1000 + (byte_of c1 - 0x80) * 0x40 + (byte_of c2 - 0x80), 3) else (0xFFFD, 1)
         | _ \<Rightarrow> (0xFFFD, 1))
      else if between 0xF0 c0 0xF4 then
        (case cs of
           c1 # c2 # c3 # _ \<Rightarrow>
             if between (if b0 = 0xF0 then 0x90 else 0x80) c1 (if b0 = 0xF4 then 0x8F else 0xBF) \<and>
                between 0x80 c2 0xBF \<and> between 0x80 c3 0xBF
             then ((b0 - 0xF0) * 0x40000 + (byte_of c1 - 0x80) * 0x1000 + (byte_of c2 - 0x80) * 0x40 + (byte_of c3 - 0x80), 4)
             else (0xFFFD, 1)
         | _ \<Rightarrow> (0xFFFD, 1))
      else (0xFFFD, 1))"

text \<open>The runes of a string, each with the bytes that encode it: the loop \<open>for _, r := range s\<close>.\<close>

fun runes :: "string \<Rightarrow> (nat \<times> string) list" where
  "runes [] = []"
| "runes (c # cs) =
     (let w = snd (decode_rune (c # cs))
      in (fst (decode_rune (c # cs)), c # take (w - 1) cs) # runes (drop (w - 1) cs))"

definition RuneCountInString :: "string \<Rightarrow> nat" where
  "RuneCountInString s = length (runes s)"

lemma concat_runes [simp]: "concat (map snd (runes s)) = s"
  by (induction s rule: runes.induct) (simp_all add: Let_def del: decode_rune.simps)

lemma decode_rune_ascii: "byte_of c < 0x80 \<Longrightarrow> decode_rune (c # cs) = (byte_of c, 1)"
  by (simp add: Let_def)

lemma runes_ascii:
  assumes "\<forall>c \<in> set s. byte_of c < 0x80"
  shows "runes s = map (\<lambda>c. (byte_of c, [c])) s"
  using assms
proof (induction s)
  case (Cons c cs)
  then show ?case by (simp add: decode_rune_ascii del: decode_rune.simps)
qed simp

lemma RuneCountInString_le: "RuneCountInString s \<le> length s"
  unfolding RuneCountInString_def
  by (induction s rule: runes.induct) (auto simp: Let_def simp del: decode_rune.simps intro: le_trans)

section \<open>White space\<close>

text \<open>\<open>unicode.IsSpace\<close>.\<close>

definition IsSpace :: "nat \<Rightarrow> bool" where
  "IsSpace r \<longleftrightarrow> r \<in> {0x09, 0x0A, 0x0B, 0x0C, 0x0D, 0x20, 0x85, 0xA0, 0x1680, 0x2028, 0x2029, 0x202F, 0x205F, 0x3000}
     \<or> 0x2000 \<le> r \<and> r \<le> 0x200A"

definition TrimSpace :: "string \<Rightarrow> string" where
  "TrimSpace s = concat (map snd (rev (dropWhile (IsSpace \<circ> fst) (rev (dropWhile (IsSpace \<circ> fst) (runes s))))))"

text \<open>\<open>strings.Fields\<close>: the maximal runs of runes that are not white space.\<close>

fun fields_of :: "string \<Rightarrow> (nat \<times> string) list \<Rightarrow> string list" where
  "fields_of acc [] = (if acc = [] then [] else [acc])"
| "fields_of acc ((r, bs) # rs) =
     (if IsSpace r then (if acc = [] then fields_of [] rs else acc # fields_of [] rs)
      else fields_of (acc @ bs) rs)"

definition Fields :: "string \<Rightarrow> string list" where
  "Fields s = fields_of [] (runes s)"

text \<open>Strings of visible ASCII characters: one rune per byte and nothing to trim.\<close>

definition visible :: "char \<Rightarrow> bool" where
  "visible c \<longleftrightarrow> 0x20 < byte_of c \<and> byte_of c < 0x7F"

lemma not_space_visible: "visible c \<Longrightarrow> \<not> IsSpace (byte_of c)"
  by (auto simp: visible_def IsSpace_def)

lemma runes_visible: "list_all visible s \<Longrightarrow> runes s = map (\<lambda>c. (byte_of c, [c])) s"
  by (rule runes_ascii) (auto simp: list_all_iff visible_def)

lemma dropWhile_none: "\<forall>x \<in> set xs. \<not> P x \<Longrightarrow> dropWhile P xs = xs"
  by (cases xs) auto

lemma TrimSpace_visible: "list_all visible s \<Longrightarrow> TrimSpace s = s"
proof -
  assume v: "list_all visible s"
  let ?rs = "map (\<lambda>c. (byte_of c, [c])) s"
  have "\<forall>x \<in> set ?rs. \<not> (IsSpace \<circ> fst) x" "\<forall>x \<in> set (rev ?rs). \<not> (IsSpace \<circ> fst) x"
    using v not_space_visible by (auto simp: list_all_iff)
  then show ?thesis using v concat_runes [of s] by (simp only: TrimSpace_def runes_visible dropWhile_none rev_rev_ident)
qed

lemma RuneCountInString_visible: "list_all visible s \<Longrightarrow> RuneCountInString s = length s"
  by (simp add: RuneCountInString_def runes_visible)

section \<open>Splitting\<close>

text \<open>\<open>strings.Split\<close> with a separator of one character, and \<open>strings.Cut\<close>.\<close>

fun Split :: "string \<Rightarrow> char \<Rightarrow> string list" where
  "Split [] sep = [[]]"
| "Split (c # cs) sep =
     (if c = sep then [] # Split cs sep
      else case Split cs sep of p # ps \<Rightarrow> (c # p) # ps | [] \<Rightarrow> [[c]])"

definition Cut :: "string \<Rightarrow> char \<Rightarrow> string \<times> string \<times> bool" where
  "Cut s sep =
     (let before = takeWhile (\<lambda>c. c \<noteq> sep) s
      in if sep \<in> set s then (before, drop (length before + 1) s, True) else (s, [], False))"

lemma Split_nonempty [simp]: "Split s sep \<noteq> []"
  by (cases s) (auto split: list.splits)

text \<open>Joining what \<open>Split\<close> produced gives the string back, and no part contains the separator.\<close>

lemma Join_Split: "strings_Join (Split s sep) [sep] = s"
proof (induction s)
  case (Cons c cs)
  obtain p ps where e: "Split cs sep = p # ps" by (cases "Split cs sep") auto
  then show ?case using Cons by (cases ps) auto
qed simp

lemma Split_parts: "p \<in> set (Split s sep) \<Longrightarrow> sep \<notin> set p"
proof (induction s arbitrary: p)
  case (Cons c cs)
  obtain q qs where e: "Split cs sep = q # qs" by (cases "Split cs sep") auto
  then show ?case using Cons by (auto split: if_splits)
qed simp

lemma Cut_found: "Cut s sep = (a, b, True) \<Longrightarrow> s = a @ sep # b \<and> sep \<notin> set a"
proof -
  assume h: "Cut s sep = (a, b, True)"
  then have "sep \<in> set s" by (auto simp: Cut_def Let_def split: if_splits)
  then obtain u v where s: "s = u @ sep # v" "sep \<notin> set u" by (blast dest: split_list_first)
  then have "takeWhile (\<lambda>c. c \<noteq> sep) s = u" by (subst s(1), subst takeWhile_append2) auto
  then show ?thesis using h s by (auto simp: Cut_def Let_def)
qed

section \<open>Decimal parsers\<close>

text \<open>
  \<open>strconv.ParseUint(s, 10, 64)\<close> and \<open>strconv.ParseInt(s, 10, 64)\<close> (\<open>Atoi\<close> on a 64-bit platform):
  \<open>None\<close> is a syntax or range error.
\<close>

definition uint64_max :: int where "uint64_max = 2 ^ 64 - 1"

definition ParseUint :: "string \<Rightarrow> int option" where
  "ParseUint s =
     (if s = [] \<or> \<not> list_all is_digit s then None
      else if int (parse_nat s) \<le> uint64_max then Some (int (parse_nat s)) else None)"

definition ParseInt :: "string \<Rightarrow> int option" where
  "ParseInt s =
     (let neg = (s \<noteq> [] \<and> hd s = CHR ''-'');
          digits = (if s \<noteq> [] \<and> (hd s = CHR ''-'' \<or> hd s = CHR ''+'') then tl s else s)
      in case ParseUint digits of
           None \<Rightarrow> None
         | Some n \<Rightarrow> let v = (if neg then - n else n) in if in_int64 v then Some v else None)"

lemma list_all_is_digit_format [simp]: "list_all is_digit (format_nat n)"
  using format_nat_digits by (auto simp: list_all_iff)

lemma ParseUint_format: "int n \<le> uint64_max \<Longrightarrow> ParseUint (format_nat n) = Some (int n)"
  by (simp add: ParseUint_def)

lemma hd_format_nat: "is_digit (hd (format_nat n))"
  using format_nat_digits [of "hd (format_nat n)" n] by simp

lemma ParseInt_Itoa: "in_int64 i \<Longrightarrow> ParseInt (Itoa i) = Some i"
proof (cases "i < 0")
  case True
  moreover assume "in_int64 i"
  ultimately show ?thesis
    using ParseUint_format [of "nat (- i)"]
    by (simp add: ParseInt_def Itoa_def int64_defs uint64_max_def)
next
  case False
  have "hd (format_nat (nat i)) \<noteq> CHR ''-''" "hd (format_nat (nat i)) \<noteq> CHR ''+''"
    using hd_format_nat [of "nat i"] by (auto simp: is_digit_def)
  moreover assume "in_int64 i"
  ultimately show ?thesis
    using False ParseUint_format [of "nat i"]
    by (simp add: ParseInt_def Itoa_def int64_defs uint64_max_def)
qed

lemma ParseInt_range: "ParseInt s = Some v \<Longrightarrow> in_int64 v"
  by (auto simp: ParseInt_def Let_def split: option.splits if_splits)

lemma ParseUint_range: "ParseUint s = Some v \<Longrightarrow> 0 \<le> v \<and> v \<le> uint64_max"
  by (auto simp: ParseUint_def split: if_splits)

end
