(* ===== verification/Validator.thy ===== *)
theory Validator
  imports GoText Float64
begin

text \<open>
  Package \<open>validator\<close>: struct validation by tags. The values a caller passes are modelled as
  \<open>reflect\<close> sees them: a value has a kind, a struct value has the field list of its type, and a
  pointer is an address of a heap, so shared and cyclic values are values of the model. Struct types
  are named and declared in a type environment, which gives the name, the visibility, the
  \<open>validate\<close> tag and the type of every field.
\<close>

section \<open>Values and types\<close>

datatype width = WNative | W8 | W16 | W32 | W64

datatype nkind = KInterface | KChan | KFunc | KUnsafePointer

text \<open>
  Slices and maps carry their length (nil is \<open>None\<close>), complex numbers whether they are zero;
  \<open>VNilable\<close> are the kinds validation never looks into, with whether they are nil.
\<close>

datatype gval =
    VBool bool
  | VInt width int
  | VUint width int
  | VUintptr int
  | VFloat width float64
  | VComplex width bool
  | VString string
  | VSlice "nat option"
  | VMap "nat option"
  | VArray "gval list"
  | VPtr "nat option"
  | VStruct string "gval list"
  | VNilable nkind bool

datatype gty =
    TBool | TInt width | TUint width | TUintptr | TFloat width | TComplex width | TString
  | TSlice | TMap | TArray nat gty | TPtr gty | TStruct string | TNilable nkind

record sfield =
  Name :: string
  exported :: bool
  validate_tag :: string
  ftype :: gty

type_synonym tenv = "string \<Rightarrow> sfield list"
type_synonym heap = "nat \<Rightarrow> gval"

fun width_suffix :: "width \<Rightarrow> string" where
  "width_suffix WNative = ''''"
| "width_suffix W8 = ''8''"
| "width_suffix W16 = ''16''"
| "width_suffix W32 = ''32''"
| "width_suffix W64 = ''64''"

text \<open>\<open>reflect.Kind.String\<close>.\<close>

fun kind_String :: "gval \<Rightarrow> string" where
  "kind_String (VBool _) = ''bool''"
| "kind_String (VInt w _) = ''int'' @ width_suffix w"
| "kind_String (VUint w _) = ''uint'' @ width_suffix w"
| "kind_String (VUintptr _) = ''uintptr''"
| "kind_String (VFloat w _) = ''float'' @ width_suffix w"
| "kind_String (VComplex w _) = (if w = W32 then ''complex64'' else ''complex128'')"
| "kind_String (VString _) = ''string''"
| "kind_String (VSlice _) = ''slice''"
| "kind_String (VMap _) = ''map''"
| "kind_String (VArray _) = ''array''"
| "kind_String (VPtr _) = ''ptr''"
| "kind_String (VStruct _ _) = ''struct''"
| "kind_String (VNilable KInterface _) = ''interface''"
| "kind_String (VNilable KChan _) = ''chan''"
| "kind_String (VNilable KFunc _) = ''func''"
| "kind_String (VNilable KUnsafePointer _) = ''unsafe.Pointer''"

text \<open>\<open>reflect.Value.IsZero\<close>; blank fields of a struct do not count.\<close>

fun IsZero :: "tenv \<Rightarrow> gval \<Rightarrow> bool" where
  "IsZero te (VBool b) \<longleftrightarrow> \<not> b"
| "IsZero te (VInt w i) \<longleftrightarrow> i = 0"
| "IsZero te (VUint w i) \<longleftrightarrow> i = 0"
| "IsZero te (VUintptr i) \<longleftrightarrow> i = 0"
| "IsZero te (VFloat w x) \<longleftrightarrow> x = Fin 0"
| "IsZero te (VComplex w z) \<longleftrightarrow> z"
| "IsZero te (VString s) \<longleftrightarrow> s = ''''"
| "IsZero te (VSlice n) \<longleftrightarrow> n = None"
| "IsZero te (VMap n) \<longleftrightarrow> n = None"
| "IsZero te (VArray vs) \<longleftrightarrow> list_all (IsZero te) vs"
| "IsZero te (VPtr p) \<longleftrightarrow> p = None"
| "IsZero te (VStruct T vs) \<longleftrightarrow>
     list_all (\<lambda>(f, z). Name f = ''_'' \<or> z) (zip (te T) (map (IsZero te) vs))"
| "IsZero te (VNilable k n) \<longleftrightarrow> n"

section \<open>Errors\<close>

record FieldError =
  Field :: string
  Tag :: string
  Param :: string

text \<open>
  Formatting and parsing of floating-point numbers and the quoting of \<open>%q\<close> are arguments: every
  statement below holds for any of them.
\<close>

record strconv =
  ParseFloat :: "string \<Rightarrow> float64 option"
  FormatFloat :: "float64 \<Rightarrow> string"
  Quote :: "string \<Rightarrow> string"

definition FieldError_Error :: "strconv \<Rightarrow> FieldError \<Rightarrow> string" where
  "FieldError_Error sc e =
     (if Param e = '''' then ''field '' @ Quote sc (Field e) @ '' failed the '' @ Quote sc (Tag e) @ '' rule''
      else ''field '' @ Quote sc (Field e) @ '' failed the '' @ Quote sc (Tag e) @ '' rule (param ''
           @ Quote sc (Param e) @ '')'')"

definition ValidationErrors_Error :: "strconv \<Rightarrow> FieldError list \<Rightarrow> string" where
  "ValidationErrors_Error sc es = strings_Join (map (FieldError_Error sc) es) ''; ''"

text \<open>
  \<open>Unwrap\<close> copies the field errors into a slice of errors; \<open>errors.As\<close> with a \<open>*FieldError\<close> target takes the
  first of them.
\<close>

definition ValidationErrors_Unwrap :: "FieldError list \<Rightarrow> FieldError list" where
  "ValidationErrors_Unwrap es = fold (\<lambda>i errs. errs[i := es ! i]) [0..<length es] (replicate (length es) \<lparr>Field = '''', Tag = '''', Param = ''''\<rparr>)"

lemma fold_update_copies: "n \<le> length xs \<Longrightarrow> length ys = length xs \<Longrightarrow>
    fold (\<lambda>i zs. zs[i := xs ! i]) [0..<n] ys = take n xs @ drop n ys"
proof (induction n)
  case (Suc n)
  then show ?case by (simp add: take_Suc_conv_app_nth list_update_append Cons_nth_drop_Suc [symmetric])
qed simp

lemma ValidationErrors_Unwrap_all [simp]: "ValidationErrors_Unwrap es = es"
  by (simp add: ValidationErrors_Unwrap_def fold_update_copies)

section \<open>Rules\<close>

definition email_space :: "char \<Rightarrow> bool" where
  "email_space c \<longleftrightarrow> byte_of c \<in> {0x09, 0x0A, 0x0C, 0x0D, 0x20}"

definition email_char :: "char \<Rightarrow> bool" where
  "email_char c \<longleftrightarrow> c \<noteq> CHR ''@'' \<and> \<not> email_space c"

text \<open>
  \<open>emailPattern\<close>: the local part ends at the first \<open>@\<close>, the rest has no further one, and a dot
  stands strictly inside it.
\<close>

definition emailPattern :: "string \<Rightarrow> bool" where
  "emailPattern s =
     (let u = takeWhile email_char s; rest = dropWhile email_char s; d = tl rest
      in u \<noteq> [] \<and> rest \<noteq> [] \<and> hd rest = CHR ''@'' \<and> list_all email_char d \<and>
         CHR ''.'' \<in> set (butlast (tl d)))"

definition cmpInt :: "int \<Rightarrow> int \<Rightarrow> bool \<Rightarrow> bool" where
  "cmpInt v threshold isMin = (if isMin then threshold \<le> v else v \<le> threshold)"

definition cmpUint :: "int \<Rightarrow> int \<Rightarrow> bool \<Rightarrow> bool" where
  "cmpUint v threshold isMin = (if isMin then threshold \<le> v else v \<le> threshold)"

definition cmpFloat :: "float64 \<Rightarrow> float64 \<Rightarrow> bool \<Rightarrow> bool" where
  "cmpFloat v threshold isMin = (if isMin then fle threshold v else fle v threshold)"

definition parseInt :: "strconv \<Rightarrow> string \<Rightarrow> int go" where
  "parseInt sc s = (case ParseInt s of
     Some n \<Rightarrow> Return n | None \<Rightarrow> Panic (''validator: invalid integer parameter '' @ Quote sc s))"

definition parseUint :: "strconv \<Rightarrow> string \<Rightarrow> int go" where
  "parseUint sc s = (case ParseUint s of
     Some n \<Rightarrow> Return n | None \<Rightarrow> Panic (''validator: invalid unsigned parameter '' @ Quote sc s))"

definition parseFloat :: "strconv \<Rightarrow> string \<Rightarrow> float64 go" where
  "parseFloat sc s = (case ParseFloat sc s of
     Some n \<Rightarrow> Return n | None \<Rightarrow> Panic (''validator: invalid float parameter '' @ Quote sc s))"

definition checkEmail :: "gval \<Rightarrow> bool go" where
  "checkEmail fv = (case fv of
     VString s \<Rightarrow> Return (emailPattern s)
   | _ \<Rightarrow> Panic (''validator: 'email' rule on a non-string field ('' @ kind_String fv @ '')''))"

definition checkMinMax :: "strconv \<Rightarrow> gval \<Rightarrow> string \<Rightarrow> bool \<Rightarrow> bool go" where
  "checkMinMax sc fv param isMin = (case fv of
     VString s \<Rightarrow> go_bind (parseInt sc param) (\<lambda>n. Return (cmpInt (int (RuneCountInString s)) n isMin))
   | VSlice l \<Rightarrow> go_bind (parseInt sc param) (\<lambda>n. Return (cmpInt (int (case l of None \<Rightarrow> 0 | Some k \<Rightarrow> k)) n isMin))
   | VMap l \<Rightarrow> go_bind (parseInt sc param) (\<lambda>n. Return (cmpInt (int (case l of None \<Rightarrow> 0 | Some k \<Rightarrow> k)) n isMin))
   | VArray vs \<Rightarrow> go_bind (parseInt sc param) (\<lambda>n. Return (cmpInt (int (length vs)) n isMin))
   | VInt w i \<Rightarrow> go_bind (parseInt sc param) (\<lambda>n. Return (cmpInt i n isMin))
   | VUint w i \<Rightarrow> go_bind (parseUint sc param) (\<lambda>n. Return (cmpUint i n isMin))
   | VFloat w x \<Rightarrow> go_bind (parseFloat sc param) (\<lambda>n. Return (cmpFloat x n isMin))
   | _ \<Rightarrow> Panic (''validator: 'min'/'max' rule on an unsupported kind ('' @ kind_String fv @ '')''))"

definition FormatBool :: "bool \<Rightarrow> string" where
  "FormatBool b = (if b then ''true'' else ''false'')"

definition formatScalar :: "strconv \<Rightarrow> gval \<Rightarrow> string go" where
  "formatScalar sc fv = (case fv of
     VString s \<Rightarrow> Return s
   | VInt w i \<Rightarrow> Return (Itoa i)
   | VUint w i \<Rightarrow> Return (Itoa i)
   | VFloat w x \<Rightarrow> Return (FormatFloat sc x)
   | VBool b \<Rightarrow> Return (FormatBool b)
   | _ \<Rightarrow> Panic (''validator: 'oneof' rule on an unsupported kind ('' @ kind_String fv @ '')''))"

definition checkOneOf :: "strconv \<Rightarrow> gval \<Rightarrow> string \<Rightarrow> bool go" where
  "checkOneOf sc fv param =
     go_bind (formatScalar sc fv) (\<lambda>got. Return (list_ex (\<lambda>option. got = option) (Fields param)))"

definition checkRule :: "strconv \<Rightarrow> tenv \<Rightarrow> gval \<Rightarrow> string \<Rightarrow> string \<Rightarrow> bool go" where
  "checkRule sc te fv key param =
     (if key = ''required'' then Return (\<not> IsZero te fv)
      else if key = ''email'' then checkEmail fv
      else if key = ''min'' then checkMinMax sc fv param True
      else if key = ''max'' then checkMinMax sc fv param False
      else if key = ''oneof'' then checkOneOf sc fv param
      else Panic (''validator: unknown rule '' @ Quote sc key))"

text \<open>The loop of \<open>applyRules\<close> over the rules of a tag.\<close>

fun apply_each :: "strconv \<Rightarrow> tenv \<Rightarrow> gval \<Rightarrow> string \<Rightarrow> string list \<Rightarrow> FieldError list \<Rightarrow> FieldError list go" where
  "apply_each sc te fv name [] errs = Return errs"
| "apply_each sc te fv name (rule0 # rest) errs =
     (let rule = TrimSpace rule0 in
      if rule = '''' then apply_each sc te fv name rest errs
      else
        let (key, param, found) = Cut rule CHR ''='' in
        go_bind (checkRule sc te fv key param) (\<lambda>ok.
          apply_each sc te fv name rest
            (if ok then errs else errs @ [\<lparr>Field = name, Tag = key, Param = param\<rparr>])))"

definition applyRules :: "strconv \<Rightarrow> tenv \<Rightarrow> gval \<Rightarrow> string \<Rightarrow> string \<Rightarrow> FieldError list \<Rightarrow> FieldError list go" where
  "applyRules sc te fv name tag errs = apply_each sc te fv name (Split tag CHR '','') errs"

section \<open>Traversal\<close>

text \<open>
  The pointer loops and the recursion end only on acyclic values: not returning is \<open>None\<close>.
\<close>

partial_function (option) deref :: "heap \<Rightarrow> gval \<Rightarrow> gval go option" where
  "deref h v = (case v of
     VPtr None \<Rightarrow> Some (Panic ''validator: nil pointer'')
   | VPtr (Some a) \<Rightarrow> deref h (h a)
   | _ \<Rightarrow> Some (Return v))"

text \<open>The loop that follows non-nil pointers before recursing.\<close>

partial_function (option) follow :: "heap \<Rightarrow> gval \<Rightarrow> gval option" where
  "follow h v = (case v of VPtr (Some a) \<Rightarrow> follow h (h a) | _ \<Rightarrow> Some v)"

definition field_rules :: "strconv \<Rightarrow> tenv \<Rightarrow> sfield \<Rightarrow> gval \<Rightarrow> string \<Rightarrow> FieldError list \<Rightarrow> FieldError list go" where
  "field_rules sc te sf fv name errs =
     (if validate_tag sf \<noteq> '''' \<and> validate_tag sf \<noteq> ''-'' then applyRules sc te fv name (validate_tag sf) errs
      else Return errs)"

text \<open>The test \<open>nested.Kind() == reflect.Struct\<close>.\<close>

definition struct_of :: "gval \<Rightarrow> (string \<times> gval list) option" where
  "struct_of v = (case v of VStruct T vs \<Rightarrow> Some (T, vs) | _ \<Rightarrow> None)"

text \<open>The field loop of \<open>validateStruct\<close> on the fields not yet visited.\<close>

partial_function (option) validateFields ::
  "strconv \<Rightarrow> tenv \<Rightarrow> heap \<Rightarrow> (sfield \<times> gval) list \<Rightarrow> string \<Rightarrow> FieldError list \<Rightarrow> FieldError list go option" where
  "validateFields sc te h fvs prefix errs = (case fvs of
     [] \<Rightarrow> Some (Return errs)
   | (sf, fv) # rest \<Rightarrow>
       if \<not> exported sf then validateFields sc te h rest prefix errs
       else
         (case field_rules sc te sf fv (prefix @ Name sf) errs of
            Panic m \<Rightarrow> Some (Panic m)
          | Return errs1 \<Rightarrow>
              Option.bind (follow h fv) (\<lambda>nested.
                case struct_of nested of
                  Some (T, vs) \<Rightarrow>
                    Option.bind (validateFields sc te h (zip (te T) vs) (prefix @ Name sf @ ''.'') errs1) (\<lambda>r.
                      case r of Panic m \<Rightarrow> Some (Panic m)
                      | Return errs2 \<Rightarrow> validateFields sc te h rest prefix errs2)
                | None \<Rightarrow> validateFields sc te h rest prefix errs1)))"

definition validateStruct ::
  "strconv \<Rightarrow> tenv \<Rightarrow> heap \<Rightarrow> string \<Rightarrow> gval list \<Rightarrow> string \<Rightarrow> FieldError list \<Rightarrow> FieldError list go option" where
  "validateStruct sc te h T vs prefix errs = validateFields sc te h (zip (te T) vs) prefix errs"

text \<open>\<open>Struct\<close>; the nil error is the empty list.\<close>

definition Struct :: "strconv \<Rightarrow> tenv \<Rightarrow> heap \<Rightarrow> gval option \<Rightarrow> FieldError list go option" where
  "Struct sc te h v = (case v of
     None \<Rightarrow> Some (Panic ''validator: nil value'')
   | Some v0 \<Rightarrow>
       Option.bind (deref h v0) (\<lambda>r. case r of
         Panic m \<Rightarrow> Some (Panic m)
       | Return (VStruct T vs) \<Rightarrow> validateStruct sc te h T vs '''' []
       | Return rv \<Rightarrow> Some (Panic (''validator: expected a struct, got '' @ kind_String rv))))"

section \<open>What a tag demands\<close>

text \<open>The rules of a tag in order, each a key and a parameter.\<close>

definition rules :: "string \<Rightarrow> (string \<times> string) list" where
  "rules tag = map (\<lambda>r. (fst (Cut r CHR ''=''), fst (snd (Cut r CHR ''='')))) (filter (\<lambda>r. r \<noteq> '''') (map TrimSpace (Split tag CHR '','')))"

definition tag_rules :: "sfield \<Rightarrow> (string \<times> string) list" where
  "tag_rules sf = (if validate_tag sf = '''' \<or> validate_tag sf = ''-'' then [] else rules (validate_tag sf))"

definition returns :: "'a go \<Rightarrow> bool" where
  "returns r = (case r of Return _ \<Rightarrow> True | Panic _ \<Rightarrow> False)"

lemma returns_simps [simp]: "returns (Return x)" "\<not> returns (Panic m)"
  by (simp_all add: returns_def)

lemma returns_iff: "returns r \<longleftrightarrow> (\<exists>x. r = Return x)"
  by (cases r) auto

definition failures :: "strconv \<Rightarrow> tenv \<Rightarrow> sfield \<Rightarrow> gval \<Rightarrow> string \<Rightarrow> FieldError list" where
  "failures sc te sf v name =
     map (\<lambda>(k, p). \<lparr>Field = name, Tag = k, Param = p\<rparr>)
       (filter (\<lambda>(k, p). checkRule sc te v k p = Return False) (tag_rules sf))"

definition applicable :: "strconv \<Rightarrow> tenv \<Rightarrow> sfield \<Rightarrow> gval \<Rightarrow> bool" where
  "applicable sc te sf v \<longleftrightarrow> list_all (\<lambda>(k, p). returns (checkRule sc te v k p)) (tag_rules sf)"

lemma apply_each_eq:
  "if list_all (\<lambda>(k, p). returns (checkRule sc te v k p)) ks
   then apply_each sc te v name rs errs = Return (errs @ map (\<lambda>(k, p). \<lparr>Field = name, Tag = k, Param = p\<rparr>)
          (filter (\<lambda>(k, p). checkRule sc te v k p = Return False) ks))
   else \<not> returns (apply_each sc te v name rs errs)"
  if "ks = map (\<lambda>r. (fst (Cut r CHR ''=''), fst (snd (Cut r CHR ''='')))) (filter (\<lambda>r. r \<noteq> '''') (map TrimSpace rs))"
  using that
proof (induction rs arbitrary: errs ks)
  case (Cons r rs)
  show ?case
  proof (cases "TrimSpace r = ''''")
    case True
    then show ?thesis using Cons.IH [OF refl, of errs] Cons.prems by (simp add: Let_def)
  next
    case False
    obtain k p b where c: "Cut (TrimSpace r) CHR ''='' = (k, p, b)" by (metis prod_cases3)
    show ?thesis
    proof (cases "checkRule sc te v k p")
      case (Return ok)
      then show ?thesis
        using False c Cons.prems Cons.IH [OF refl, of "if ok then errs else errs @ [\<lparr>Field = name, Tag = k, Param = p\<rparr>]"]
        by (cases ok) (auto simp: Let_def split: if_splits)
    next
      case (Panic m)
      then show ?thesis using False c Cons.prems by (simp add: Let_def)
    qed
  qed
qed simp

lemma field_rules_Return:
  "applicable sc te sf v \<Longrightarrow> field_rules sc te sf v name errs = Return (errs @ failures sc te sf v name)"
  using apply_each_eq [OF refl, of sc te v "Split (validate_tag sf) CHR '',''" name errs]
  by (auto simp: applicable_def field_rules_def failures_def tag_rules_def rules_def applyRules_def split: if_splits)

lemma field_rules_Panic: "\<not> applicable sc te sf v \<Longrightarrow> \<exists>m. field_rules sc te sf v name errs = Panic m"
  using apply_each_eq [OF refl, of sc te v "Split (validate_tag sf) CHR '',''" name errs]
  by (auto simp: applicable_def field_rules_def tag_rules_def rules_def applyRules_def returns_def
      split: if_splits go.splits)

section \<open>The fields a validation visits\<close>

text \<open>
  A field is visited if it is exported and reached through exported fields that are structs or
  chains of non-nil pointers to structs. The path joins the field names with dots.
\<close>

inductive field_at :: "tenv \<Rightarrow> heap \<Rightarrow> (sfield \<times> gval) list \<Rightarrow> string \<Rightarrow> sfield \<Rightarrow> gval \<Rightarrow> bool" for te h where
  here: "(f, v) \<in> set fvs \<Longrightarrow> exported f \<Longrightarrow> field_at te h fvs (Name f) f v"
| nested: "(f, v) \<in> set fvs \<Longrightarrow> exported f \<Longrightarrow> follow h v = Some (VStruct T vs) \<Longrightarrow>
    field_at te h (zip (te T) vs) p g w \<Longrightarrow> field_at te h fvs (Name f @ ''.'' @ p) g w"

inductive_cases field_at_elim: "field_at te h fvs p g w"

text \<open>Every failed rule of a visited field, with its path.\<close>

definition violations :: "strconv \<Rightarrow> tenv \<Rightarrow> heap \<Rightarrow> (sfield \<times> gval) list \<Rightarrow> string \<Rightarrow> FieldError set" where
  "violations sc te h fvs prefix = {e. \<exists>p f w. field_at te h fvs p f w \<and> e \<in> set (failures sc te f w (prefix @ p))}"

definition all_applicable :: "strconv \<Rightarrow> tenv \<Rightarrow> heap \<Rightarrow> (sfield \<times> gval) list \<Rightarrow> bool" where
  "all_applicable sc te h fvs \<longleftrightarrow> (\<forall>p f w. field_at te h fvs p f w \<longrightarrow> applicable sc te f w)"

lemma field_at_Nil [simp]: "\<not> field_at te h [] p g w"
  by (auto elim: field_at_elim)

lemma field_at_Cons:
  "field_at te h ((f, v) # rest) p g w \<longleftrightarrow>
     field_at te h rest p g w \<or>
     exported f \<and> (p = Name f \<and> g = f \<and> w = v \<or>
       (\<exists>T vs q. follow h v = Some (VStruct T vs) \<and> p = Name f @ ''.'' @ q \<and> field_at te h (zip (te T) vs) q g w))"
  by (subst (1 2) field_at.simps) (auto, blast+)

lemma struct_of_Some: "struct_of v = Some (T, vs) \<longleftrightarrow> v = VStruct T vs"
  by (auto simp: struct_of_def split: gval.splits)

lemma field_at_Cons_split:
  assumes "exported f" and "follow h v = Some nested"
  shows "field_at te h ((f, v) # rest) p g w \<longleftrightarrow>
    field_at te h rest p g w \<or> p = Name f \<and> g = f \<and> w = v \<or>
    (case struct_of nested of None \<Rightarrow> False
     | Some (T, vs) \<Rightarrow> \<exists>q. p = Name f @ ''.'' @ q \<and> field_at te h (zip (te T) vs) q g w)"
  unfolding field_at_Cons using assms by (auto simp: struct_of_def split: gval.splits)

lemma violations_Nil [simp]: "violations sc te h [] prefix = {}"
  by (simp add: violations_def)

lemma violations_unexported: "\<not> exported f \<Longrightarrow> violations sc te h ((f, v) # rest) prefix = violations sc te h rest prefix"
  by (simp add: violations_def field_at_Cons)

lemma violations_Cons:
  assumes "exported f" and "follow h v = Some nested"
  shows "violations sc te h ((f, v) # rest) prefix =
    set (failures sc te f v (prefix @ Name f)) \<union>
    (case struct_of nested of None \<Rightarrow> {} | Some (T, vs) \<Rightarrow> violations sc te h (zip (te T) vs) (prefix @ Name f @ ''.'')) \<union>
    violations sc te h rest prefix"
  unfolding violations_def field_at_Cons_split [OF assms]
  by (cases "struct_of nested") (auto; blast)+

lemma all_applicable_simps:
  "all_applicable sc te h []"
  "\<not> exported f \<Longrightarrow> all_applicable sc te h ((f, v) # rest) \<longleftrightarrow> all_applicable sc te h rest"
  "exported f \<Longrightarrow> follow h v = Some nested \<Longrightarrow> all_applicable sc te h ((f, v) # rest) \<longleftrightarrow>
     applicable sc te f v \<and>
     (case struct_of nested of None \<Rightarrow> True | Some (T, vs) \<Rightarrow> all_applicable sc te h (zip (te T) vs)) \<and>
     all_applicable sc te h rest"
proof -
  show "all_applicable sc te h []" by (simp add: all_applicable_def)
  show "\<not> exported f \<Longrightarrow> all_applicable sc te h ((f, v) # rest) \<longleftrightarrow> all_applicable sc te h rest"
    by (simp add: all_applicable_def field_at_Cons)
  assume "exported f" "follow h v = Some nested"
  then show "all_applicable sc te h ((f, v) # rest) \<longleftrightarrow>
     applicable sc te f v \<and>
     (case struct_of nested of None \<Rightarrow> True | Some (T, vs) \<Rightarrow> all_applicable sc te h (zip (te T) vs)) \<and>
     all_applicable sc te h rest"
    by (cases "struct_of nested") (simp_all add: all_applicable_def field_at_Cons_split, blast+)
qed

text \<open>What a validation that ends has done: all rules applied and their failures appended, or a panic.\<close>

definition exact :: "strconv \<Rightarrow> tenv \<Rightarrow> heap \<Rightarrow> (sfield \<times> gval) list \<Rightarrow> string \<Rightarrow> FieldError list \<Rightarrow> FieldError list go \<Rightarrow> bool" where
  "exact sc te h fvs prefix errs r = (case r of
     Return errs' \<Rightarrow> all_applicable sc te h fvs \<and> (\<exists>new. errs' = errs @ new \<and> set new = violations sc te h fvs prefix)
   | Panic m \<Rightarrow> \<not> all_applicable sc te h fvs)"

lemma not_applicable_here: "exported f \<Longrightarrow> \<not> applicable sc te f v \<Longrightarrow> \<not> all_applicable sc te h ((f, v) # rest)"
  by (auto simp: all_applicable_def field_at_Cons)

lemma exact_step:
  assumes ex: "exported f" and ap: "applicable sc te f v" and fo: "follow h v = Some nested"
    and rest: "\<And>e r'. val rest prefix e = Some r' \<Longrightarrow> exact sc te h rest prefix e r'"
    and inner: "\<And>T vs e r'. val (zip (te T) vs) (prefix @ Name f @ ''.'') e = Some r' \<Longrightarrow>
      exact sc te h (zip (te T) vs) (prefix @ Name f @ ''.'') e r'"
    and r: "(case struct_of nested of
        Some (T, vs) \<Rightarrow> Option.bind (val (zip (te T) vs) (prefix @ Name f @ ''.'') (errs @ failures sc te f v (prefix @ Name f)))
          (\<lambda>r. case r of Panic m \<Rightarrow> Some (Panic m) | Return errs2 \<Rightarrow> val rest prefix errs2)
      | None \<Rightarrow> val rest prefix (errs @ failures sc te f v (prefix @ Name f))) = Some r"
  shows "exact sc te h ((f, v) # rest) prefix errs r"
proof (cases "struct_of nested")
  case None
  then have "exact sc te h rest prefix (errs @ failures sc te f v (prefix @ Name f)) r" using r rest by simp
  then show ?thesis
    using None ap by (cases r) (auto simp: exact_def all_applicable_simps(3) [OF ex fo] violations_Cons [OF ex fo])
next
  case (Some Tvs)
  obtain T vs where t: "Tvs = (T, vs)" by (cases Tvs)
  let ?e = "errs @ failures sc te f v (prefix @ Name f)"
  obtain r1 where r1: "val (zip (te T) vs) (prefix @ Name f @ ''.'') ?e = Some r1"
    and r': "(case r1 of Panic m \<Rightarrow> Some (Panic m) | Return errs2 \<Rightarrow> val rest prefix errs2) = Some r"
    using r Some t by (auto simp: Option.bind_eq_Some_conv)
  have e1: "exact sc te h (zip (te T) vs) (prefix @ Name f @ ''.'') ?e r1" using inner [OF r1] .
  show ?thesis
  proof (cases r1)
    case (Return errs2)
    then have "exact sc te h rest prefix errs2 r" using r' rest by simp
    then show ?thesis
      using Some t e1 ap Return
      by (cases r) (auto simp: exact_def all_applicable_simps(3) [OF ex fo] violations_Cons [OF ex fo])
  next
    case (Panic m)
    then show ?thesis
      using Some t e1 r' ap by (auto simp: exact_def all_applicable_simps(3) [OF ex fo])
  qed
qed

lemma validateFields_exact:
  "validateFields sc te h fvs prefix errs = Some r \<Longrightarrow> exact sc te h fvs prefix errs r"
proof (induction rule: validateFields.raw_induct [rotated, consumes 1, case_names step])
  case (step val sc te h fvs prefix errs r)
  note ih = step(1) and body = step(2)
  show ?case
  proof (cases fvs)
    case Nil
    then show ?thesis using body by (auto simp: exact_def all_applicable_simps)
  next
    case (Cons p rest)
    obtain f v where p: "p = (f, v)" by (cases p)
    consider (hidden) "\<not> exported f" | (bad) "exported f" "\<not> applicable sc te f v"
      | (good) "exported f" "applicable sc te f v" by blast
    then show ?thesis
    proof cases
      case hidden
      then have "exact sc te h rest prefix errs r" using body Cons p ih by simp
      then show ?thesis
        using hidden Cons p by (cases r) (simp_all add: exact_def all_applicable_simps violations_unexported)
    next
      case bad
      obtain m where "field_rules sc te f v (prefix @ Name f) errs = Panic m"
        using field_rules_Panic [OF bad(2)] by blast
      then have "r = Panic m" using bad Cons p body by simp
      then show ?thesis using bad Cons p by (simp add: exact_def not_applicable_here)
    next
      case good
      obtain nested where fo: "follow h v = Some nested"
        using good body Cons p by (auto simp: field_rules_Return Option.bind_eq_Some_conv)
      show ?thesis
        unfolding Cons p
        by (rule exact_step [OF good fo, of "val sc te h"])
          (use good fo body Cons p ih in \<open>simp_all add: field_rules_Return\<close>)
    qed
  qed
qed

section \<open>Acyclic values\<close>

text \<open>
  The addresses a value holds in its fields, and the heaps without pointer cycles: every address has
  a rank above the addresses in the value it points to.
\<close>

fun ptrs :: "gval \<Rightarrow> nat set" where
  "ptrs (VPtr (Some a)) = {a}"
| "ptrs (VStruct T vs) = \<Union> (set (map ptrs vs))"
| "ptrs _ = {}"

definition ranked :: "(nat \<Rightarrow> nat) \<Rightarrow> heap \<Rightarrow> bool" where
  "ranked rank h \<longleftrightarrow> (\<forall>a. \<forall>b \<in> ptrs (h a). rank b < rank a)"

lemma follow_simps [simp]:
  "follow h (VPtr (Some a)) = follow h (h a)"
  "(\<forall>a. v \<noteq> VPtr (Some a)) \<Longrightarrow> follow h v = Some v"
  by (simp_all add: follow.simps split: gval.splits option.splits)

text \<open>Following pointers ends on an acyclic heap, at a value of smaller ranks.\<close>

lemma follow_address:
  assumes "ranked rank h"
  shows "\<exists>w. follow h (h a) = Some w \<and> (\<forall>b \<in> ptrs w. rank b < rank a)"
proof (induction a rule: measure_induct_rule [where f = rank])
  case (less a)
  show ?case
  proof (cases "\<exists>b. h a = VPtr (Some b)")
    case True
    then obtain b where b: "h a = VPtr (Some b)" by blast
    have "rank b < rank a" using assms b by (force simp: ranked_def)
    then show ?thesis using less.IH [of b] b by fastforce
  next
    case False
    then show ?thesis using assms by (auto simp: ranked_def)
  qed
qed

lemma follow_ranked:
  assumes "ranked rank h" and "\<forall>b \<in> ptrs v. rank b < n"
  obtains w where "follow h v = Some w" and "w = v \<or> (\<exists>m < n. \<forall>b \<in> ptrs w. rank b < m)"
proof (cases "\<exists>a. v = VPtr (Some a)")
  case True
  then obtain a where a: "v = VPtr (Some a)" by blast
  then show ?thesis using follow_address [OF assms(1), of a] assms(2) that by auto
next
  case False
  then show ?thesis using that by auto
qed

definition fields_below :: "(nat \<Rightarrow> nat) \<Rightarrow> nat \<Rightarrow> (sfield \<times> gval) list \<Rightarrow> bool" where
  "fields_below rank n fvs \<longleftrightarrow> (\<forall>(f, v) \<in> set fvs. \<forall>b \<in> ptrs v. rank b < n)"

definition fields_size :: "(sfield \<times> gval) list \<Rightarrow> nat" where
  "fields_size fvs = sum_list (map (\<lambda>(f, v). Suc (size v)) fvs)"

lemma fields_size_zip: "fields_size (zip fs vs) \<le> size_list size vs"
  unfolding fields_size_def
proof (induction fs arbitrary: vs)
  case (Cons f fs)
  then show ?case by (cases vs) auto
qed simp

lemma fields_below_zip: "\<forall>b \<in> ptrs (VStruct T vs). rank b < n \<Longrightarrow> fields_below rank n (zip fs vs)"
  by (fastforce simp: fields_below_def dest: set_zip_rightD)

lemma validateFields_simps [simp]:
  "validateFields sc te h [] prefix errs = Some (Return errs)"
  "\<not> exported f \<Longrightarrow> validateFields sc te h ((f, v) # rest) prefix errs = validateFields sc te h rest prefix errs"
  by (simp_all add: validateFields.simps)

lemma validateFields_exported:
  "exported f \<Longrightarrow> follow h v = Some nested \<Longrightarrow> applicable sc te f v \<Longrightarrow>
   validateFields sc te h ((f, v) # rest) prefix errs =
     (let errs1 = errs @ failures sc te f v (prefix @ Name f) in
      case struct_of nested of
        Some (T, vs) \<Rightarrow> Option.bind (validateFields sc te h (zip (te T) vs) (prefix @ Name f @ ''.'') errs1)
          (\<lambda>r. case r of Panic m \<Rightarrow> Some (Panic m) | Return errs2 \<Rightarrow> validateFields sc te h rest prefix errs2)
      | None \<Rightarrow> validateFields sc te h rest prefix errs1)"
  by (subst validateFields.simps) (simp add: field_rules_Return Let_def)

lemma validateFields_panics:
  "exported f \<Longrightarrow> \<not> applicable sc te f v \<Longrightarrow> \<exists>m. validateFields sc te h ((f, v) # rest) prefix errs = Some (Panic m)"
  using field_rules_Panic [of sc te f v "prefix @ Name f" errs] by (subst validateFields.simps) fastforce

lemma validateFields_total:
  assumes rk: "ranked rank h"
  shows "fields_below rank n fvs \<Longrightarrow> \<exists>r. validateFields sc te h fvs prefix errs = Some r"
proof (induction "(n, fields_size fvs)" arbitrary: n fvs prefix errs rule: wf_induct_rule [OF wf_lex_prod [OF wf_less wf_less]])
  case 1
  note ih = "1.hyps" and bel = "1.prems"
  show ?case
  proof (cases fvs)
    case (Cons q rest)
    obtain f v where q: "q = (f, v)" by (cases q)
    have rest: "\<exists>r. validateFields sc te h rest prefix e = Some r" for e
      using ih [of n rest prefix e] bel Cons q by (force simp: fields_size_def fields_below_def)
    show ?thesis
    proof (cases "exported f \<and> applicable sc te f v")
      case True
      obtain w where w: "follow h v = Some w" "w = v \<or> (\<exists>m < n. \<forall>b \<in> ptrs w. rank b < m)"
        using follow_ranked [OF rk, of v n] bel Cons q by (auto simp: fields_below_def)
      have inner: "\<exists>r. validateFields sc te h (zip (te T) vs) p e = Some r" if "w = VStruct T vs" for T vs p e
        using w(2)
      proof
        assume "w = v"
        then have "fields_size (zip (te T) vs) < fields_size fvs"
          using fields_size_zip [of "te T" vs] unfolding Cons q that [unfolded \<open>w = v\<close>] by (simp add: fields_size_def)
        moreover have "fields_below rank n (zip (te T) vs)"
          using bel Cons q that \<open>w = v\<close> fields_below_zip [of T vs rank n] by (auto simp: fields_below_def)
        ultimately show ?thesis using ih [of n "zip (te T) vs" p e] by simp
      next
        assume "\<exists>m < n. \<forall>b \<in> ptrs w. rank b < m"
        then have "\<exists>m < n. \<forall>b \<in> ptrs (VStruct T vs). rank b < m" by (simp only: that)
        then obtain m where m: "m < n" "\<forall>b \<in> ptrs (VStruct T vs). rank b < m" by blast
        then have "fields_below rank m (zip (te T) vs)" by (intro fields_below_zip)
        then show ?thesis using m ih [of m "zip (te T) vs" p e] by simp
      qed
      show ?thesis
      proof (cases "struct_of w")
        case None
        then show ?thesis using True w(1) rest unfolding Cons q by (simp add: validateFields_exported)
      next
        case (Some Tvs)
        obtain T vs where t: "Tvs = (T, vs)" by (cases Tvs)
        let ?e = "errs @ failures sc te f v (prefix @ Name f)"
        obtain r where r: "validateFields sc te h (zip (te T) vs) (prefix @ Name f @ ''.'') ?e = Some r"
          using inner [of T vs] Some t struct_of_Some by blast
        then show ?thesis
          using True w(1) rest Some t unfolding Cons q by (cases r) (simp_all add: validateFields_exported)
      qed
    next
      case False
      then show ?thesis
        using rest validateFields_panics [of f sc te v] unfolding Cons q by (cases "exported f") fastforce+
    qed
  qed simp
qed

section \<open>Typing\<close>

definition int_width :: "width \<Rightarrow> nat" where
  "int_width w = (case w of WNative \<Rightarrow> 64 | W8 \<Rightarrow> 8 | W16 \<Rightarrow> 16 | W32 \<Rightarrow> 32 | W64 \<Rightarrow> 64)"

text \<open>The values of a type; \<open>hty\<close> gives the types of the heap's addresses.\<close>

fun has_type :: "tenv \<Rightarrow> (nat \<Rightarrow> gty) \<Rightarrow> gval \<Rightarrow> gty \<Rightarrow> bool" where
  "has_type te hty (VBool b) t \<longleftrightarrow> t = TBool"
| "has_type te hty (VInt w i) t \<longleftrightarrow> t = TInt w \<and> - (2 ^ (int_width w - 1)) \<le> i \<and> i < 2 ^ (int_width w - 1)"
| "has_type te hty (VUint w i) t \<longleftrightarrow> t = TUint w \<and> 0 \<le> i \<and> i < 2 ^ int_width w"
| "has_type te hty (VUintptr i) t \<longleftrightarrow> t = TUintptr \<and> 0 \<le> i \<and> i < 2 ^ 64"
| "has_type te hty (VFloat w x) t \<longleftrightarrow> t = TFloat w"
| "has_type te hty (VComplex w z) t \<longleftrightarrow> t = TComplex w"
| "has_type te hty (VString s) t \<longleftrightarrow> t = TString"
| "has_type te hty (VSlice n) t \<longleftrightarrow> t = TSlice"
| "has_type te hty (VMap n) t \<longleftrightarrow> t = TMap"
| "has_type te hty (VArray vs) t \<longleftrightarrow>
     (\<exists>u. t = TArray (length vs) u \<and> list_all (\<lambda>p. p u) (map (has_type te hty) vs))"
| "has_type te hty (VPtr p) t \<longleftrightarrow> (\<exists>u. t = TPtr u \<and> (\<forall>a. p = Some a \<longrightarrow> hty a = u))"
| "has_type te hty (VStruct T vs) t \<longleftrightarrow>
     t = TStruct T \<and> length vs = length (te T) \<and>
     list_all (\<lambda>(f, p). p (ftype f)) (zip (te T) (map (has_type te hty) vs))"
| "has_type te hty (VNilable k n) t \<longleftrightarrow> t = TNilable k"

definition heap_typed :: "tenv \<Rightarrow> (nat \<Rightarrow> gty) \<Rightarrow> heap \<Rightarrow> bool" where
  "heap_typed te hty h \<longleftrightarrow> (\<forall>a. has_type te hty (h a) (hty a))"

text \<open>
  When a rule fits a field, decided from the type of the field and the tag alone.
\<close>

definition min_max_fits :: "strconv \<Rightarrow> gty \<Rightarrow> string \<Rightarrow> bool" where
  "min_max_fits sc t param = (case t of
     TString \<Rightarrow> ParseInt param \<noteq> None
   | TSlice \<Rightarrow> ParseInt param \<noteq> None
   | TMap \<Rightarrow> ParseInt param \<noteq> None
   | TArray n u \<Rightarrow> ParseInt param \<noteq> None
   | TInt w \<Rightarrow> ParseInt param \<noteq> None
   | TUint w \<Rightarrow> ParseUint param \<noteq> None
   | TFloat w \<Rightarrow> ParseFloat sc param \<noteq> None
   | _ \<Rightarrow> False)"

definition scalar_type :: "gty \<Rightarrow> bool" where
  "scalar_type t = (case t of TBool \<Rightarrow> True | TInt _ \<Rightarrow> True | TUint _ \<Rightarrow> True | TFloat _ \<Rightarrow> True | TString \<Rightarrow> True | _ \<Rightarrow> False)"

definition rule_fits :: "strconv \<Rightarrow> gty \<Rightarrow> string \<times> string \<Rightarrow> bool" where
  "rule_fits sc t rule = (case rule of (key, param) \<Rightarrow>
     key = ''required'' \<or> key = ''email'' \<and> t = TString \<or>
     (key = ''min'' \<or> key = ''max'') \<and> min_max_fits sc t param \<or>
     key = ''oneof'' \<and> scalar_type t)"

definition well_tagged :: "strconv \<Rightarrow> sfield \<Rightarrow> bool" where
  "well_tagged sc f \<longleftrightarrow> list_all (rule_fits sc (ftype f)) (tag_rules f)"

lemma parse_returns [simp]:
  "returns (go_bind (parseInt sc p) (\<lambda>n. Return (F n))) \<longleftrightarrow> ParseInt p \<noteq> None"
  "returns (go_bind (parseUint sc p) (\<lambda>n. Return (F n))) \<longleftrightarrow> ParseUint p \<noteq> None"
  "returns (go_bind (parseFloat sc p) (\<lambda>n. Return (G n))) \<longleftrightarrow> ParseFloat sc p \<noteq> None"
  by (simp_all add: parseInt_def parseUint_def parseFloat_def split: option.splits)

lemma checkMinMax_returns:
  "has_type te hty v t \<Longrightarrow> returns (checkMinMax sc v p b) \<longleftrightarrow> min_max_fits sc t p"
  by (cases v) (auto simp: checkMinMax_def min_max_fits_def)

lemma checkEmail_returns: "has_type te hty v t \<Longrightarrow> returns (checkEmail v) \<longleftrightarrow> t = TString"
  by (cases v) (auto simp: checkEmail_def)

lemma checkOneOf_returns: "has_type te hty v t \<Longrightarrow> returns (checkOneOf sc v p) \<longleftrightarrow> scalar_type t"
  by (cases v) (auto simp: checkOneOf_def formatScalar_def scalar_type_def)

lemma checkRule_returns:
  "has_type te hty v t \<Longrightarrow> returns (checkRule sc te v k p) \<longleftrightarrow> rule_fits sc t (k, p)"
  by (simp add: checkRule_def rule_fits_def checkMinMax_returns checkEmail_returns checkOneOf_returns)

lemma applicable_iff_well_tagged: "has_type te hty v (ftype f) \<Longrightarrow> applicable sc te f v \<longleftrightarrow> well_tagged sc f"
  by (simp add: applicable_def well_tagged_def checkRule_returns list_all_iff split_beta)

lemma struct_field_typed:
  "has_type te hty (VStruct T vs) t \<Longrightarrow> (f, v) \<in> set (zip (te T) vs) \<Longrightarrow> has_type te hty v (ftype f)"
  by (fastforce simp: list_all_iff zip_map2)

lemma follow_typed:
  "follow h v = Some w \<Longrightarrow> heap_typed te hty h \<Longrightarrow> has_type te hty v t \<Longrightarrow> \<exists>u. has_type te hty w u"
proof (induction arbitrary: t rule: follow.raw_induct [rotated, consumes 1, case_names step])
  case (step fol h v w)
  show ?case
  proof (cases "\<exists>a. v = VPtr (Some a)")
    case True
    then obtain a where "v = VPtr (Some a)" by blast
    moreover from this have "fol h (h a) = Some w" using step(2) by simp
    moreover have "has_type te hty (h a) (hty a)" using step(3) by (simp add: heap_typed_def)
    ultimately show ?thesis using step(1,3) by blast
  next
    case False
    then have "w = v" using step(2) by (auto split: gval.splits option.splits)
    then show ?thesis using step by blast
  qed
qed

text \<open>Every field a validation visits has a value of its declared type.\<close>

lemma field_at_typed:
  assumes "field_at te h fvs p f w" and "heap_typed te hty h"
    and "\<forall>(g, v) \<in> set fvs. has_type te hty v (ftype g)"
  shows "has_type te hty w (ftype f)"
  using assms(1,3)
proof (induction rule: field_at.induct)
  case (nested f v fvs T vs p g w)
  then obtain u where "has_type te hty (VStruct T vs) u" using follow_typed assms(2) by fastforce
  then show ?case using nested.IH struct_field_typed by blast
qed auto

section \<open>Properties\<close>

lemma deref_simps [simp]:
  "deref h (VPtr (Some a)) = deref h (h a)"
  "deref h (VPtr None) = Some (Panic ''validator: nil pointer'')"
  "deref h (VStruct T vs) = Some (Return (VStruct T vs))"
  by (simp_all add: deref.simps)

lemma Struct_of_struct:
  "deref h v = Some (Return (VStruct T vs)) \<Longrightarrow> Struct sc te h (Some v) = validateFields sc te h (zip (te T) vs) [] []"
  by (simp add: Struct_def validateStruct_def)

lemma fields_bounded:
  assumes "ranked rank h"
  shows "\<exists>n. fields_below rank n (zip fs vs)"
proof -
  have fin: "finite (ptrs v)" for v by (induction v rule: ptrs.induct) auto
  let ?A = "\<Union> (set (map ptrs vs))"
  have "\<forall>b \<in> ptrs (VStruct T vs). rank b < Suc (Max (rank ` ?A))" for T
    using fin by (auto simp: less_Suc_eq_le intro!: Max_ge)
  then show ?thesis using fields_below_zip by blast
qed

text \<open>
  A concrete program: a signup form with a pointer to a nested address.
\<close>

definition demo_strconv :: strconv where
  "demo_strconv = \<lparr>ParseFloat = (\<lambda>s. None), FormatFloat = (\<lambda>x. ''''), Quote = (\<lambda>s. s)\<rparr>"

definition demo_tenv :: tenv where
  "demo_tenv = (\<lambda>T.
     if T = ''Signup'' then
       [\<lparr>Name = ''Email'', exported = True, validate_tag = ''required,email'', ftype = TString\<rparr>,
        \<lparr>Name = ''Age'', exported = True, validate_tag = ''min=18'', ftype = TInt WNative\<rparr>,
        \<lparr>Name = ''note'', exported = False, validate_tag = ''bogus'', ftype = TString\<rparr>,
        \<lparr>Name = ''Home'', exported = True, validate_tag = '''', ftype = TPtr (TStruct ''Address'')\<rparr>]
     else if T = ''Address'' then
       [\<lparr>Name = ''Zip'', exported = True, validate_tag = ''max=3'', ftype = TString\<rparr>]
     else [])"

definition demo_heap :: heap where
  "demo_heap = (\<lambda>a. if a = 0 then VStruct ''Address'' [VString ''12345''] else VBool False)"

definition demo_hty :: "nat \<Rightarrow> gty" where
  "demo_hty = (\<lambda>a. if a = 0 then TStruct ''Address'' else TBool)"

definition demo_signup :: gval where
  "demo_signup = VStruct ''Signup'' [VString ''a@b'', VInt WNative 17, VString '''', VPtr (Some 0)]"

lemmas demo_defs = demo_strconv_def demo_tenv_def demo_heap_def demo_hty_def demo_signup_def

text \<open>
  C35. Type soundness of validation. For a well-typed value without pointer cycles that denotes a
  struct, \<open>Struct\<close> always ends, and it returns instead of panicking exactly if every tag of a visited
  field fits the declared type of the field: whether a validation panics depends on the struct
  definitions and on the fields reached, never on the data in them.
\<close>

theorem Struct_type_sound:
  assumes "ranked rank h" and "heap_typed te hty h"
    and "deref h v = Some (Return (VStruct T vs))" and "has_type te hty (VStruct T vs) (TStruct T)"
  shows "\<exists>r. Struct sc te h (Some v) = Some r \<and>
    ((\<exists>errs. r = Return errs) \<longleftrightarrow> (\<forall>p f w. field_at te h (zip (te T) vs) p f w \<longrightarrow> well_tagged sc f))"
proof -
  obtain n where "fields_below rank n (zip (te T) vs)" using fields_bounded [OF assms(1)] by blast
  then obtain r where r: "validateFields sc te h (zip (te T) vs) [] [] = Some r"
    using validateFields_total [OF assms(1)] by blast
  have ty: "has_type te hty w (ftype f)" if "field_at te h (zip (te T) vs) p f w" for p f w
    using field_at_typed [OF that assms(2)] struct_field_typed [OF assms(4)] by blast
  have "all_applicable sc te h (zip (te T) vs) \<longleftrightarrow>
      (\<forall>p f w. field_at te h (zip (te T) vs) p f w \<longrightarrow> well_tagged sc f)"
    unfolding all_applicable_def using ty applicable_iff_well_tagged by blast
  moreover have "(\<exists>errs. r = Return errs) \<longleftrightarrow> all_applicable sc te h (zip (te T) vs)"
    using validateFields_exact [OF r] by (cases r) (auto simp: exact_def)
  ultimately show ?thesis using r Struct_of_struct [OF assms(3)] by auto
qed

theorem Struct_type_sound_witness:
  "\<exists>r. Struct demo_strconv demo_tenv demo_heap (Some demo_signup) = Some r \<and>
    ((\<exists>errs. r = Return errs) \<longleftrightarrow>
      (\<forall>p f w. field_at demo_tenv demo_heap
         (zip (demo_tenv ''Signup'') [VString ''a@b'', VInt WNative 17, VString '''', VPtr (Some 0)]) p f w \<longrightarrow>
         well_tagged demo_strconv f))"
  by (rule Struct_type_sound [of "\<lambda>a. 0" _ _ demo_hty])
    (auto simp: ranked_def heap_typed_def demo_defs int_width_def)

text \<open>
  C36. A validation that returns reports exactly the failed rules: the errors are those of the visited
  fields (exported, reached through exported structs and non-nil pointers), each under its dotted path
  with the failing rule and its parameter, and the result is nil exactly if no rule failed.
\<close>

theorem Struct_reports_exactly:
  assumes "deref h v = Some (Return (VStruct T vs))" and "Struct sc te h (Some v) = Some (Return errs)"
  shows "set errs = {\<lparr>Field = p, Tag = k, Param = q\<rparr> | p k q.
      \<exists>f w. field_at te h (zip (te T) vs) p f w \<and> (k, q) \<in> set (tag_rules f) \<and> checkRule sc te w k q = Return False}
    \<and> (errs = [] \<longleftrightarrow> (\<forall>p f w k q. field_at te h (zip (te T) vs) p f w \<longrightarrow> (k, q) \<in> set (tag_rules f) \<longrightarrow>
      checkRule sc te w k q = Return True))"
proof -
  let ?fvs = "zip (te T) vs"
  have "exact sc te h ?fvs [] [] (Return errs)"
    using assms Struct_of_struct validateFields_exact by metis
  then have app: "all_applicable sc te h ?fvs" and errs: "set errs = violations sc te h ?fvs []"
    by (auto simp: exact_def)
  have v: "violations sc te h ?fvs [] = {\<lparr>Field = p, Tag = k, Param = q\<rparr> | p k q.
      \<exists>f w. field_at te h ?fvs p f w \<and> (k, q) \<in> set (tag_rules f) \<and> checkRule sc te w k q = Return False}"
    by (auto simp: violations_def failures_def) fastforce+
  have ret: "returns (checkRule sc te w k q)" if "field_at te h ?fvs p f w" "(k, q) \<in> set (tag_rules f)" for p f w k q
    using app that by (force simp: all_applicable_def applicable_def list_all_iff)
  have "errs = [] \<longleftrightarrow> violations sc te h ?fvs [] = {}" using errs by (metis set_empty)
  also have "\<dots> \<longleftrightarrow> (\<forall>p f w k q. field_at te h ?fvs p f w \<longrightarrow> (k, q) \<in> set (tag_rules f) \<longrightarrow>
      checkRule sc te w k q = Return True)"
    unfolding v using ret by (fastforce simp: returns_iff)
  finally show ?thesis using errs v by blast
qed

text \<open>The run of the example: the address fails the email rule, the age the minimum, the nested zip the maximum.\<close>

definition demo_errs :: "FieldError list" where
  "demo_errs = [\<lparr>Field = ''Email'', Tag = ''email'', Param = ''''\<rparr>, \<lparr>Field = ''Age'', Tag = ''min'', Param = ''18''\<rparr>,
     \<lparr>Field = ''Home.Zip'', Tag = ''max'', Param = ''3''\<rparr>]"

lemma Struct_demo: "Struct demo_strconv demo_tenv demo_heap (Some demo_signup) = Some (Return demo_errs)"
proof -
  have t: "TrimSpace ''required'' = ''required''" "TrimSpace ''email'' = ''email''" "TrimSpace ''min=18'' = ''min=18''"
    "TrimSpace ''max=3'' = ''max=3''"
    by (simp_all add: TrimSpace_visible visible_def byte_of_def)
  have c: "Cut ''required'' CHR ''='' = (''required'', '''', False)" "Cut ''email'' CHR ''='' = (''email'', '''', False)"
    "Cut ''min=18'' CHR ''='' = (''min'', ''18'', True)" "Cut ''max=3'' CHR ''='' = (''max'', ''3'', True)"
    by (simp_all add: Cut_def)
  have p: "ParseInt ''18'' = Some 18" "ParseInt ''3'' = Some 3"
    by (simp_all add: ParseInt_def ParseUint_def is_digit_def parse_nat_def digit_val_def uint64_max_def int64_defs)
  have e: "RuneCountInString ''12345'' = 5" "\<not> emailPattern ''a@b''"
    by (simp_all add: RuneCountInString_visible visible_def byte_of_def emailPattern_def email_char_def email_space_def)
  show ?thesis
    by (simp add: demo_defs demo_errs_def Struct_of_struct validateFields.simps field_rules_def applyRules_def t c p e checkRule_def
        checkEmail_def checkMinMax_def parseInt_def cmpInt_def struct_of_def)
qed

theorem Struct_reports_exactly_witness:
  "set demo_errs = {\<lparr>Field = p, Tag = k, Param = q\<rparr> | p k q.
      \<exists>f w. field_at demo_tenv demo_heap
        (zip (demo_tenv ''Signup'') [VString ''a@b'', VInt WNative 17, VString '''', VPtr (Some 0)]) p f w \<and>
        (k, q) \<in> set (tag_rules f) \<and> checkRule demo_strconv demo_tenv w k q = Return False}"
  using Struct_reports_exactly [OF _ Struct_demo] by (simp add: demo_signup_def)

lemma cycle_never_returns:
  assumes "validateFields sc te h fvs prefix errs = Some r" and "h a = VStruct T vs"
    and "(g, VPtr (Some a)) \<in> set (zip (te T) vs)" and "exported g"
    and "\<exists>f. exported f \<and> (f, VPtr (Some a)) \<in> set fvs"
  shows "\<not> returns r"
  using assms
proof (induction rule: validateFields.raw_induct [rotated, consumes 1, case_names step])
  case (step val sc te h fvs prefix errs r)
  note body = step(2)
  have ih: "\<not> returns y" if "val sc te h fvs' pre e = Some y" "\<exists>f. exported f \<and> (f, VPtr (Some a)) \<in> set fvs'" for fvs' pre e y
    by (rule step(1) [OF that(1) step(3-5) that(2)])
  obtain f v rest where fvs: "fvs = (f, v) # rest" using step(6) by (cases fvs) auto
  have rest: "\<not> returns r'" if "val sc te h rest prefix e = Some r'" "\<not> (exported f \<and> v = VPtr (Some a))" for e r'
    using ih [OF that(1)] step(6) that(2) fvs by auto
  consider (hidden) "\<not> exported f" | (bad) "exported f" "\<not> applicable sc te f v"
    | (good) "exported f" "applicable sc te f v" by blast
  then show ?case
  proof cases
    case hidden
    then show ?thesis using body fvs rest by simp
  next
    case bad
    then show ?thesis using body fvs field_rules_Panic [of sc te f v "prefix @ Name f" errs] by auto
  next
    case good
    let ?e = "errs @ failures sc te f v (prefix @ Name f)"
    obtain nested where fo: "follow h v = Some nested"
      and r: "(case struct_of nested of
        Some (T, vs) \<Rightarrow> Option.bind (val sc te h (zip (te T) vs) (prefix @ Name f @ ''.'') ?e)
          (\<lambda>r. case r of Panic m \<Rightarrow> Some (Panic m) | Return errs2 \<Rightarrow> val sc te h rest prefix errs2)
      | None \<Rightarrow> val sc te h rest prefix ?e) = Some r"
      using good body fvs by (auto simp: field_rules_Return Option.bind_eq_Some_conv)
    show ?thesis
    proof (cases "v = VPtr (Some a)")
      case True
      then have "struct_of nested = Some (T, vs)" using fo step(3) by (auto simp: struct_of_def)
      then obtain r1 where r1: "val sc te h (zip (te T) vs) (prefix @ Name f @ ''.'') ?e = Some r1"
        and r: "(case r1 of Panic m \<Rightarrow> Some (Panic m) | Return errs2 \<Rightarrow> val sc te h rest prefix errs2) = Some r"
        using r by (auto simp: Option.bind_eq_Some_conv)
      have "\<not> returns r1" using ih [OF r1] step(4,5) by blast
      then show ?thesis using r by (cases r1) auto
    next
      case False
      then have nr: "\<not> returns r'" if "val sc te h rest prefix e = Some r'" for e r' using rest [OF that] by simp
      then show ?thesis
        using r by (auto simp: Option.bind_eq_Some_conv split: option.splits prod.splits) (metis go.exhaust go.simps(5,6) option.inject returns_simps(2))
    qed
  qed
qed

text \<open>
  C37. A value with a pointer cycle is never validated to the end: if a well-tagged struct behind a
  pointer has an exported field that points back to it, \<open>Struct\<close> on that pointer does not return.
\<close>

theorem Struct_diverges_on_cycle:
  assumes "heap_typed te hty h" and "h a = VStruct T vs" and "(f, VPtr (Some a)) \<in> set (zip (te T) vs)" and "exported f"
    and "\<forall>p g w. field_at te h (zip (te T) vs) p g w \<longrightarrow> well_tagged sc g"
  shows "Struct sc te h (Some (VPtr (Some a))) = None"
proof (rule ccontr)
  have s: "Struct sc te h (Some (VPtr (Some a))) = validateFields sc te h (zip (te T) vs) [] []"
    using assms(2) by (simp add: Struct_of_struct)
  assume "Struct sc te h (Some (VPtr (Some a))) \<noteq> None"
  then obtain r where r: "validateFields sc te h (zip (te T) vs) [] [] = Some r" using s by auto
  have "has_type te hty (VStruct T vs) (hty a)" using assms(1,2) unfolding heap_typed_def by metis
  then have "all_applicable sc te h (zip (te T) vs)"
    unfolding all_applicable_def
    using applicable_iff_well_tagged field_at_typed [OF _ assms(1)] struct_field_typed assms(5) by (metis (no_types, lifting) case_prodI2)
  then have "returns r" using validateFields_exact [OF r] by (cases r) (auto simp: exact_def)
  then show False using cycle_never_returns [OF r assms(2-4)] assms(3,4) by blast
qed

definition demo_next :: sfield where
  "demo_next = \<lparr>Name = ''Next'', exported = True, validate_tag = '''', ftype = TPtr (TStruct ''Node'')\<rparr>"

definition demo_cyclic_tenv :: tenv where
  "demo_cyclic_tenv = (\<lambda>T. if T = ''Node'' then [demo_next] else [])"

theorem Struct_diverges_on_cycle_witness:
  "Struct demo_strconv demo_cyclic_tenv (\<lambda>a. VStruct ''Node'' [VPtr (Some 0)]) (Some (VPtr (Some 0))) = None"
proof (rule Struct_diverges_on_cycle [where hty = "\<lambda>a. TStruct ''Node''" and f = demo_next])
  show "heap_typed demo_cyclic_tenv (\<lambda>a. TStruct ''Node'') (\<lambda>a. VStruct ''Node'' [VPtr (Some 0)])"
    by (simp add: heap_typed_def demo_cyclic_tenv_def demo_next_def)
  have "field_at demo_cyclic_tenv h fvs p g w \<Longrightarrow> \<forall>(f, v) \<in> set fvs. validate_tag f = '''' \<Longrightarrow> validate_tag g = ''''" for h fvs p g w
  proof (induction rule: field_at.induct)
    case (nested f v fvs T vs p g w)
    show ?case by (rule nested.IH) (auto simp: demo_cyclic_tenv_def demo_next_def dest!: set_zip_leftD)
  qed auto
  then show "\<forall>p g w. field_at demo_cyclic_tenv (\<lambda>a. VStruct ''Node'' [VPtr (Some 0)])
      (zip (demo_cyclic_tenv ''Node'') [VPtr (Some 0)]) p g w \<longrightarrow> well_tagged demo_strconv g"
    by (fastforce simp: well_tagged_def tag_rules_def demo_cyclic_tenv_def demo_next_def)
qed (simp_all add: demo_cyclic_tenv_def demo_next_def)


section \<open>The email pattern\<close>

lemma inner_dot: "CHR ''.'' \<in> set (butlast (tl d)) \<longleftrightarrow> (\<exists>v w. d = v @ CHR ''.'' # w \<and> v \<noteq> [] \<and> w \<noteq> [])"
proof
  assume "CHR ''.'' \<in> set (butlast (tl d))"
  then obtain a b where ab: "butlast (tl d) = a @ CHR ''.'' # b" by (blast dest: split_list)
  then have "tl d \<noteq> []" by auto
  then have "d = (hd d # a) @ CHR ''.'' # (b @ [last (tl d)])"
    using ab append_butlast_last_id [of "tl d"] by (cases d) auto
  then show "\<exists>v w. d = v @ CHR ''.'' # w \<and> v \<noteq> [] \<and> w \<noteq> []" by blast
next
  assume "\<exists>v w. d = v @ CHR ''.'' # w \<and> v \<noteq> [] \<and> w \<noteq> []"
  then obtain v w where d: "d = v @ CHR ''.'' # w" "v \<noteq> []" "w \<noteq> []" by blast
  then show "CHR ''.'' \<in> set (butlast (tl d))" by (simp add: butlast_append)
qed

text \<open>
  The matcher accepts the language of the regular expression: a local part, an at sign, and a domain
  split by a dot, all three parts nonempty and free of at signs and of the white space of \<open>\s\<close>.
\<close>

lemma emailPattern_iff:
  "emailPattern s \<longleftrightarrow> (\<exists>u v w. s = u @ CHR ''@'' # v @ CHR ''.'' # w \<and> u \<noteq> [] \<and> v \<noteq> [] \<and> w \<noteq> [] \<and>
     list_all email_char u \<and> list_all email_char v \<and> list_all email_char w)"
proof
  assume h: "emailPattern s"
  let ?u = "takeWhile email_char s" and ?d = "tl (dropWhile email_char s)"
  have "dropWhile email_char s = CHR ''@'' # ?d" using h by (cases "dropWhile email_char s") (auto simp: emailPattern_def)
  then have s: "s = ?u @ CHR ''@'' # ?d" using takeWhile_dropWhile_id [of email_char s] by simp
  obtain v w where d: "?d = v @ CHR ''.'' # w" "v \<noteq> []" "w \<noteq> []"
    using h inner_dot [of ?d] by (auto simp: emailPattern_def Let_def)
  have "list_all email_char ?u" using set_takeWhileD [of _ email_char s] by (auto simp: list_all_iff)
  moreover have "list_all email_char (v @ CHR ''.'' # w)" using h d(1) by (simp add: emailPattern_def Let_def)
  ultimately show "\<exists>u v w. s = u @ CHR ''@'' # v @ CHR ''.'' # w \<and> u \<noteq> [] \<and> v \<noteq> [] \<and> w \<noteq> [] \<and>
     list_all email_char u \<and> list_all email_char v \<and> list_all email_char w"
    using h s d by (intro exI [of _ ?u] exI [of _ v] exI [of _ w]) (auto simp: emailPattern_def Let_def)
next
  assume "\<exists>u v w. s = u @ CHR ''@'' # v @ CHR ''.'' # w \<and> u \<noteq> [] \<and> v \<noteq> [] \<and> w \<noteq> [] \<and>
     list_all email_char u \<and> list_all email_char v \<and> list_all email_char w"
  then obtain u v w where s: "s = u @ CHR ''@'' # v @ CHR ''.'' # w" "u \<noteq> []" "v \<noteq> []" "w \<noteq> []"
    "list_all email_char u" "list_all email_char v" "list_all email_char w" by blast
  have at: "\<not> email_char CHR ''@''" and dot: "email_char CHR ''.''" by (simp_all add: email_char_def email_space_def byte_of_def)
  have t: "takeWhile email_char s = u" "dropWhile email_char s = CHR ''@'' # v @ CHR ''.'' # w"
    using s(1,5) at by (simp_all add: list_all_iff takeWhile_append2 dropWhile_append2)
  then show "emailPattern s" using s dot inner_dot [of "v @ CHR ''.'' # w"] by (auto simp: emailPattern_def)
qed

text \<open>The white space of \<open>\s\<close> is all it rejects: an address may contain control characters.\<close>

lemma emailPattern_accepts_control: "emailPattern (CHR 0x01 # ''@b.c'')"
  by (simp add: emailPattern_def email_char_def email_space_def byte_of_def)

section \<open>Single-precision fields\<close>

text \<open>
  A \<open>float32\<close> field is compared at double precision: the single-precision value nearest to one tenth is
  above the double nearest to it, so it fails \<open>max=0.1\<close>.
\<close>

lemma float32_fails_its_own_maximum:
  assumes "ParseFloat sc ''0.1'' = Some (Fin (3602879701896397 / 36028797018963968))"
  shows "checkRule sc te (VFloat W32 (Fin (13421773 / 134217728))) ''max'' ''0.1'' = Return False"
  using assms by (simp add: checkRule_def checkMinMax_def parseFloat_def cmpFloat_def)

end
