(* ===== verification/Config.thy ===== *)
theory Config
  imports Validator
begin

text \<open>
  Package \<open>config\<close>: typed configuration from a file. Reading the file, the environment and the JSON and
  YAML decoders are arguments; a decoder gives the value it populated, complete or not, and its error.
  Expansion of the environment is modelled as \<open>os.Expand\<close> works, and the tag rules are those of the
  validator theory on the reflected value.
\<close>

section \<open>Expansion of variables\<close>

definition isShellSpecialVar :: "char \<Rightarrow> bool" where
  "isShellSpecialVar c \<longleftrightarrow> c \<in> set ''*#$@!?-'' \<or> is_digit c"

definition isAlphaNum :: "char \<Rightarrow> bool" where
  "isAlphaNum c \<longleftrightarrow> c = CHR ''_'' \<or> is_digit c \<or> between 97 c 122 \<or> between 65 c 90"

text \<open>\<open>getShellName\<close> on a nonempty string: the name and the number of bytes it takes.\<close>

definition getShellName :: "string \<Rightarrow> string \<times> nat" where
  "getShellName s =
     (if hd s = CHR ''{'' then
        if 2 < length s \<and> isShellSpecialVar (s ! 1) \<and> s ! 2 = CHR ''}'' then ([s ! 1], 3)
        else
          let name = takeWhile (\<lambda>c. c \<noteq> CHR ''}'') (tl s)
          in if CHR ''}'' \<in> set (tl s) then (if name = [] then ([], 2) else (name, length name + 2))
             else ([], 1)
      else if isShellSpecialVar (hd s) then ([hd s], 1)
      else let name = takeWhile isAlphaNum s in (name, length name))"

text \<open>\<open>os.Expand\<close>: bad syntax is eaten, a dollar without a name stays.\<close>

fun Expand :: "string \<Rightarrow> (string \<Rightarrow> string) \<Rightarrow> string" where
  "Expand [] mapping = []"
| "Expand (c # cs) mapping =
     (if c = CHR ''$'' \<and> cs \<noteq> [] then
        let (name, w) = getShellName cs
        in (if name = [] \<and> 0 < w then [] else if name = [] then [c] else mapping name) @ Expand (drop w cs) mapping
      else c # Expand cs mapping)"

definition Getenv :: "(string \<rightharpoonup> string) \<Rightarrow> string \<Rightarrow> string" where
  "Getenv env name = (case env name of Some v \<Rightarrow> v | None \<Rightarrow> '''')"

section \<open>Loading\<close>

record options =
  expandEnv :: bool
  validateStruct_opt :: bool

definition WithoutEnvExpansion :: "options \<Rightarrow> options" where
  "WithoutEnvExpansion opt = opt\<lparr>expandEnv := False\<rparr>"

definition WithStructValidation :: "options \<Rightarrow> options" where
  "WithStructValidation opt = opt\<lparr>validateStruct_opt := True\<rparr>"

text \<open>\<open>filepath.Ext\<close>: from the last dot of the last path element.\<close>

definition filepath_Ext :: "string \<Rightarrow> string" where
  "filepath_Ext path =
     (let tail = takeWhile (\<lambda>c. c \<noteq> CHR ''.'' \<and> c \<noteq> CHR ''/'') (rev path)
      in if length tail < length path \<and> rev path ! length tail = CHR ''.'' then CHR ''.'' # rev tail else [])"

definition lower_char :: "char \<Rightarrow> char" where
  "lower_char c = (if between 65 c 90 then char_of (byte_of c + 32) else c)"

text \<open>Lower-casing beyond ASCII does not matter: no other letter has one of json, yaml as its lower case.\<close>

definition ToLower :: "string \<Rightarrow> string" where
  "ToLower s = map lower_char s"

datatype 'e config_err =
    ReadFailed string 'e
  | ParseFailed string 'e
  | ErrUnsupportedFormat string
  | TagsFailed string "FieldError list"
  | ValidateFailed string 'e

text \<open>
  The world of a load: files, environment, decoders, the zero value, how a value looks by reflection
  (the heap and the address of the decoded value), and its \<open>Validate\<close> method if it has one, which works
  on a pointer and may change the value.
\<close>

record ('cfg, 'e) world =
  ReadFile :: "string \<Rightarrow> 'e + string"
  environment :: "string \<rightharpoonup> string"
  json_Unmarshal :: "string \<Rightarrow> 'cfg \<times> 'e option"
  yaml_Unmarshal :: "string \<Rightarrow> 'cfg \<times> 'e option"
  zero_value :: 'cfg
  types :: tenv
  reflected :: "'cfg \<Rightarrow> heap \<times> nat"
  Validate :: "('cfg \<Rightarrow> 'cfg \<times> 'e option) option"

text \<open>The decoder chosen by extension.\<close>

definition decoder :: "('cfg, 'e) world \<Rightarrow> string \<Rightarrow> (string \<Rightarrow> 'cfg \<times> 'e option) option" where
  "decoder w path =
     (let ext = ToLower (filepath_Ext path)
      in if ext = ''.json'' then Some (json_Unmarshal w)
         else if ext = ''.yaml'' \<or> ext = ''.yml'' then Some (yaml_Unmarshal w)
         else None)"

text \<open>The tag check; nil is the empty list.\<close>

definition check_tags :: "strconv \<Rightarrow> ('cfg, 'e) world \<Rightarrow> options \<Rightarrow> 'cfg \<Rightarrow> FieldError list go option" where
  "check_tags sc w opt cfg =
     (if validateStruct_opt opt
      then (case reflected w cfg of (h, a) \<Rightarrow> Struct sc (types w) h (Some (VPtr (Some a))))
      else Some (Return []))"

definition run_Validate :: "('cfg, 'e) world \<Rightarrow> string \<Rightarrow> 'cfg \<Rightarrow> 'cfg \<times> 'e config_err option" where
  "run_Validate w path cfg = (case Validate w of
     None \<Rightarrow> (cfg, None)
   | Some v \<Rightarrow> (case v cfg of (cfg', None) \<Rightarrow> (cfg', None)
                | (cfg', Some e) \<Rightarrow> (zero_value w, Some (ValidateFailed path e))))"

definition Load :: "strconv \<Rightarrow> ('cfg, 'e) world \<Rightarrow> string \<Rightarrow> (options \<Rightarrow> options) list \<Rightarrow> ('cfg \<times> 'e config_err option) go option" where
  "Load sc w path opts =
     (let opt = apply_opts opts \<lparr>expandEnv = True, validateStruct_opt = False\<rparr> in
      case ReadFile w path of
        Inl e \<Rightarrow> Some (Return (zero_value w, Some (ReadFailed path e)))
      | Inr raw \<Rightarrow>
          let data = (if expandEnv opt then Expand raw (Getenv (environment w)) else raw) in
          case decoder w path of
            None \<Rightarrow> Some (Return (zero_value w, Some (ErrUnsupportedFormat (filepath_Ext path))))
          | Some decode \<Rightarrow>
              (case decode data of
                 (cfg, Some e) \<Rightarrow> Some (Return (zero_value w, Some (ParseFailed path e)))
               | (cfg, None) \<Rightarrow>
                   Option.bind (check_tags sc w opt cfg) (\<lambda>r.
                     case r of
                       Panic m \<Rightarrow> Some (Panic m)
                     | Return errs \<Rightarrow>
                         if errs \<noteq> [] then Some (Return (zero_value w, Some (TagsFailed path errs)))
                         else Some (Return (run_Validate w path cfg)))))"

section \<open>Expansion\<close>

text \<open>Text without dollars is unchanged, and a braced reference is replaced by the variable's value.\<close>

lemma Expand_verbatim: "CHR ''$'' \<notin> set s \<Longrightarrow> Expand (s @ t) f = s @ Expand t f"
  by (induction s) auto

lemma Expand_no_dollar: "CHR ''$'' \<notin> set s \<Longrightarrow> Expand s f = s"
  using Expand_verbatim [of s "[]" f] by simp

lemma Expand_braced:
  assumes "name \<noteq> []" and "CHR ''}'' \<notin> set name"
  shows "Expand (''${'' @ name @ ''}'' @ t) f = f name @ Expand t f"
proof -
  have t: "takeWhile (\<lambda>c. c \<noteq> CHR ''}'') (name @ CHR ''}'' # t) = name"
    using assms(2) by (subst takeWhile_append2) auto
  have "getShellName (CHR ''{'' # name @ CHR ''}'' # t) = (name, length name + 2)"
  proof (cases "length name = 1 \<and> isShellSpecialVar (hd name)")
    case True
    then obtain c where "name = [c]" by (cases name) auto
    then show ?thesis using True by (simp add: getShellName_def)
  next
    case False
    obtain c cs where n: "name = c # cs" using assms(1) by (cases name) auto
    have "\<not> (isShellSpecialVar c \<and> (cs @ CHR ''}'' # t) ! 0 = CHR ''}'')"
      using False assms(2) n by (cases cs) auto
    then have "\<not> (isShellSpecialVar ((CHR ''{'' # name @ CHR ''}'' # t) ! 1) \<and> (CHR ''{'' # name @ CHR ''}'' # t) ! 2 = CHR ''}'')"
      using n by (simp add: numeral_2_eq_2)
    then show ?thesis using t assms(1) unfolding getShellName_def by (auto simp: Let_def)
  qed
  then show ?thesis using assms(1) by simp
qed

text \<open>A doubled dollar is a reference to the variable named dollar, which is empty when unset.\<close>

lemma Expand_double_dollar: "env ''$'' = None \<Longrightarrow> Expand (''$$'' @ t) (Getenv env) = Expand t (Getenv env)"
  by (simp add: getShellName_def isShellSpecialVar_def Getenv_def)

section \<open>Properties of Load\<close>

lemma Load_decoded:
  assumes "apply_opts opts \<lparr>expandEnv = True, validateStruct_opt = False\<rparr> = opt"
    and "ReadFile w path = Inr raw" and "decoder w path = Some decode"
    and "decode (if expandEnv opt then Expand raw (Getenv (environment w)) else raw) = (cfg, None)"
  shows "Load sc w path opts = Option.bind (check_tags sc w opt cfg) (\<lambda>r. case r of
     Panic m \<Rightarrow> Some (Panic m)
   | Return errs \<Rightarrow>
       if errs \<noteq> [] then Some (Return (zero_value w, Some (TagsFailed path errs)))
       else Some (Return (run_Validate w path cfg)))"
  using assms by (simp add: Load_def Let_def)

lemma run_Validate_error: "run_Validate w path cfg = (c, Some e) \<Longrightarrow> c = zero_value w"
  by (auto simp: run_Validate_def split: option.splits prod.splits)

text \<open>
  C11. A load hands out a configuration only when everything passed: with any error it returns the zero
  value, never what a decoder had populated before it failed. When it succeeds, the file was read, its
  extension chose a decoder that accepted the expanded text, the decoded value satisfied every tag rule
  if tag validation was asked for, and its \<open>Validate\<close> method, if it has one, accepted it.
\<close>

theorem Load_all_or_nothing:
  assumes "Load sc w path opts = Some (Return (cfg, err))"
  shows "(err \<noteq> None \<longrightarrow> cfg = zero_value w) \<and>
    (err = None \<longrightarrow> (\<exists>raw decode c.
       ReadFile w path = Inr raw \<and> decoder w path = Some decode \<and>
       decode (if expandEnv (apply_opts opts \<lparr>expandEnv = True, validateStruct_opt = False\<rparr>)
               then Expand raw (Getenv (environment w)) else raw) = (c, None) \<and>
       check_tags sc w (apply_opts opts \<lparr>expandEnv = True, validateStruct_opt = False\<rparr>) c = Some (Return []) \<and>
       (case Validate w of None \<Rightarrow> cfg = c | Some v \<Rightarrow> v c = (cfg, None))))"
proof -
  define opt where "opt = apply_opts opts \<lparr>expandEnv = True, validateStruct_opt = False\<rparr>"
  show ?thesis
  proof (cases "\<exists>raw decode c. ReadFile w path = Inr raw \<and> decoder w path = Some decode \<and>
      decode (if expandEnv opt then Expand raw (Getenv (environment w)) else raw) = (c, None)")
    case True
    then obtain raw decode c where d: "ReadFile w path = Inr raw" "decoder w path = Some decode"
      "decode (if expandEnv opt then Expand raw (Getenv (environment w)) else raw) = (c, None)" by blast
    have l: "Option.bind (check_tags sc w opt c) (\<lambda>r. case r of
        Panic m \<Rightarrow> Some (Panic m)
      | Return errs \<Rightarrow>
          if errs \<noteq> [] then Some (Return (zero_value w, Some (TagsFailed path errs)))
          else Some (Return (run_Validate w path c))) = Some (Return (cfg, err))"
      using Load_decoded [OF opt_def [symmetric] d, of sc] assms by simp
    then obtain errs where t: "check_tags sc w opt c = Some (Return errs)"
      by (cases "check_tags sc w opt c") (auto split: go.splits)
    have r: "(if errs \<noteq> [] then (zero_value w, Some (TagsFailed path errs)) else run_Validate w path c) = (cfg, err)"
      using l t by (auto split: if_splits)
    show ?thesis
    proof (cases "errs = []")
      case True
      then show ?thesis
        using d t r unfolding opt_def [symmetric] by (auto simp: run_Validate_def split: option.splits prod.splits)
    next
      case False
      then show ?thesis using r by auto
    qed
  next
    case False
    then have "err \<noteq> None \<and> cfg = zero_value w"
      using assms unfolding Load_def opt_def [symmetric] Let_def
      by (auto split: sum.splits option.splits prod.splits)
    then show ?thesis by blast
  qed
qed

definition demo_world :: "(string \<times> int, string) world" where
  "demo_world = \<lparr>ReadFile = (\<lambda>p. if p = ''app.json'' then Inr ''${HOST}!'' else Inl ''no such file''),
     environment = [''HOST'' \<mapsto> ''db''],
     json_Unmarshal = (\<lambda>s. ((s, 1), None)), yaml_Unmarshal = (\<lambda>s. ((s, 2), Some ''bad yaml'')),
     zero_value = ([], 0), types = (\<lambda>T. []), reflected = (\<lambda>c. (\<lambda>a. VStruct ''Config'' [], 0)),
     Validate = Some (\<lambda>c. (c, None))\<rparr>"

lemma demo_load: "Load \<lparr>ParseFloat = \<lambda>s. None, FormatFloat = \<lambda>x. [], Quote = \<lambda>s. s\<rparr> demo_world ''app.json'' [WithStructValidation] =
    Some (Return ((''db!'', 1), None))"
proof -
  have e: "getShellName ''{HOST}!'' = (''HOST'', 6)"
    by (simp add: getShellName_def isShellSpecialVar_def is_digit_def)
  have x: "ToLower (filepath_Ext ''app.json'') = ''.json''"
    by (simp add: filepath_Ext_def ToLower_def lower_char_def between_def byte_of_def)
  show ?thesis
    by (simp add: Load_def demo_world_def e x decoder_def check_tags_def Struct_of_struct WithStructValidation_def Getenv_def
        run_Validate_def)
qed

theorem Load_all_or_nothing_witness:
  "\<exists>raw decode c. ReadFile demo_world ''app.json'' = Inr raw \<and> decoder demo_world ''app.json'' = Some decode \<and>
     decode (Expand raw (Getenv (environment demo_world))) = (c, None) \<and> c = (''db!'', 1)"
  using Load_all_or_nothing [OF demo_load] by (auto simp: WithStructValidation_def demo_world_def)

text \<open>Tag failures are reported without consulting \<open>Validate\<close>: it may be any function.\<close>

lemma tags_before_Validate:
  assumes "Load sc w path opts = Some (Return (cfg, Some (TagsFailed p errs)))"
  shows "Load sc (w\<lparr>Validate := v\<rparr>) path opts = Some (Return (cfg, Some (TagsFailed p errs)))"
proof -
  have e: "check_tags sc (w\<lparr>Validate := v\<rparr>) opt c = check_tags sc w opt c" "decoder (w\<lparr>Validate := v\<rparr>) path = decoder w path" for opt c
    by (simp_all add: check_tags_def decoder_def Let_def)
  have v: "run_Validate w path c \<noteq> (cfg, Some (TagsFailed p errs))" for c
    by (auto simp: run_Validate_def split: option.splits prod.splits)
  define opt where "opt = apply_opts opts \<lparr>expandEnv = True, validateStruct_opt = False\<rparr>"
  obtain raw decode c where d: "ReadFile w path = Inr raw" "decoder w path = Some decode"
    "decode (if expandEnv opt then Expand raw (Getenv (environment w)) else raw) = (c, None)"
    using assms unfolding Load_def opt_def [symmetric] Let_def
    by (auto split: sum.splits option.splits prod.splits)
  have d': "ReadFile (w\<lparr>Validate := v\<rparr>) path = Inr raw" "decoder (w\<lparr>Validate := v\<rparr>) path = Some decode"
    "decode (if expandEnv opt then Expand raw (Getenv (environment (w\<lparr>Validate := v\<rparr>))) else raw) = (c, None)"
    using d e by (cases "expandEnv opt"; simp)+
  note l = Load_decoded [OF opt_def [symmetric] d, of sc] and l' = Load_decoded [OF opt_def [symmetric] d', of sc]
  obtain errs' where t: "check_tags sc w opt c = Some (Return errs')"
    using assms l by (cases "check_tags sc w opt c") (auto split: go.splits)
  then have "errs' \<noteq> []" using assms l v by auto
  then show ?thesis using assms l l' t e by simp
qed

end
