(* ===== verification/Errx.thy ===== *)
theory Errx
  imports GoStrings
begin

text \<open>
  Package \<open>errx\<close>: messages and call stacks on errors. An error is the tree that \<open>Unwrap\<close> shows: nodes of
  this package and nodes of other packages, which may have several children (\<open>errors.Join\<close>) and may
  carry a stack of their own. Every node has an identity, its address, which \<open>errors.Is\<close> compares; a nil
  error is \<open>None\<close>. Nodes of other packages have no \<open>Is\<close> or \<open>As\<close> method of their own.
\<close>

section \<open>Stacks\<close>

record Frame =
  Function :: string
  File :: string
  Line :: int

definition maxStackDepth :: nat where "maxStackDepth = 32"

text \<open>A captured stack; \<open>resolved\<close> is the \<open>sync.Once\<close>.\<close>

record stack =
  pcs :: "nat list"
  resolved :: bool
  frames :: "Frame list"

text \<open>\<open>newStack\<close>: \<open>callers\<close> are the program counters from the caller of the exported function outwards.\<close>

definition newStack :: "nat list \<Rightarrow> stack" where
  "newStack callers = \<lparr>pcs = take maxStackDepth callers, resolved = False, frames = []\<rparr>"

text \<open>The loop over \<open>runtime.CallersFrames\<close>: \<open>symbolize\<close> gives the frames of the program counters.\<close>

definition resolve :: "(nat list \<Rightarrow> Frame list) \<Rightarrow> stack \<Rightarrow> Frame list \<times> stack" where
  "resolve symbolize s =
     (if resolved s then (frames s, s)
      else let fs = frames s @ filter (\<lambda>f. Function f \<noteq> '''') (symbolize (pcs s))
           in (fs, s\<lparr>resolved := True, frames := fs\<rparr>))"

definition writeStack :: "Frame list \<Rightarrow> string" where
  "writeStack fs = concat (map (\<lambda>f. [CHR 0x0A] @ Function f @ [CHR 0x0A, CHR 0x09] @ File f @ '':'' @ Itoa (Line f)) fs)"

section \<open>Errors\<close>

datatype err =
    withStack nat err stack
  | wrapped nat string err
  | Other nat string "Frame list option" "err list"

fun address :: "err \<Rightarrow> nat" where
  "address (withStack a e s) = a"
| "address (wrapped a m e) = a"
| "address (Other a m t es) = a"

fun Error :: "err \<Rightarrow> string" where
  "Error (withStack a e s) = Error e"
| "Error (wrapped a m e) = m @ '': '' @ Error e"
| "Error (Other a m t es) = m"

fun Unwrap :: "err \<Rightarrow> err list" where
  "Unwrap (withStack a e s) = [e]"
| "Unwrap (wrapped a m e) = [e]"
| "Unwrap (Other a m t es) = es"

text \<open>\<open>errors.Is\<close> and \<open>errors.As\<close> with the interface \<open>StackTracer\<close>: depth-first, the node itself first.\<close>

fun errors_Is :: "err \<Rightarrow> nat \<Rightarrow> bool" where
  "errors_Is (withStack a e s) t \<longleftrightarrow> a = t \<or> errors_Is e t"
| "errors_Is (wrapped a m e) t \<longleftrightarrow> a = t \<or> errors_Is e t"
| "errors_Is (Other a m tr es) t \<longleftrightarrow> a = t \<or> (\<exists>e \<in> set es. errors_Is e t)"

fun first_some :: "'a option list \<Rightarrow> 'a option" where
  "first_some [] = None"
| "first_some (Some x # _) = Some x"
| "first_some (None # xs) = first_some xs"

fun As_tracer :: "(nat list \<Rightarrow> Frame list) \<Rightarrow> err \<Rightarrow> Frame list option" where
  "As_tracer symbolize (withStack a e s) = Some (fst (resolve symbolize s))"
| "As_tracer symbolize (wrapped a m e) = As_tracer symbolize e"
| "As_tracer symbolize (Other a m t es) =
     (case t of Some fs \<Rightarrow> Some fs | None \<Rightarrow> first_some (map (As_tracer symbolize) es))"

definition Frames :: "(nat list \<Rightarrow> Frame list) \<Rightarrow> err option \<Rightarrow> Frame list" where
  "Frames symbolize err = (case err of
     None \<Rightarrow> []
   | Some e \<Rightarrow> (case As_tracer symbolize e of Some fs \<Rightarrow> fs | None \<Rightarrow> []))"

text \<open>\<open>hasStack\<close> asks for a tracer in the chain without resolving it.\<close>

fun hasStack :: "err \<Rightarrow> bool" where
  "hasStack (withStack a e s) \<longleftrightarrow> True"
| "hasStack (wrapped a m e) \<longleftrightarrow> hasStack e"
| "hasStack (Other a m t es) \<longleftrightarrow> t \<noteq> None \<or> (\<exists>e \<in> set es. hasStack e)"

section \<open>Operations\<close>

text \<open>\<open>a\<close> is the address of the node the call allocates, \<open>callers\<close> its call stack.\<close>

definition WithStack :: "nat \<Rightarrow> nat list \<Rightarrow> err option \<Rightarrow> err option" where
  "WithStack a callers err = (case err of
     None \<Rightarrow> None
   | Some e \<Rightarrow> if hasStack e then Some e else Some (withStack a e (newStack callers)))"

definition Wrap :: "nat \<Rightarrow> err option \<Rightarrow> string \<Rightarrow> err option" where
  "Wrap a err msg = (case err of None \<Rightarrow> None | Some e \<Rightarrow> Some (wrapped a msg e))"

text \<open>\<open>Wrapf\<close>: \<open>Sprintf\<close> formats the arguments.\<close>

definition Wrapf :: "(string \<Rightarrow> 'a list \<Rightarrow> string) \<Rightarrow> nat \<Rightarrow> err option \<Rightarrow> string \<Rightarrow> 'a list \<Rightarrow> err option" where
  "Wrapf Sprintf a err fmt args = (case err of None \<Rightarrow> None | Some e \<Rightarrow> Some (wrapped a (Sprintf fmt args) e))"

text \<open>\<open>format\<close>, the shared formatter of both node types: what it writes for a verb and the plus flag.\<close>

definition format :: "(string \<Rightarrow> string) \<Rightarrow> (nat list \<Rightarrow> Frame list) \<Rightarrow> char \<Rightarrow> bool \<Rightarrow> err \<Rightarrow> string \<Rightarrow> string" where
  "format quote symbolize verb flag e msg =
     (if verb = CHR ''v'' then msg @ (if flag then writeStack (Frames symbolize (Some e)) else '''')
      else if verb = CHR ''s'' then msg
      else if verb = CHR ''q'' then quote msg
      else '''')"

section \<open>Stacks of a chain\<close>

lemma first_some_iff: "(\<exists>x. first_some xs = Some x) \<longleftrightarrow> (\<exists>x. Some x \<in> set xs)"
  by (induction xs rule: first_some.induct) auto

lemma hasStack_iff: "hasStack e \<longleftrightarrow> (\<exists>fs. As_tracer symbolize e = Some fs)"
proof (induction e)
  case (Other a m t es)
  then show ?case
    using first_some_iff [of "map (As_tracer symbolize) es"] by (cases t) (force simp: image_iff)+
qed simp_all

lemma As_tracer_None: "\<not> hasStack e \<Longrightarrow> As_tracer symbolize e = None"
  using hasStack_iff [of e symbolize] by (cases "As_tracer symbolize e") auto

text \<open>The \<open>Format\<close> methods of the two node types.\<close>

definition withStack_Format :: "(string \<Rightarrow> string) \<Rightarrow> (nat list \<Rightarrow> Frame list) \<Rightarrow> char \<Rightarrow> bool \<Rightarrow> err \<Rightarrow> string" where
  "withStack_Format quote symbolize verb flag w = format quote symbolize verb flag w (Error w)"

definition wrapped_Format :: "(string \<Rightarrow> string) \<Rightarrow> (nat list \<Rightarrow> Frame list) \<Rightarrow> char \<Rightarrow> bool \<Rightarrow> err \<Rightarrow> string" where
  "wrapped_Format quote symbolize verb flag w = format quote symbolize verb flag w (Error w)"

text \<open>
  With \<open>%+v\<close> a message added in front of an error that has a stack is followed by the same trace as the
  error itself; an error without one prints its message alone.
\<close>

lemma Format_plus_v:
  "withStack_Format quote symbolize (CHR ''v'') True (withStack a e s) = Error e @ writeStack (fst (resolve symbolize s))"
  "wrapped_Format quote symbolize (CHR ''v'') True (wrapped b m (withStack a e s)) =
     m @ '': '' @ withStack_Format quote symbolize (CHR ''v'') True (withStack a e s)"
  by (simp_all add: withStack_Format_def wrapped_Format_def format_def Frames_def)

lemma Format_without_stack: "\<not> hasStack e \<Longrightarrow> wrapped_Format quote symbolize (CHR ''v'') f (wrapped b m e) = m @ '': '' @ Error e"
  using As_tracer_None [of e symbolize] by (simp add: wrapped_Format_def format_def Frames_def writeStack_def)

text \<open>Resolving a stack twice symbolizes once and gives the same frames.\<close>

lemma resolve_again: "resolve symbolize (snd (resolve symbolize s)) = (fst (resolve symbolize s), snd (resolve symbolize s))"
  by (simp add: resolve_def Let_def)

lemma resolve_newStack:
  "fst (resolve symbolize (newStack callers)) = filter (\<lambda>f. Function f \<noteq> '''') (symbolize (take maxStackDepth callers))"
  by (simp add: resolve_def newStack_def Let_def)

section \<open>Annotating an error on its way up\<close>

text \<open>
  What the callers of a failing function do with its error, innermost first: \<open>Wrap\<close> it or attach a stack.
\<close>

datatype annotation = AWrap nat string | AStack nat "nat list"

fun annotate1 :: "annotation \<Rightarrow> err option \<Rightarrow> err option" where
  "annotate1 (AWrap a msg) err = Wrap a err msg"
| "annotate1 (AStack a callers) err = WithStack a callers err"

definition annotate :: "annotation list \<Rightarrow> err option \<Rightarrow> err option" where
  "annotate as err = fold annotate1 as err"

text \<open>The first stack attached, and the messages, outermost first.\<close>

fun first_capture :: "annotation list \<Rightarrow> nat list option" where
  "first_capture [] = None"
| "first_capture (AWrap a msg # as) = first_capture as"
| "first_capture (AStack a callers # as) = Some callers"

fun messages :: "annotation list \<Rightarrow> string list" where
  "messages [] = []"
| "messages (AWrap a msg # as) = messages as @ [msg]"
| "messages (AStack a callers # as) = messages as"

fun new_address :: "annotation \<Rightarrow> nat" where
  "new_address (AWrap a msg) = a"
| "new_address (AStack a callers) = a"

definition prefixes :: "string list \<Rightarrow> string" where
  "prefixes ms = concat (map (\<lambda>m. m @ '': '') ms)"

lemma annotate_None [simp]: "annotate as None = None"
  unfolding annotate_def
proof (induction as)
  case (Cons a as)
  then show ?case by (cases a) (simp_all add: Wrap_def WithStack_def)
qed simp

lemma annotate_Cons: "annotate (a # as) err = annotate as (annotate1 a err)"
  by (simp add: annotate_def)

lemma annotate_hasStack:
  "hasStack e \<Longrightarrow> \<exists>e'. annotate as (Some e) = Some e' \<and> hasStack e' \<and> As_tracer symb e' = As_tracer symb e \<and>
     Error e' = prefixes (messages as) @ Error e"
proof (induction as arbitrary: e)
  case Nil
  then show ?case by (simp add: annotate_def prefixes_def)
next
  case (Cons a as)
  show ?case
  proof (cases a)
    case (AWrap b msg)
    then show ?thesis
      using Cons.IH [of "wrapped b msg e"] Cons.prems by (fastforce simp: annotate_Cons Wrap_def prefixes_def)
  next
    case (AStack b callers)
    then show ?thesis using Cons by (simp add: annotate_Cons WithStack_def)
  qed
qed

lemma annotate_fresh:
  assumes "\<not> hasStack e"
  shows "\<exists>e'. annotate as (Some e) = Some e' \<and> Error e' = prefixes (messages as) @ Error e \<and>
     As_tracer symb e' = map_option (\<lambda>cs. fst (resolve symb (newStack cs))) (first_capture as)"
  using assms
proof (induction as arbitrary: e)
  case Nil
  then show ?case by (simp add: annotate_def prefixes_def As_tracer_None)
next
  case (Cons a as)
  show ?case
  proof (cases a)
    case (AWrap b msg)
    then show ?thesis
      using Cons.IH [of "wrapped b msg e"] Cons.prems by (fastforce simp: annotate_Cons Wrap_def prefixes_def)
  next
    case (AStack b callers)
    then show ?thesis
      using annotate_hasStack [of "withStack b e (newStack callers)" as symb] Cons.prems
      by (auto simp: annotate_Cons WithStack_def)
  qed
qed

lemma annotate_Is:
  assumes "t \<notin> new_address ` set as"
  shows "\<exists>e'. annotate as (Some e) = Some e' \<and> (errors_Is e' t \<longleftrightarrow> errors_Is e t)"
  using assms
proof (induction as arbitrary: e)
  case (Cons a as)
  obtain e1 where e1: "annotate1 a (Some e) = Some e1" "errors_Is e1 t \<longleftrightarrow> errors_Is e t"
    using Cons.prems by (cases a; cases "hasStack e") (auto simp: Wrap_def WithStack_def)
  then show ?case using Cons.IH [of e1] Cons.prems by (simp add: annotate_Cons)
qed (simp add: annotate_def)

definition demo_symbolize :: "nat list \<Rightarrow> Frame list" where
  "demo_symbolize ps = map (\<lambda>p. \<lparr>Function = (if p = 0 then '''' else ''main.f''), File = ''main.go'', Line = int p\<rparr>) ps"

text \<open>
  C38. The trace of an error points at its origin: however often an error is wrapped or given a stack on
  its way up, its frames are those it already carried or else those of the first \<open>WithStack\<close> (at most 32
  program counters, unnamed frames dropped), its message is the messages of the wraps, outermost first,
  before its own, and \<open>errors.Is\<close> finds in it exactly what it found before besides the added nodes; a nil
  error stays nil.
\<close>

theorem trace_points_at_origin:
  "annotate as None = None \<and>
   (\<exists>e'. annotate as (Some e) = Some e' \<and>
     Error e' = concat (map (\<lambda>m. m @ '': '') (messages as)) @ Error e \<and>
     Frames symb (Some e') =
       (if hasStack e then Frames symb (Some e)
        else case first_capture as of None \<Rightarrow> []
          | Some callers \<Rightarrow> filter (\<lambda>f. Function f \<noteq> '''') (symb (take 32 callers))) \<and>
     (\<forall>t. t \<notin> new_address ` set as \<longrightarrow> (errors_Is e' t \<longleftrightarrow> errors_Is e t)))"
proof -
  obtain e' where e': "annotate as (Some e) = Some e'" "Error e' = prefixes (messages as) @ Error e"
    "As_tracer symb e' = (if hasStack e then As_tracer symb e
       else map_option (\<lambda>cs. fst (resolve symb (newStack cs))) (first_capture as))"
    using annotate_hasStack [of e as symb] annotate_fresh [of e as symb] by (cases "hasStack e") auto
  have "errors_Is e' t \<longleftrightarrow> errors_Is e t" if "t \<notin> new_address ` set as" for t
    using annotate_Is [OF that, of e] e'(1) by simp
  then show ?thesis
    using e' by (auto simp: Frames_def prefixes_def resolve_newStack maxStackDepth_def split: option.splits)
qed

theorem trace_points_at_origin_witness:
  "\<exists>e'. annotate [AStack 1 [7, 0, 9], AWrap 2 ''load'', AStack 3 [8], AWrap 4 ''start''] (Some (Other 0 ''boom'' None [])) = Some e' \<and>
     Error e' = ''start: load: boom'' \<and> errors_Is e' 0 \<and> \<not> errors_Is e' 9 \<and>
     Frames demo_symbolize (Some e') =
       [\<lparr>Function = ''main.f'', File = ''main.go'', Line = 7\<rparr>, \<lparr>Function = ''main.f'', File = ''main.go'', Line = 9\<rparr>]"
  using trace_points_at_origin [of "[AStack 1 [7, 0, 9], AWrap 2 ''load'', AStack 3 [8], AWrap 4 ''start'']"
      "Other 0 ''boom'' None []" demo_symbolize]
  by (force simp: demo_symbolize_def)

text \<open>
  The outermost tracer is not always the earliest capture: a tracer of another package around an error
  that already carries a stack hides it.
\<close>

lemma foreign_tracer_hides_capture:
  "Frames symb (Some (Other b m (Some fs) [withStack a e s])) = fs"
  by (simp add: Frames_def)

end
