(* ===== verification/Hash.thy ===== *)
theory Hash
  imports GoStrings
begin

text \<open>
  Package \<open>hash\<close>: passwords hashed with bcrypt. The bcrypt package is third-party code: its three
  functions are an argument of the definitions, and what its documentation promises is the predicate
  \<open>bcrypt_documented\<close>. Salts come from the operating system's entropy source, which can fail; they are
  an explicit argument of the generating call.
\<close>

section \<open>The bcrypt package\<close>

datatype bcrypt_err = BErrPasswordTooLong | BErrMismatchedHashAndPassword | BErrHashTooShort | BErrInvalidCost int | BErrOther string

record 'salt bcrypt =
  GenerateFromPassword :: "'salt option \<Rightarrow> string \<Rightarrow> int \<Rightarrow> bcrypt_err + string"
  CompareHashAndPassword :: "string \<Rightarrow> string \<Rightarrow> bcrypt_err option"
  bcrypt_Cost :: "string \<Rightarrow> bcrypt_err + int"

text \<open>
  Documented behaviour: a password over 72 bytes is refused; with entropy, a cost of 4 to 31 and a
  shorter password there is a hash, which compares equal to its password and records its cost.
\<close>

definition bcrypt_documented :: "'salt bcrypt \<Rightarrow> bool" where
  "bcrypt_documented b \<longleftrightarrow>
     (\<forall>salt pw cost. 72 < length pw \<longrightarrow> GenerateFromPassword b salt pw cost = Inl BErrPasswordTooLong) \<and>
     (\<forall>salt pw cost. length pw \<le> 72 \<longrightarrow> 4 \<le> cost \<longrightarrow> cost \<le> 31 \<longrightarrow>
        (\<exists>h. GenerateFromPassword b (Some salt) pw cost = Inr h)) \<and>
     (\<forall>salt pw cost h. 4 \<le> cost \<longrightarrow> cost \<le> 31 \<longrightarrow> GenerateFromPassword b salt pw cost = Inr h \<longrightarrow>
        CompareHashAndPassword b h pw = None \<and> bcrypt_Cost b h = Inr cost)"

section \<open>Errors\<close>

text \<open>The errors the package returns: its own sentinel, or a message around a sentinel or a bcrypt error.\<close>

datatype hash_err =
    ErrMismatch
  | InvalidCost int
  | GenerateFailed bcrypt_err
  | ReadCostFailed bcrypt_err
  | CompareFailed bcrypt_err

datatype sentinel = SMismatch | SPasswordTooLong | SInvalidCost

text \<open>\<open>errors.Is\<close> on the errors of the package.\<close>

fun err_Is :: "hash_err \<Rightarrow> sentinel \<Rightarrow> bool" where
  "err_Is ErrMismatch t \<longleftrightarrow> t = SMismatch"
| "err_Is (InvalidCost c) t \<longleftrightarrow> t = SInvalidCost"
| "err_Is (GenerateFailed e) t \<longleftrightarrow> t = SPasswordTooLong \<and> e = BErrPasswordTooLong"
| "err_Is (ReadCostFailed e) t \<longleftrightarrow> t = SPasswordTooLong \<and> e = BErrPasswordTooLong"
| "err_Is (CompareFailed e) t \<longleftrightarrow> t = SPasswordTooLong \<and> e = BErrPasswordTooLong"

section \<open>Operations\<close>

definition defaultCost :: int where "defaultCost = 12"
definition minCost :: int where "minCost = 10"
definition maxCost :: int where "maxCost = 31"

definition HashPasswordCost :: "'salt bcrypt \<Rightarrow> 'salt option \<Rightarrow> string \<Rightarrow> int \<Rightarrow> hash_err + string" where
  "HashPasswordCost b salt pw cost =
     (if cost < minCost \<or> maxCost < cost then Inl (InvalidCost cost)
      else case GenerateFromPassword b salt pw cost of
             Inl e \<Rightarrow> Inl (GenerateFailed e)
           | Inr h \<Rightarrow> Inr h)"

definition HashPassword :: "'salt bcrypt \<Rightarrow> 'salt option \<Rightarrow> string \<Rightarrow> hash_err + string" where
  "HashPassword b salt pw = HashPasswordCost b salt pw defaultCost"

definition Cost :: "'salt bcrypt \<Rightarrow> string \<Rightarrow> hash_err + int" where
  "Cost b hash = (case bcrypt_Cost b hash of Inl e \<Rightarrow> Inl (ReadCostFailed e) | Inr c \<Rightarrow> Inr c)"

definition CheckPassword :: "'salt bcrypt \<Rightarrow> string \<Rightarrow> string \<Rightarrow> hash_err option" where
  "CheckPassword b pw hash = (case CompareHashAndPassword b hash pw of
     None \<Rightarrow> None
   | Some e \<Rightarrow> if e = BErrMismatchedHashAndPassword then Some ErrMismatch else Some (CompareFailed e))"

section \<open>Properties\<close>

lemmas hash_defs = HashPasswordCost_def HashPassword_def Cost_def CheckPassword_def minCost_def maxCost_def defaultCost_def

lemma HashPasswordCost_ok:
  assumes "bcrypt_documented b" and "HashPasswordCost b salt pw cost = Inr h"
  shows "10 \<le> cost \<and> cost \<le> 31 \<and> length pw \<le> 72 \<and> CheckPassword b pw h = None \<and> Cost b h = Inr cost"
proof -
  have c: "10 \<le> cost" "cost \<le> 31" and g: "GenerateFromPassword b salt pw cost = Inr h"
    using assms(2) by (auto simp: hash_defs split: if_splits sum.splits)
  have four: "4 \<le> cost" using c(1) by linarith
  have "\<not> 72 < length pw"
  proof
    assume "72 < length pw"
    then have "GenerateFromPassword b salt pw cost = Inl BErrPasswordTooLong"
      using assms(1) by (simp add: bcrypt_documented_def)
    then show False using g by simp
  qed
  moreover have "CompareHashAndPassword b h pw = None \<and> bcrypt_Cost b h = Inr cost"
    using assms(1) c(2) g four unfolding bcrypt_documented_def by blast
  ultimately show ?thesis using c by (simp add: hash_defs)
qed

lemma HashPasswordCost_produces:
  assumes "bcrypt_documented b" and "10 \<le> cost" and "cost \<le> 31" and "length pw \<le> 72"
  shows "\<exists>h. HashPasswordCost b (Some salt) pw cost = Inr h"
proof -
  have "4 \<le> cost" using assms(2) by linarith
  then obtain h where "GenerateFromPassword b (Some salt) pw cost = Inr h"
    using assms unfolding bcrypt_documented_def by blast
  then show ?thesis using assms(2,3) by (simp add: hash_defs)
qed

text \<open>A toy algorithm with the documented behaviour: the cost, then the password.\<close>

definition demo_bcrypt :: "unit bcrypt" where
  "demo_bcrypt = \<lparr>
     GenerateFromPassword = (\<lambda>salt pw cost. if 72 < length pw then Inl BErrPasswordTooLong
       else case salt of None \<Rightarrow> Inl (BErrOther ''entropy'') | Some _ \<Rightarrow> Inr (char_of (nat cost) # pw)),
     CompareHashAndPassword = (\<lambda>h pw. case h of [] \<Rightarrow> Some BErrHashTooShort
       | c # p \<Rightarrow> if p = pw then None else Some BErrMismatchedHashAndPassword),
     bcrypt_Cost = (\<lambda>h. case h of [] \<Rightarrow> Inl BErrHashTooShort | c # p \<Rightarrow> Inr (int (of_char c)))\<rparr>"

lemma demo_bcrypt_documented: "bcrypt_documented demo_bcrypt"
  by (auto simp: bcrypt_documented_def demo_bcrypt_def split: if_splits option.splits)

text \<open>
  C39. Hashing and checking round-trip. With an algorithm as documented: a password of at most 72 bytes
  hashed at a cost of 10 to 31 gives a hash that \<open>CheckPassword\<close> accepts for it and whose \<open>Cost\<close> is the
  one asked for (12 for \<open>HashPassword\<close>); a cost outside that range is \<open>ErrInvalidCost\<close>, whatever the
  password and the algorithm; a longer password at a valid cost is \<open>ErrPasswordTooLong\<close>.
\<close>

theorem hash_check_roundtrip:
  assumes "bcrypt_documented b"
  shows "(10 \<le> cost \<and> cost \<le> 31 \<and> length pw \<le> 72 \<longrightarrow>
      (\<exists>h. HashPasswordCost b (Some salt) pw cost = Inr h \<and> CheckPassword b pw h = None \<and> Cost b h = Inr cost)) \<and>
    (length pw \<le> 72 \<longrightarrow> (\<exists>h. HashPassword b (Some salt) pw = Inr h \<and> CheckPassword b pw h = None \<and> Cost b h = Inr 12)) \<and>
    (cost < 10 \<or> 31 < cost \<longrightarrow> HashPasswordCost b (Some salt) pw cost = Inl (InvalidCost cost)) \<and>
    (10 \<le> cost \<and> cost \<le> 31 \<and> 72 < length pw \<longrightarrow>
      (\<exists>e. HashPasswordCost b (Some salt) pw cost = Inl e \<and> err_Is e SPasswordTooLong))"
proof (intro conjI impI)
  assume "10 \<le> cost \<and> cost \<le> 31 \<and> length pw \<le> 72"
  then show "\<exists>h. HashPasswordCost b (Some salt) pw cost = Inr h \<and> CheckPassword b pw h = None \<and> Cost b h = Inr cost"
    using HashPasswordCost_produces [OF assms] HashPasswordCost_ok [OF assms] by blast
next
  assume "length pw \<le> 72"
  then show "\<exists>h. HashPassword b (Some salt) pw = Inr h \<and> CheckPassword b pw h = None \<and> Cost b h = Inr 12"
    using HashPasswordCost_produces [OF assms, of 12] HashPasswordCost_ok [OF assms]
    by (fastforce simp: HashPassword_def defaultCost_def)
next
  assume "cost < 10 \<or> 31 < cost"
  then show "HashPasswordCost b (Some salt) pw cost = Inl (InvalidCost cost)" by (simp add: hash_defs)
next
  assume "10 \<le> cost \<and> cost \<le> 31 \<and> 72 < length pw"
  then show "\<exists>e. HashPasswordCost b (Some salt) pw cost = Inl e \<and> err_Is e SPasswordTooLong"
    using assms by (simp add: hash_defs bcrypt_documented_def)
qed

theorem hash_check_roundtrip_witness:
  "(\<exists>h. HashPasswordCost demo_bcrypt (Some ()) ''secret'' 14 = Inr h \<and> CheckPassword demo_bcrypt ''secret'' h = None \<and>
     Cost demo_bcrypt h = Inr 14) \<and>
   HashPasswordCost demo_bcrypt (Some ()) ''secret'' 9 = Inl (InvalidCost 9)"
  using hash_check_roundtrip [OF demo_bcrypt_documented, of 14 "''secret''" "()"]
    hash_check_roundtrip [OF demo_bcrypt_documented, of 9 "''secret''" "()"] by simp

text \<open>What \<open>CheckPassword\<close> returns tells a wrong password from an unusable hash.\<close>

lemma CheckPassword_cases:
  "CheckPassword b pw h = None \<longleftrightarrow> CompareHashAndPassword b h pw = None"
  "CheckPassword b pw h = Some ErrMismatch \<longleftrightarrow> CompareHashAndPassword b h pw = Some BErrMismatchedHashAndPassword"
  by (auto simp: CheckPassword_def split: option.splits)

end
