(* ===== verification/Health.thy ===== *)
theory Health
  imports Http GoText
begin

text \<open>
  Package \<open>health\<close> and the probes of the contrib modules: a readiness endpoint that runs named probes
  concurrently. One goroutine per check writes its result to a shared map under a mutex; the handler
  waits for all of them. A panic in a probe is on a goroutine of its own and ends the process; a probe
  that ends its goroutine with \<open>runtime.Goexit\<close> writes no result, but its deferred \<open>Done\<close> runs.
\<close>

section \<open>Checks\<close>

text \<open>
  What a call of a probe does: it returns nil, returns an error, panics, or ends its goroutine. A nil
  probe is \<open>None\<close>.
\<close>

datatype probe_result = ProbeOk | ProbeErr string | ProbePanic string | ProbeGoexit

record check =
  check_name :: string
  Probe :: "(request \<Rightarrow> probe_result) option"

definition statusOK :: string where "statusOK = ''ok''"
definition statusFail :: string where "statusFail = ''fail''"
definition statusUnavailable :: string where "statusUnavailable = ''unavailable''"

section \<open>Running the probes\<close>

datatype gpc = GProbing | GStoring string | GDone

text \<open>
  The state of \<open>run\<close>: the goroutines started so far, in the order of the checks, the shared map, and
  whether a probe has brought the process down.
\<close>

record run_state =
  gos :: "gpc list"
  results :: "(string \<times> string) list"
  run_crashed :: bool

definition run_init :: run_state where
  "run_init = \<lparr>gos = [], results = [], run_crashed = False\<rparr>"

text \<open>An assignment to a key of a map.\<close>

fun map_set :: "'k \<Rightarrow> 'v \<Rightarrow> ('k \<times> 'v) list \<Rightarrow> ('k \<times> 'v) list" where
  "map_set k v [] = [(k, v)]"
| "map_set k v (e # es) = (if fst e = k then (k, v) # es else e # map_set k v es)"

definition probe_of :: "request \<Rightarrow> check \<Rightarrow> probe_result" where
  "probe_of r c = (case Probe c of Some p \<Rightarrow> p r | None \<Rightarrow> ProbePanic ''nil dereference'')"

inductive run_step :: "request \<Rightarrow> check list \<Rightarrow> run_state \<Rightarrow> run_state \<Rightarrow> bool" for r cs where
  spawn: "\<not> run_crashed s \<Longrightarrow> length (gos s) < length cs \<Longrightarrow> run_step r cs s (s\<lparr>gos := gos s @ [GProbing]\<rparr>)"
| probe_ok: "\<not> run_crashed s \<Longrightarrow> i < length (gos s) \<Longrightarrow> gos s ! i = GProbing \<Longrightarrow> probe_of r (cs ! i) = ProbeOk \<Longrightarrow>
    run_step r cs s (s\<lparr>gos := (gos s)[i := GStoring statusOK]\<rparr>)"
| probe_err: "\<not> run_crashed s \<Longrightarrow> i < length (gos s) \<Longrightarrow> gos s ! i = GProbing \<Longrightarrow> probe_of r (cs ! i) = ProbeErr e \<Longrightarrow>
    run_step r cs s (s\<lparr>gos := (gos s)[i := GStoring statusFail]\<rparr>)"
| probe_panic: "\<not> run_crashed s \<Longrightarrow> i < length (gos s) \<Longrightarrow> gos s ! i = GProbing \<Longrightarrow> probe_of r (cs ! i) = ProbePanic m \<Longrightarrow>
    run_step r cs s (s\<lparr>run_crashed := True\<rparr>)"
| probe_goexit: "\<not> run_crashed s \<Longrightarrow> i < length (gos s) \<Longrightarrow> gos s ! i = GProbing \<Longrightarrow> probe_of r (cs ! i) = ProbeGoexit \<Longrightarrow>
    run_step r cs s (s\<lparr>gos := (gos s)[i := GDone]\<rparr>)"
| store: "\<not> run_crashed s \<Longrightarrow> i < length (gos s) \<Longrightarrow> gos s ! i = GStoring st \<Longrightarrow>
    run_step r cs s (s\<lparr>gos := (gos s)[i := GDone], results := map_set (check_name (cs ! i)) st (results s)\<rparr>)"

text \<open>\<open>wg.Wait\<close> returns when every goroutine is done.\<close>

definition run_returned :: "check list \<Rightarrow> run_state \<Rightarrow> bool" where
  "run_returned cs s \<longleftrightarrow> \<not> run_crashed s \<and> length (gos s) = length cs \<and> list_all (\<lambda>g. g = GDone) (gos s)"

section \<open>The response\<close>

definition hex_digit :: "nat \<Rightarrow> char" where
  "hex_digit n = (if n < 10 then char_of (48 + n) else char_of (87 + n))"

text \<open>String encoding of \<open>encoding/json\<close>, which also escapes the characters special in HTML.\<close>

definition json_rune :: "nat \<times> string \<Rightarrow> string" where
  "json_rune rb = (case rb of (r, bs) \<Rightarrow>
     if r = 0x22 then [CHR 0x5C, CHR 0x22]
     else if r = 0x5C then [CHR 0x5C, CHR 0x5C]
     else if r = 0x08 then [CHR 0x5C, CHR ''b'']
     else if r = 0x0C then [CHR 0x5C, CHR ''f'']
     else if r = 0x0A then [CHR 0x5C, CHR ''n'']
     else if r = 0x0D then [CHR 0x5C, CHR ''r'']
     else if r = 0x09 then [CHR 0x5C, CHR ''t'']
     else if r < 0x20 \<or> r = 0x3C \<or> r = 0x3E \<or> r = 0x26 then [CHR 0x5C] @ ''u00'' @ [hex_digit (r div 16), hex_digit (r mod 16)]
     else if r = 0x2028 then [CHR 0x5C] @ ''u2028''
     else if r = 0x2029 then [CHR 0x5C] @ ''u2029''
     else if r = 0xFFFD \<and> length bs = 1 then [CHR 0x5C] @ ''ufffd''
     else bs)"

definition json_string :: "string \<Rightarrow> string" where
  "json_string s = [CHR 0x22] @ concat (map json_rune (runes s)) @ [CHR 0x22]"

text \<open>The body: the keys of the map are written in sorted order.\<close>

definition json_object :: "(string \<times> string) list \<Rightarrow> string" where
  "json_object m =
     ''{'' @ strings_Join (map (\<lambda>k. json_string k @ '':'' @ json_string (the (map_of m k))) (sort (map fst m))) '','' @ ''}''"

definition Encode :: "string \<Rightarrow> (string \<times> string) list \<Rightarrow> string" where
  "Encode status checks =
     ''{'' @ json_string ''status'' @ '':'' @ json_string status @ '','' @ json_string ''checks'' @ '':'' @
       json_object checks @ ''}'' @ [CHR 0x0A]"

definition respond :: "(string \<times> string) list \<Rightarrow> hcall list" where
  "respond m =
     (let healthy = list_all (\<lambda>(n, status). status = statusOK) m;
          (code, status) = (if healthy then (200, statusOK) else (503, statusUnavailable));
          text = Encode status m
      in [HSet ''Content-Type'' ''application/json'', WriteHeader code, Write text (length text)])"

section \<open>The handler\<close>

text \<open>The wiring checks of \<open>Handler\<close>.\<close>

fun wiring :: "string list \<Rightarrow> check list \<Rightarrow> unit go" where
  "wiring seen [] = Return ()"
| "wiring seen (c # cs) =
     (if check_name c = '''' then Panic ''health: empty check name''
      else if Probe c = None then Panic (''health: nil probe for check '' @ check_name c)
      else if check_name c \<in> set seen then Panic (''health: duplicate check name '' @ check_name c)
      else wiring (check_name c # seen) cs)"

text \<open>The handler built from the checks: the calls it may make on a request.\<close>

definition Handler :: "check list \<Rightarrow> (request \<Rightarrow> hcall list \<Rightarrow> bool) go" where
  "Handler cs = go_bind (wiring [] cs) (\<lambda>_.
     Return (\<lambda>r made. \<exists>s. (run_step r cs)\<^sup>*\<^sup>* run_init s \<and> run_returned cs s \<and> made = respond (results s)))"

section \<open>A sequential reference\<close>

definition status_of_probe :: "probe_result \<Rightarrow> string" where
  "status_of_probe p = (case p of ProbeOk \<Rightarrow> statusOK | _ \<Rightarrow> statusFail)"

text \<open>A check reports unless its probe ends its goroutine.\<close>

definition reports :: "request \<Rightarrow> check \<Rightarrow> bool" where
  "reports r c \<longleftrightarrow> probe_of r c \<noteq> ProbeGoexit"

definition reference :: "request \<Rightarrow> check list \<Rightarrow> (string \<times> string) list" where
  "reference r cs = map (\<lambda>c. (check_name c, status_of_probe (probe_of r c))) (filter (reports r) cs)"

lemma wiring_ok: "wiring seen cs = Return u \<Longrightarrow>
    distinct (map check_name cs) \<and> set (map check_name cs) \<inter> set seen = {} \<and> '''' \<notin> set (map check_name cs)"
proof (induction cs arbitrary: seen)
  case (Cons c cs)
  have "wiring (check_name c # seen) cs = Return u" using Cons.prems by (auto split: if_splits)
  then show ?case using Cons.IH [of "check_name c # seen"] Cons.prems by (auto split: if_splits)
qed simp

lemma map_of_map_set: "map_of (map_set k v m) = (map_of m)(k \<mapsto> v)"
proof (induction m)
  case (Cons e m)
  obtain k' v' where e: "e = (k', v')" by (cases e)
  then show ?case using Cons by (cases "k' = k") (auto simp: fun_eq_iff)
qed auto

lemma keys_map_set: "set (map fst (map_set k v m)) = insert k (set (map fst m))"
  by (induction m) auto

lemma distinct_map_set: "distinct (map fst m) \<Longrightarrow> distinct (map fst (map_set k v m))"
proof (induction m)
  case (Cons e m)
  then show ?case using keys_map_set [of k v m] by auto
qed simp

text \<open>The map holds exactly the results of the goroutines that are done and report.\<close>

definition expected :: "request \<Rightarrow> check list \<Rightarrow> nat \<Rightarrow> string" where
  "expected r cs i = status_of_probe (probe_of r (cs ! i))"

definition done_entry :: "request \<Rightarrow> check list \<Rightarrow> gpc list \<Rightarrow> string \<Rightarrow> string \<Rightarrow> bool" where
  "done_entry r cs gs k v \<longleftrightarrow> (\<exists>i < length gs. gs ! i = GDone \<and> reports r (cs ! i) \<and> check_name (cs ! i) = k \<and> expected r cs i = v)"

lemma done_entry_pending:
  "gs ! i \<noteq> GDone \<Longrightarrow> x \<noteq> GDone \<Longrightarrow> done_entry r cs (gs[i := x]) k v \<longleftrightarrow> done_entry r cs gs k v"
  unfolding done_entry_def by (metis length_list_update nth_list_update_eq nth_list_update_neq)

lemma done_entry_spawn: "done_entry r cs (gs @ [GProbing]) k v \<longleftrightarrow> done_entry r cs gs k v"
  unfolding done_entry_def by (force simp: nth_append less_Suc_eq)

lemma done_entry_finish:
  assumes "i < length gs" and "gs ! i \<noteq> GDone"
  shows "done_entry r cs (gs[i := GDone]) k v \<longleftrightarrow>
     done_entry r cs gs k v \<or> reports r (cs ! i) \<and> check_name (cs ! i) = k \<and> expected r cs i = v"
proof -
  have "gs[i := GDone] ! j = GDone \<longleftrightarrow> j = i \<or> gs ! j = GDone" if "j < length gs" for j
    using that assms by (simp add: nth_list_update)
  then show ?thesis using assms(1) by (auto simp: done_entry_def)
qed

definition run_inv :: "request \<Rightarrow> check list \<Rightarrow> run_state \<Rightarrow> bool" where
  "run_inv r cs s \<longleftrightarrow> length (gos s) \<le> length cs \<and> distinct (map fst (results s)) \<and>
     (\<forall>i < length (gos s). \<forall>st. gos s ! i = GStoring st \<longrightarrow> st = expected r cs i \<and> reports r (cs ! i)) \<and>
     (\<forall>k v. map_of (results s) k = Some v \<longleftrightarrow> done_entry r cs (gos s) k v)"

lemma run_inv_store:
  assumes "run_inv r cs s" and "distinct (map check_name cs)" and "i < length (gos s)" and "gos s ! i = GStoring st"
  shows "run_inv r cs (s\<lparr>gos := (gos s)[i := GDone], results := map_set (check_name (cs ! i)) st (results s)\<rparr>)"
proof -
  have l: "length (gos s) \<le> length cs" and st: "st = expected r cs i" "reports r (cs ! i)"
    and m: "\<And>k v. map_of (results s) k = Some v \<longleftrightarrow> done_entry r cs (gos s) k v"
    using assms by (auto simp: run_inv_def)
  have u: "\<not> done_entry r cs (gos s) (check_name (cs ! i)) v" for v
  proof
    assume "done_entry r cs (gos s) (check_name (cs ! i)) v"
    then obtain j where j: "j < length (gos s)" "gos s ! j = GDone" "check_name (cs ! j) = check_name (cs ! i)"
      by (auto simp: done_entry_def)
    then have "j = i" using assms(2,3) l nth_eq_iff_index_eq [of "map check_name cs" j i] by simp
    then show False using j(2) assms(4) by simp
  qed
  have "map_of (map_set (check_name (cs ! i)) st (results s)) k = Some v \<longleftrightarrow> done_entry r cs ((gos s)[i := GDone]) k v" for k v
    using m [of k v] u [of v] st assms(3,4) by (auto simp: map_of_map_set done_entry_finish)
  moreover have "distinct (map fst (map_set (check_name (cs ! i)) st (results s)))"
    using assms(1) by (intro distinct_map_set) (simp add: run_inv_def)
  ultimately show ?thesis using assms(1,3,4) by (auto simp: run_inv_def nth_list_update)
qed

lemma run_inv_step: "run_step r cs s t \<Longrightarrow> distinct (map check_name cs) \<Longrightarrow> run_inv r cs s \<Longrightarrow> run_inv r cs t"
proof (induction rule: run_step.induct)
  case (spawn s)
  then show ?case by (auto simp: run_inv_def done_entry_spawn nth_append less_Suc_eq)
next
  case (store s i st)
  then show ?case using run_inv_store by blast
next
  case (probe_ok s i)
  have "expected r cs i = statusOK" "reports r (cs ! i)" using probe_ok by (simp_all add: expected_def status_of_probe_def reports_def)
  then show ?case using probe_ok by (auto simp: run_inv_def nth_list_update done_entry_pending)
next
  case (probe_err s i e)
  have "expected r cs i = statusFail" "reports r (cs ! i)" using probe_err by (simp_all add: expected_def status_of_probe_def reports_def)
  then show ?case using probe_err by (auto simp: run_inv_def nth_list_update done_entry_pending)
next
  case (probe_goexit s i)
  then have "\<not> reports r (cs ! i)" by (simp add: reports_def)
  then show ?case using probe_goexit by (auto simp: run_inv_def nth_list_update done_entry_finish)
qed (auto simp: run_inv_def)

lemma run_inv_init: "run_inv r cs run_init"
  by (simp add: run_inv_def run_init_def done_entry_def)

interpretation health_run: step_invariant "\<lambda>s. s = run_init" "run_step r cs" "\<lambda>s. distinct (map check_name cs) \<longrightarrow> run_inv r cs s" for r cs
  by unfold_locales (auto intro: run_inv_init run_inv_step)

text \<open>Two maps with the same entries are encoded alike, in whatever order they were filled.\<close>

lemma respond_cong:
  assumes "map_of m = map_of m'" and "distinct (map fst m)" and "distinct (map fst m')"
  shows "respond m = respond m'"
proof -
  have s: "set m = set m'" using assms by (metis map_of_eqI map_of_inject_set)
  then have "sort (map fst m) = sort (map fst m')"
    using assms(2,3) by (intro sorted_distinct_set_unique) auto
  then show ?thesis using s assms(1) by (simp add: respond_def Encode_def json_object_def list_all_iff)
qed

lemma returned_results:
  assumes "run_inv r cs s" and "run_returned cs s" and "distinct (map check_name cs)"
  shows "map_of (results s) = map_of (reference r cs)"
proof
  fix k
  have "map_of (results s) k = Some v \<longleftrightarrow> map_of (reference r cs) k = Some v" for v
  proof -
    have "distinct (map fst (reference r cs))" using assms(3) by (simp add: reference_def comp_def distinct_map_filter)
    then have "map_of (reference r cs) k = Some v \<longleftrightarrow> (k, v) \<in> set (reference r cs)" by (rule map_of_eq_Some_iff)
    also have "\<dots> \<longleftrightarrow> (\<exists>i < length cs. reports r (cs ! i) \<and> check_name (cs ! i) = k \<and> expected r cs i = v)"
    proof
      assume "(k, v) \<in> set (reference r cs)"
      then obtain c where "c \<in> set cs" "reports r c" "k = check_name c" "v = status_of_probe (probe_of r c)" by (auto simp: reference_def)
      then show "\<exists>i < length cs. reports r (cs ! i) \<and> check_name (cs ! i) = k \<and> expected r cs i = v" by (metis expected_def in_set_conv_nth)
    qed (auto simp: reference_def expected_def)
    also have "\<dots> \<longleftrightarrow> map_of (results s) k = Some v"
      using assms(1,2) unfolding run_inv_def run_returned_def done_entry_def list_all_length by (metis (no_types, lifting))
    finally show ?thesis by blast
  qed
  then show "map_of (results s) k = map_of (reference r cs) k"
    by (metis not_None_eq)
qed

section \<open>Progress\<close>

text \<open>Until the wait returns, some goroutine can move, unless a probe panicked; every step does work.\<close>

definition gpc_work :: "gpc \<Rightarrow> nat" where
  "gpc_work g = (case g of GProbing \<Rightarrow> 2 | GStoring _ \<Rightarrow> 1 | GDone \<Rightarrow> 0)"

definition run_work :: "check list \<Rightarrow> run_state \<Rightarrow> nat" where
  "run_work cs s = (if run_crashed s then 0 else 1 + 3 * (length cs - length (gos s)) + sum_list (map gpc_work (gos s)))"

lemma run_progress:
  assumes "\<not> run_returned cs s" and "\<not> run_crashed s" and "length (gos s) \<le> length cs"
  shows "\<exists>t. run_step r cs s t"
proof (cases "length (gos s) < length cs")
  case True
  then show ?thesis using run_step.spawn [OF assms(2)] by blast
next
  case False
  then obtain i where i: "i < length (gos s)" "gos s ! i \<noteq> GDone"
    using assms by (auto simp: run_returned_def list_all_length)
  show ?thesis
  proof (cases "gos s ! i")
    case GProbing
    then show ?thesis
      using run_step.probe_ok [OF assms(2) i(1)] run_step.probe_err [OF assms(2) i(1)] run_step.probe_panic [OF assms(2) i(1)]
        run_step.probe_goexit [OF assms(2) i(1)]
      by (cases "probe_of r (cs ! i)") blast+
  next
    case (GStoring st)
    then show ?thesis using run_step.store [OF assms(2) i(1)] by blast
  qed (use i in simp)
qed

lemma run_work_update:
  assumes "i < length (gos s)" and "gpc_work x < gpc_work (gos s ! i)"
  shows "sum_list (map gpc_work ((gos s)[i := x])) < sum_list (map gpc_work (gos s))"
  using sum_list_map_update [OF assms(1), of gpc_work x] assms(2) by simp

lemma run_step_works: "run_step r cs s t \<Longrightarrow> run_work cs t < run_work cs s"
proof (induction rule: run_step.induct)
  case (spawn s)
  then show ?case by (auto simp: run_work_def gpc_work_def)
next
  case (probe_ok s i)
  then show ?case using run_work_update [of i s "GStoring statusOK"] by (simp add: run_work_def gpc_work_def)
next
  case (probe_err s i e)
  then show ?case using run_work_update [of i s "GStoring statusFail"] by (simp add: run_work_def gpc_work_def)
next
  case (probe_goexit s i)
  then show ?case using run_work_update [of i s GDone] by (simp add: run_work_def gpc_work_def)
next
  case (store s i st)
  then show ?case using run_work_update [of i s GDone] by (simp add: run_work_def gpc_work_def)
qed (simp add: run_work_def)

lemma not_crashed_step:
  assumes "run_step r cs s t" and "\<forall>c \<in> set cs. \<forall>m. probe_of r c \<noteq> ProbePanic m" and "length (gos s) \<le> length cs"
  shows "\<not> run_crashed t"
  using assms by (induction rule: run_step.induct) (auto dest!: nth_mem)

definition run_sound :: "request \<Rightarrow> check list \<Rightarrow> run_state \<Rightarrow> bool" where
  "run_sound r cs s \<longleftrightarrow> run_inv r cs s \<and> \<not> run_crashed s \<and> distinct (map check_name cs) \<and>
     (\<forall>c \<in> set cs. \<forall>m. probe_of r c \<noteq> ProbePanic m)"

interpretation health_end: step_progress "run_step r cs" "run_sound r cs" "run_returned cs" "run_work cs" for r cs
proof unfold_locales
  show "run_sound r cs t" if "run_step r cs s t" "run_sound r cs s" for s t
    using that run_inv_step [of r cs s t] not_crashed_step [of r cs s t] by (auto simp: run_sound_def run_inv_def)
  show "\<exists>t. run_step r cs s t" if "run_sound r cs s" "\<not> run_returned cs s" for s
    using that run_progress [of cs s r] by (auto simp: run_sound_def run_inv_def)
qed (rule run_step_works)

definition demo_checks :: "check list" where
  "demo_checks = [\<lparr>check_name = ''redis'', Probe = Some (\<lambda>r. ProbeErr ''secret host'')\<rparr>,
     \<lparr>check_name = ''db'', Probe = Some (\<lambda>r. ProbeOk)\<rparr>]"

definition probe_request :: request where
  "probe_request = \<lparr>req_method = ''GET'', url_path = ''/readyz'', req_header = (\<lambda>_. []), ctx_request_id = None\<rparr>"

text \<open>
  C40. The readiness answer does not depend on the schedule. With checks that passed the wiring tests and
  whose probes do not panic, a run of the goroutines to the end exists, and every such run gives the same
  calls on the response as running the probes one after the other: 200 and status ok if none returned an
  error, 503 and unavailable otherwise, with the name and ok or fail of every check whose probe returned,
  in sorted order, and nothing of the errors: probes with the same verdicts give the same bytes. A probe
  that ends its goroutine is left out and does not make the answer a failure.
\<close>

theorem health_schedule_independent:
  assumes "Handler cs = Return h" and "\<forall>c \<in> set cs. \<forall>m. probe_of r c \<noteq> ProbePanic m"
  shows "(\<exists>made. h r made) \<and> (\<forall>made. h r made \<longrightarrow>
    made = respond (map (\<lambda>c. (check_name c, if probe_of r c = ProbeOk then statusOK else statusFail))
      (filter (\<lambda>c. probe_of r c \<noteq> ProbeGoexit) cs)) \<and>
    status_of made = (if \<forall>c \<in> set cs. probe_of r c \<in> {ProbeOk, ProbeGoexit} then 200 else 503))"
proof -
  have wd: "distinct (map check_name cs)"
    and h: "h = (\<lambda>r made. \<exists>s. (run_step r cs)\<^sup>*\<^sup>* run_init s \<and> run_returned cs s \<and> made = respond (results s))"
    using assms(1) wiring_ok [of "[]" cs] by (cases "wiring [] cs"; auto simp: Handler_def)+
  have ref: "reference r cs = map (\<lambda>c. (check_name c, if probe_of r c = ProbeOk then statusOK else statusFail))
      (filter (\<lambda>c. probe_of r c \<noteq> ProbeGoexit) cs)"
    by (simp add: reference_def reports_def [abs_def]) (auto simp: status_of_probe_def split: probe_result.splits)
  have eq: "respond (results s) = respond (reference r cs)" if "(run_step r cs)\<^sup>*\<^sup>* run_init s" "run_returned cs s" for s
  proof -
    have i: "run_inv r cs s" using health_run.inv_reachable [OF refl that(1)] wd by blast
    show ?thesis
      using returned_results [OF i that(2) wd] i wd
      by (intro respond_cong) (auto simp: run_inv_def reference_def comp_def distinct_map_filter)
  qed
  have "list_all (\<lambda>(n, status). status = statusOK) (reference r cs) \<longleftrightarrow>
      (\<forall>c \<in> set cs. probe_of r c \<in> {ProbeOk, ProbeGoexit})"
    by (auto simp: ref list_all_iff statusOK_def statusFail_def)
  then have st: "status_of (respond (reference r cs)) = (if \<forall>c \<in> set cs. probe_of r c \<in> {ProbeOk, ProbeGoexit} then 200 else 503)"
    by (simp add: respond_def status_of_def serve_def fresh_response_def send_status_def valid_code_def informational_code_def
        body_allowed_def Let_def)
  have "\<not> run_crashed run_init" by (simp add: run_init_def)
  then obtain t where "(run_step r cs)\<^sup>*\<^sup>* run_init t" "run_returned cs t"
    using health_end.final_reached [of r cs run_init] run_inv_init assms(2) wd by (auto simp: run_sound_def)
  then have "\<exists>made. h r made" using h by auto
  then show ?thesis using h eq st ref by auto
qed

theorem health_schedule_independent_witness:
  "\<exists>h. Handler demo_checks = Return h \<and> (\<exists>made. h probe_request made) \<and>
    (\<forall>made. h probe_request made \<longrightarrow> made = respond [(''redis'', ''fail''), (''db'', ''ok'')] \<and> status_of made = 503)"
proof -
  obtain h where h: "Handler demo_checks = Return h" by (simp add: Handler_def demo_checks_def)
  then show ?thesis
    using health_schedule_independent [OF h, of probe_request]
    by (auto simp: demo_checks_def probe_of_def statusOK_def statusFail_def)
qed

text \<open>A probe that panics brings the process down: no run of its goroutine to the end exists.\<close>

lemma panicking_probe_crashes:
  assumes "(run_step r cs)\<^sup>*\<^sup>* run_init s" and "i < length cs" and "probe_of r (cs ! i) = ProbePanic m"
  shows "\<not> run_returned cs s"
proof -
  have "\<forall>j < length (gos s). gos s ! j \<noteq> GProbing \<longrightarrow> (\<forall>m. probe_of r (cs ! j) \<noteq> ProbePanic m)"
    using assms(1)
  proof (induction rule: rtranclp_induct)
    case (step t u)
    from step(2,3) show ?case
      by (induction rule: run_step.induct) (auto simp: nth_list_update nth_append less_Suc_eq)
  qed (simp add: run_init_def)
  then show ?thesis using assms(2,3) by (fastforce simp: run_returned_def list_all_length)
qed

section \<open>Probes of the contrib modules\<close>

text \<open>
  \<open>pgxhealth\<close> and \<open>redishealth\<close>: a check that pings a client with a deadline. The two modules share
  their code but for the name in messages, the argument \<open>pkg\<close>. The client's \<open>Ping\<close> is an argument: its
  error, given the time and the deadline of its context.
\<close>

type_synonym ping = "instant \<Rightarrow> instant option \<Rightarrow> string option"

definition WithTimeout :: "string \<Rightarrow> duration \<Rightarrow> (duration \<Rightarrow> duration) go" where
  "WithTimeout pkg d = (if d \<le> 0 then Panic (pkg @ '': non-positive timeout'') else Return (\<lambda>_. d))"

text \<open>\<open>context.WithTimeout\<close>: the earlier of the parent's deadline and the timeout.\<close>

definition with_timeout :: "instant \<Rightarrow> duration \<Rightarrow> instant option \<Rightarrow> instant option" where
  "with_timeout now d deadline =
     (if d \<le> 0 then deadline
      else case deadline of None \<Rightarrow> Some (now + d) | Some t \<Rightarrow> Some (min t (now + d)))"

definition ping_probe :: "(string \<Rightarrow> string) \<Rightarrow> string \<Rightarrow> string \<Rightarrow> ping \<Rightarrow> duration \<Rightarrow> instant \<Rightarrow> instant option \<Rightarrow> probe_result" where
  "ping_probe quote pkg name p timeout now deadline =
     (case p now (with_timeout now timeout deadline) of
        None \<Rightarrow> ProbeOk
      | Some e \<Rightarrow> ProbeErr (pkg @ '': ping '' @ quote name @ '': '' @ e))"

text \<open>\<open>ctx\<close> gives the time and the deadline of a request.\<close>

definition newCheck :: "(string \<Rightarrow> string) \<Rightarrow> (request \<Rightarrow> instant \<times> instant option) \<Rightarrow> string \<Rightarrow> string \<Rightarrow> ping \<Rightarrow> (duration \<Rightarrow> duration) list \<Rightarrow> check go" where
  "newCheck quote ctx pkg name p opts =
     (if name = '''' then Panic (pkg @ '': empty check name'')
      else let timeout = apply_opts opts 0
           in Return \<lparr>check_name = name,
                      Probe = Some (\<lambda>r. case ctx r of (now, deadline) \<Rightarrow> ping_probe quote pkg name p timeout now deadline)\<rparr>)"

text \<open>The two modules; a nil pool or client is \<open>None\<close>.\<close>

definition pgxhealth_WithTimeout :: "duration \<Rightarrow> (duration \<Rightarrow> duration) go" where
  "pgxhealth_WithTimeout = WithTimeout ''pgxhealth''"

definition pgxhealth_newCheck :: "(string \<Rightarrow> string) \<Rightarrow> (request \<Rightarrow> instant \<times> instant option) \<Rightarrow> string \<Rightarrow> ping \<Rightarrow> (duration \<Rightarrow> duration) list \<Rightarrow> check go" where
  "pgxhealth_newCheck quote ctx = newCheck quote ctx ''pgxhealth''"

definition pgxhealth_Check :: "(string \<Rightarrow> string) \<Rightarrow> (request \<Rightarrow> instant \<times> instant option) \<Rightarrow> string \<Rightarrow> ping option \<Rightarrow> (duration \<Rightarrow> duration) list \<Rightarrow> check go" where
  "pgxhealth_Check quote ctx name pool opts =
     (case pool of None \<Rightarrow> Panic ''pgxhealth: nil pool'' | Some p \<Rightarrow> pgxhealth_newCheck quote ctx name p opts)"

definition redishealth_WithTimeout :: "duration \<Rightarrow> (duration \<Rightarrow> duration) go" where
  "redishealth_WithTimeout = WithTimeout ''redishealth''"

definition redishealth_newCheck :: "(string \<Rightarrow> string) \<Rightarrow> (request \<Rightarrow> instant \<times> instant option) \<Rightarrow> string \<Rightarrow> ping \<Rightarrow> (duration \<Rightarrow> duration) list \<Rightarrow> check go" where
  "redishealth_newCheck quote ctx = newCheck quote ctx ''redishealth''"

definition redishealth_Check :: "(string \<Rightarrow> string) \<Rightarrow> (request \<Rightarrow> instant \<times> instant option) \<Rightarrow> string \<Rightarrow> ping option \<Rightarrow> (duration \<Rightarrow> duration) list \<Rightarrow> check go" where
  "redishealth_Check quote ctx name client opts =
     (case client of None \<Rightarrow> Panic ''redishealth: nil client'' | Some p \<Rightarrow> redishealth_newCheck quote ctx name p opts)"

text \<open>A bounded probe gives its client a deadline within the timeout, never later than the caller's.\<close>

lemma with_timeout_bounds:
  assumes "0 < d"
  shows "\<exists>t. with_timeout now d deadline = Some t \<and> t \<le> now + d \<and> (\<forall>u. deadline = Some u \<longrightarrow> t \<le> u)"
  using assms by (auto simp: with_timeout_def split: option.splits)

text \<open>The checks pass the wiring tests of the handler and never panic themselves.\<close>

lemma newCheck_fits: "newCheck quote ctx pkg name p opts = Return c \<Longrightarrow>
    wiring [] [c] = Return () \<and> check_name c = name \<and> (\<forall>r m. probe_of r c \<noteq> ProbePanic m)"
  by (auto simp: newCheck_def probe_of_def ping_probe_def Let_def split: if_splits prod.splits option.splits)

end
