(* ===== verification/Env.thy ===== *)
theory Env
  imports GoText Float64
begin

text \<open>
  Package \<open>env\<close>: typed reads of environment variables with fallbacks. The environment is a map. The
  parsers of the standard library are modelled with their overflow checks; a duration's fraction is
  scaled in binary64 arithmetic, as the time package does.
\<close>

type_synonym environ = "string \<rightharpoonup> string"

section \<open>Parsers\<close>

text \<open>\<open>strconv.ParseBool\<close>.\<close>

definition ParseBool :: "string \<Rightarrow> bool option" where
  "ParseBool s =
     (if s \<in> {''1'', ''t'', ''T'', ''true'', ''TRUE'', ''True''} then Some True
      else if s \<in> {''0'', ''f'', ''F'', ''false'', ''FALSE'', ''False''} then Some False
      else None)"

text \<open>
  \<open>time.ParseDuration\<close>. \<open>leadingInt\<close> fails beyond \<open>2 ^ 63\<close>; \<open>leadingFraction\<close> drops the digits that
  no longer fit and gives the scale of those it kept.
\<close>

fun leadingInt :: "int \<Rightarrow> string \<Rightarrow> (int \<times> string) option" where
  "leadingInt x [] = Some (x, [])"
| "leadingInt x (c # cs) =
     (if is_digit c then
        if 2 ^ 63 div 10 < x then None
        else let y = x * 10 + int (digit_val c) in if 2 ^ 63 < y then None else leadingInt y cs
      else Some (x, c # cs))"

fun leadingFraction :: "int \<Rightarrow> float64 \<Rightarrow> bool \<Rightarrow> string \<Rightarrow> int \<times> float64 \<times> string" where
  "leadingFraction x scale over [] = (x, scale, [])"
| "leadingFraction x scale over (c # cs) =
     (if is_digit c then
        if over then leadingFraction x scale True cs
        else if (2 ^ 63 - 1) div 10 < x then leadingFraction x scale True cs
        else let y = x * 10 + int (digit_val c) in
          if 2 ^ 63 < y then leadingFraction x scale True cs
          else leadingFraction y (fmul scale (f64_of_int 10)) False cs
      else (x, scale, c # cs))"

definition unitMap :: "string \<Rightarrow> int option" where
  "unitMap u =
     (if u = ''ns'' then Some 1
      else if u \<in> {''us'', [CHR 0xC2, CHR 0xB5, CHR ''s''], [CHR 0xCE, CHR 0xBC, CHR ''s'']} then Some 1000
      else if u = ''ms'' then Some 1000000
      else if u = ''s'' then Some 1000000000
      else if u = ''m'' then Some 60000000000
      else if u = ''h'' then Some 3600000000000
      else None)"

definition numeral_char :: "char \<Rightarrow> bool" where
  "numeral_char c \<longleftrightarrow> c = CHR ''.'' \<or> is_digit c"

text \<open>One element of a duration, a decimal number and a unit: its nanoseconds and the rest of the string.\<close>

definition parse_element :: "string \<Rightarrow> (int \<times> string) option" where
  "parse_element s =
     (if s = [] \<or> \<not> numeral_char (hd s) then None
      else case leadingInt 0 s of
        None \<Rightarrow> None
      | Some (v, s1) \<Rightarrow>
          let pre = (length s \<noteq> length s1);
              dot = (s1 \<noteq> [] \<and> hd s1 = CHR ''.'');
              (f, scale, s2) = (if dot then leadingFraction 0 (Fin 1) False (tl s1) else (0, Fin 1, s1));
              post = (dot \<and> length (tl s1) \<noteq> length s2);
              u = takeWhile (\<lambda>c. \<not> numeral_char c) s2;
              rest = dropWhile (\<lambda>c. \<not> numeral_char c) s2
          in if \<not> pre \<and> \<not> post then None
             else if u = [] then None
             else case unitMap u of
               None \<Rightarrow> None
             | Some unit \<Rightarrow>
                 if 2 ^ 63 div unit < v then None
                 else
                   let frac = (if 0 < f then
                         (case fmul (f64_of_int f) (fdiv (f64_of_int unit) scale) of Fin r \<Rightarrow> trunc r | _ \<Rightarrow> 0) else 0);
                       w = v * unit + frac
                   in if 2 ^ 63 < w then None else Some (w, rest))"

lemma leadingInt_length: "leadingInt x s = Some (y, t) \<Longrightarrow> length t \<le> length s"
  by (induction x s rule: leadingInt.induct) (auto simp: Let_def split: if_splits)

lemma leadingFraction_length: "leadingFraction x sc ov s = (y, sc', t) \<Longrightarrow> length t \<le> length s"
  by (induction x sc ov s rule: leadingFraction.induct) (auto simp: Let_def split: if_splits)

lemma parse_element_length:
  assumes "parse_element s = Some (w, rest)"
  shows "length rest < length s"
proof -
  obtain v s1 where v: "leadingInt 0 s = Some (v, s1)"
    using assms by (auto simp: parse_element_def split: if_splits option.splits)
  define dot where "dot = (s1 \<noteq> [] \<and> hd s1 = CHR ''.'')"
  obtain f sc s2 where f: "(if dot then leadingFraction 0 (Fin 1) False (tl s1) else (0, Fin 1, s1)) = (f, sc, s2)"
    by (metis prod_cases3)
  have "length s2 \<le> length s1"
    using f leadingFraction_length [of 0 "Fin 1" False "tl s1" f sc s2] by (auto split: if_splits)
  then have l: "length s2 \<le> length s" using leadingInt_length [OF v] by simp
  have u: "takeWhile (\<lambda>c. \<not> numeral_char c) s2 \<noteq> []" and r: "rest = dropWhile (\<lambda>c. \<not> numeral_char c) s2"
    using assms v f unfolding dot_def
    by (auto simp: parse_element_def Let_def split: if_splits option.splits prod.splits)
  have "length rest < length s2"
    using u r takeWhile_dropWhile_id [of "\<lambda>c. \<not> numeral_char c" s2]
    by (metis add_less_cancel_right length_append length_greater_0_conv less_add_same_cancel2)
  then show ?thesis using l by simp
qed

text \<open>The sum of the elements is a \<open>uint64\<close>, which wraps if two of them are exactly \<open>2 ^ 63\<close>.\<close>

function parse_elements :: "int \<Rightarrow> string \<Rightarrow> int option" where
  "parse_elements d s =
     (if s = [] then Some d
      else case parse_element s of
        None \<Rightarrow> None
      | Some (w, rest) \<Rightarrow>
          let e = (d + w) mod 2 ^ 64 in if 2 ^ 63 < e then None else parse_elements e rest)"
  by auto
termination by (relation "measure (\<lambda>(d, s). length s)") (auto dest: parse_element_length)

declare parse_elements.simps [simp del]

definition ParseDuration :: "string \<Rightarrow> duration option" where
  "ParseDuration s =
     (let neg = (s \<noteq> [] \<and> hd s = CHR ''-'');
          s1 = (if s \<noteq> [] \<and> (hd s = CHR ''-'' \<or> hd s = CHR ''+'') then tl s else s)
      in if s1 = ''0'' then Some 0
         else if s1 = [] then None
         else case parse_elements 0 s1 of
           None \<Rightarrow> None
         | Some d \<Rightarrow> if neg then Some (- d) else if int64_max < d then None else Some d)"

section \<open>Getters\<close>

definition GetDefault :: "environ \<Rightarrow> string \<Rightarrow> string \<Rightarrow> string" where
  "GetDefault env key fallback = (case env key of Some v \<Rightarrow> if v \<noteq> '''' then v else fallback | None \<Rightarrow> fallback)"

definition GetInt :: "environ \<Rightarrow> string \<Rightarrow> int \<Rightarrow> int" where
  "GetInt env key fallback = (case env key of
     Some v \<Rightarrow> (case ParseInt v of Some n \<Rightarrow> n | None \<Rightarrow> fallback) | None \<Rightarrow> fallback)"

definition GetBool :: "environ \<Rightarrow> string \<Rightarrow> bool \<Rightarrow> bool" where
  "GetBool env key fallback = (case env key of
     Some v \<Rightarrow> (case ParseBool v of Some n \<Rightarrow> n | None \<Rightarrow> fallback) | None \<Rightarrow> fallback)"

definition GetDuration :: "environ \<Rightarrow> string \<Rightarrow> duration \<Rightarrow> duration" where
  "GetDuration env key fallback = (case env key of
     Some v \<Rightarrow> (case ParseDuration v of Some n \<Rightarrow> n | None \<Rightarrow> fallback) | None \<Rightarrow> fallback)"

section \<open>Round trips\<close>

abbreviation shift_digit :: "int \<Rightarrow> char \<Rightarrow> int" where
  "shift_digit n c \<equiv> n * 10 + int (digit_val c)"

lemma int_parse_nat: "int (foldl (\<lambda>n c. n * 10 + digit_val c) k ds) = foldl shift_digit (int k) ds"
  by (induction ds arbitrary: k) auto

lemma foldl_shift_ge: "0 \<le> x \<Longrightarrow> x \<le> foldl shift_digit x ds"
proof (induction ds arbitrary: x)
  case (Cons c ds)
  have "x \<le> shift_digit x c" using Cons.prems by simp
  also have "\<dots> \<le> foldl shift_digit (shift_digit x c) ds" using Cons by simp
  finally show ?case by simp
qed simp

lemma leadingInt_digits:
  "list_all is_digit ds \<Longrightarrow> rest \<noteq> [] \<Longrightarrow> \<not> is_digit (hd rest) \<Longrightarrow> 0 \<le> x \<Longrightarrow> foldl shift_digit x ds \<le> 2 ^ 63 \<Longrightarrow>
   leadingInt x (ds @ rest) = Some (foldl shift_digit x ds, rest)"
proof (induction ds arbitrary: x)
  case Nil
  then show ?case by (cases rest) auto
next
  case (Cons c ds)
  have "shift_digit x c \<le> 2 ^ 63"
    using foldl_shift_ge [of "shift_digit x c" ds] Cons.prems by simp
  then show ?case using Cons by (auto simp: Let_def)
qed

lemma parse_element_ns:
  assumes "int n \<le> 2 ^ 63"
  shows "parse_element (format_nat n @ ''ns'') = Some (int n, [])"
proof -
  have d: "list_all is_digit (format_nat n)" by simp
  have v: "foldl shift_digit 0 (format_nat n) = int n"
    using int_parse_nat [of 0 "format_nat n"] parse_format_nat [of n] by (simp add: parse_nat_def)
  have l: "leadingInt 0 (format_nat n @ ''ns'') = Some (int n, ''ns'')"
    using leadingInt_digits [OF d, of "''ns''" 0] v assms by (simp add: is_digit_def)
  have "is_digit (hd (format_nat n))" by (rule hd_format_nat)
  then have h: "numeral_char (hd (format_nat n @ ''ns''))" by (simp add: numeral_char_def)
  have u: "\<not> numeral_char CHR ''n''" "\<not> numeral_char CHR ''s''"
    by (simp_all add: numeral_char_def is_digit_def)
  show ?thesis using assms h by (simp add: parse_element_def l u unitMap_def)
qed

lemma ParseDuration_ns:
  assumes "in_int64 n"
  shows "ParseDuration (Itoa n @ ''ns'') = Some n"
proof (cases "n < 0")
  case True
  then show ?thesis
    using assms parse_element_ns [of "nat (- n)"]
    by (simp add: ParseDuration_def Itoa_def parse_elements.simps int64_defs)
next
  case False
  have "hd (format_nat (nat n)) \<noteq> CHR ''-''" "hd (format_nat (nat n)) \<noteq> CHR ''+''"
    using hd_format_nat [of "nat n"] by (auto simp: is_digit_def)
  moreover have "format_nat (nat n) @ ''ns'' \<noteq> ''0''" by (cases "format_nat (nat n)") auto
  ultimately show ?thesis
    using False assms parse_element_ns [of "nat n"]
    by (simp add: ParseDuration_def Itoa_def parse_elements.simps int64_defs)
qed

text \<open>A result of the duration parser fits the type.\<close>

lemma parse_element_nonneg: "parse_element s = Some (w, rest) \<Longrightarrow> w \<le> 2 ^ 63"
  by (auto simp: parse_element_def Let_def split: if_splits option.splits prod.splits)

lemma parse_elements_le: "parse_elements d s = Some e \<Longrightarrow> d \<le> 2 ^ 63 \<Longrightarrow> e \<le> 2 ^ 63"
proof (induction d s rule: parse_elements.induct)
  case (1 d s)
  then show ?case by (subst (asm) (2) parse_elements.simps) (auto simp: Let_def split: if_splits option.splits)
qed

text \<open>What the getters accept, without reference to the parsers: literals of an integer and of a bool.\<close>

definition signs :: "string set" where "signs = {'''', ''+'', ''-''}"

definition int_literal :: "string \<Rightarrow> int \<Rightarrow> bool" where
  "int_literal v n \<longleftrightarrow> (\<exists>sign \<in> signs. \<exists>ds. v = sign @ ds \<and> ds \<noteq> [] \<and> list_all is_digit ds \<and> in_int64 n \<and>
     n = (if sign = ''-'' then - int (parse_nat ds) else int (parse_nat ds)))"

definition true_texts :: "string set" where "true_texts = {''1'', ''t'', ''T'', ''true'', ''TRUE'', ''True''}"
definition false_texts :: "string set" where "false_texts = {''0'', ''f'', ''F'', ''false'', ''FALSE'', ''False''}"

lemma ParseInt_literal: "ParseInt v = Some n \<longleftrightarrow> int_literal v n"
proof -
  have sg: "\<not> is_digit CHR ''-''" "\<not> is_digit CHR ''+''" by (simp_all add: is_digit_def)
  have r: "in_int64 (int k) \<Longrightarrow> int k \<le> uint64_max" "in_int64 (- int k) \<Longrightarrow> int k \<le> uint64_max" for k
    by (simp_all add: int64_defs uint64_max_def)
  show ?thesis
  proof (cases v)
    case Nil
    then show ?thesis by (auto simp: ParseInt_def ParseUint_def int_literal_def signs_def Let_def split: option.splits)
  next
    case (Cons c cs)
    consider "c = CHR ''-''" | "c = CHR ''+''" | "c \<noteq> CHR ''-''" "c \<noteq> CHR ''+''" by blast
    then show ?thesis
    proof cases
      case 1
      then show ?thesis using Cons sg r
        by (auto simp: ParseInt_def ParseUint_def int_literal_def signs_def Let_def split: option.splits)
    next
      case 2
      then show ?thesis using Cons sg r
        by (auto simp: ParseInt_def ParseUint_def int_literal_def signs_def Let_def split: option.splits)
    next
      case 3
      then show ?thesis using Cons r
        by (auto simp: ParseInt_def ParseUint_def int_literal_def signs_def Let_def split: option.splits)
    qed
  qed
qed

text \<open>A number without a unit, and text that does not begin with a number, are no durations.\<close>

lemma leadingInt_all_digits: "list_all is_digit ds \<Longrightarrow> leadingInt x ds = None \<or> (\<exists>y. leadingInt x ds = Some (y, []))"
  by (induction ds arbitrary: x) (auto simp: Let_def)

lemma unitless_element:
  assumes "list_all is_digit ds"
  shows "parse_element ds = None"
  using leadingInt_all_digits [OF assms, of 0] by (elim disjE exE) (simp_all add: parse_element_def Let_def)

lemma ParseDuration_malformed:
  assumes "sign \<in> signs" and "ds \<noteq> ''0''" and "ds = [] \<or> list_all is_digit ds \<or> \<not> numeral_char (hd ds)"
    and "sign = '''' \<longrightarrow> ds = [] \<or> hd ds \<noteq> CHR ''-'' \<and> hd ds \<noteq> CHR ''+''"
  shows "ParseDuration (sign @ ds) = None"
proof -
  have "ds = [] \<or> parse_element ds = None"
    using assms(3) unitless_element [of ds] by (elim disjE) (simp_all add: parse_element_def)
  then have "ds = [] \<or> parse_elements 0 ds = None" by (subst parse_elements.simps) auto
  then show ?thesis using assms(1,2,4) by (auto simp: ParseDuration_def signs_def Let_def)
qed

text \<open>
  C12. The getters round-trip and degrade. An integer, a bool or a duration in nanoseconds that was
  written to a variable is read back as it was, at every value of its type. A variable that is unset or
  empty gives the fallback in every getter. A variable that is set gives the integer it is a literal of
  and the fallback if it is none, or is out of range; the bool that its text is one of the six spellings
  of and the fallback for any other text; the duration it parses as and the fallback if it does not
  parse, in particular for a number without a unit and for text that does not begin with a number.
\<close>

theorem getters_roundtrip:
  "(in_int64 n \<and> env key = Some (Itoa n) \<longrightarrow> GetInt env key i = n) \<and>
   (in_int64 n \<and> env key = Some (Itoa n @ ''ns'') \<longrightarrow> GetDuration env key i = n) \<and>
   (env key = Some (if b then ''true'' else ''false'') \<longrightarrow> GetBool env key c = b) \<and>
   (v \<noteq> '''' \<and> env key = Some v \<longrightarrow> GetDefault env key w = v) \<and>
   (env key = None \<or> env key = Some '''' \<longrightarrow>
      GetInt env key i = i \<and> GetDuration env key i = i \<and> GetBool env key c = c \<and> GetDefault env key w = w) \<and>
   (env key = Some v \<longrightarrow>
      (int_literal v m \<longrightarrow> GetInt env key i = m) \<and>
      ((\<nexists>m. int_literal v m) \<longrightarrow> GetInt env key i = i) \<and>
      GetBool env key c = (if v \<in> true_texts then True else if v \<in> false_texts then False else c) \<and>
      GetDuration env key i = (case ParseDuration v of Some d \<Rightarrow> d | None \<Rightarrow> i)) \<and>
   (sign \<in> signs \<and> env key = Some (sign @ ds) \<and> ds \<noteq> [] \<and> ds \<noteq> ''0'' \<and> list_all is_digit ds \<longrightarrow> GetDuration env key i = i) \<and>
   (env key = Some (sign @ ds) \<and> sign \<in> signs \<and> ds \<noteq> [] \<and> \<not> numeral_char (hd ds) \<and> hd ds \<noteq> CHR ''+'' \<and> hd ds \<noteq> CHR ''-'' \<longrightarrow>
      GetDuration env key i = i)"
proof -
  have e: "ParseInt [] = None" "ParseDuration [] = None" "ParseBool [] = None"
    by (simp_all add: ParseInt_def ParseUint_def ParseDuration_def ParseBool_def)
  have b: "ParseBool x = (if x \<in> true_texts then Some True else if x \<in> false_texts then Some False else None)" for x
    by (simp add: ParseBool_def true_texts_def false_texts_def)
  have t: "ParseBool (if b then ''true'' else ''false'') = Some b" by (simp add: ParseBool_def)
  have lit: "(int_literal v m \<longrightarrow> ParseInt v = Some m) \<and> ((\<nexists>m. int_literal v m) \<longrightarrow> ParseInt v = None)"
    using ParseInt_literal [of v] by (metis not_None_eq)
  have d1: "ParseDuration (sign @ ds) = None" if "sign \<in> signs" "ds \<noteq> []" "ds \<noteq> ''0''" "list_all is_digit ds"
  proof -
    have "is_digit (hd ds)" using that by (cases ds) simp_all
    then have "hd ds \<noteq> CHR ''-''" "hd ds \<noteq> CHR ''+''" by (auto simp: is_digit_def)
    with that show ?thesis by (intro ParseDuration_malformed) simp_all
  qed
  have "ds \<noteq> ''0''" if "\<not> numeral_char (hd ds)" using that by (auto simp: numeral_char_def is_digit_def)
  then have d2: "ParseDuration (sign @ ds) = None"
    if "sign \<in> signs" "\<not> numeral_char (hd ds)" "hd ds \<noteq> CHR ''+''" "hd ds \<noteq> CHR ''-''"
    using that by (intro ParseDuration_malformed) auto
  have "in_int64 n \<and> env key = Some (Itoa n) \<longrightarrow> GetInt env key i = n"
    using ParseInt_Itoa [of n] by (simp add: GetInt_def)
  moreover have "in_int64 n \<and> env key = Some (Itoa n @ ''ns'') \<longrightarrow> GetDuration env key i = n"
    using ParseDuration_ns [of n] by (simp add: GetDuration_def)
  moreover have "env key = Some (if b then ''true'' else ''false'') \<longrightarrow> GetBool env key c = b"
    using t by (auto simp: GetBool_def)
  moreover have "v \<noteq> '''' \<and> env key = Some v \<longrightarrow> GetDefault env key w = v" by (simp add: GetDefault_def)
  moreover have "env key = None \<or> env key = Some '''' \<longrightarrow>
      GetInt env key i = i \<and> GetDuration env key i = i \<and> GetBool env key c = c \<and> GetDefault env key w = w"
    using e by (auto simp: GetInt_def GetDuration_def GetBool_def GetDefault_def)
  moreover have "env key = Some v \<longrightarrow>
      (int_literal v m \<longrightarrow> GetInt env key i = m) \<and> ((\<nexists>m. int_literal v m) \<longrightarrow> GetInt env key i = i) \<and>
      GetBool env key c = (if v \<in> true_texts then True else if v \<in> false_texts then False else c) \<and>
      GetDuration env key i = (case ParseDuration v of Some d \<Rightarrow> d | None \<Rightarrow> i)"
    using lit by (auto simp: GetInt_def GetDuration_def GetBool_def b)
  moreover have "sign \<in> signs \<and> env key = Some (sign @ ds) \<and> ds \<noteq> [] \<and> ds \<noteq> ''0'' \<and> list_all is_digit ds \<longrightarrow> GetDuration env key i = i"
    using d1 by (auto simp: GetDuration_def)
  moreover have "env key = Some (sign @ ds) \<and> sign \<in> signs \<and> ds \<noteq> [] \<and> \<not> numeral_char (hd ds) \<and> hd ds \<noteq> CHR ''+'' \<and> hd ds \<noteq> CHR ''-'' \<longrightarrow>
      GetDuration env key i = i"
    using d2 by (auto simp: GetDuration_def)
  ultimately show ?thesis by blast
qed

theorem getters_roundtrip_witness:
  "GetInt [''PORT'' \<mapsto> Itoa (- 8080)] ''PORT'' 1 = - 8080 \<and>
   GetDuration [''TTL'' \<mapsto> Itoa 1500 @ ''ns''] ''TTL'' 7 = 1500 \<and>
   GetBool [''DEBUG'' \<mapsto> ''true''] ''DEBUG'' False = True \<and>
   GetBool [''DEBUG'' \<mapsto> ''yes''] ''DEBUG'' True = True \<and>
   GetDuration [''TTL'' \<mapsto> ''30''] ''TTL'' 7 = 7 \<and>
   GetInt [''PORT'' \<mapsto> ''''] ''PORT'' 3 = 3"
proof -
  have "GetInt [''PORT'' \<mapsto> Itoa (- 8080)] ''PORT'' 1 = - 8080"
    using getters_roundtrip [of "- 8080" "[''PORT'' \<mapsto> Itoa (- 8080)]" "''PORT''" 1] by (simp add: int64_defs)
  moreover have "GetDuration [''TTL'' \<mapsto> Itoa 1500 @ ''ns''] ''TTL'' 7 = 1500"
    using getters_roundtrip [of 1500 "[''TTL'' \<mapsto> Itoa 1500 @ ''ns'']" "''TTL''" 7] by (simp add: int64_defs)
  moreover have "GetBool [''DEBUG'' \<mapsto> ''true''] ''DEBUG'' False = True"
    using getters_roundtrip [of 0 "[''DEBUG'' \<mapsto> ''true'']" "''DEBUG''" 0 True False] by simp
  moreover have "GetBool [''DEBUG'' \<mapsto> ''yes''] ''DEBUG'' True = True"
    using getters_roundtrip [of 0 "[''DEBUG'' \<mapsto> ''yes'']" "''DEBUG''" 0 True True "''yes''"]
    by (simp add: true_texts_def false_texts_def)
  moreover have "GetDuration [''TTL'' \<mapsto> ''30''] ''TTL'' 7 = 7"
    using getters_roundtrip [where env = "[''TTL'' \<mapsto> ''30'']" and key = "''TTL''" and i = 7 and sign = "''''" and ds = "''30''"]
    by (simp add: signs_def is_digit_def)
  moreover have "GetInt [''PORT'' \<mapsto> ''''] ''PORT'' 3 = 3"
    using getters_roundtrip [of 0 "[''PORT'' \<mapsto> '''']" "''PORT''" 3] by simp
  ultimately show ?thesis by blast
qed

end
