(* ===== verification/Db.thy ===== *)
theory Db
  imports GoPrelude
begin

text \<open>
  Package \<open>db\<close>: a function inside an SQL transaction. The transaction handle of \<open>database/sql\<close> is
  modelled by whether it is done, the error of its context, and by what the driver was asked to do:
  \<open>Commit\<close> and \<open>Rollback\<close> reach the driver once, afterwards they return \<open>ErrTxDone\<close>. \<open>Commit\<close> looks at the
  context first: when it has ended the commit is refused, and the goroutine that \<open>BeginTx\<close> starts to watch
  the context rolls back, sooner or later. The context may end and the transaction may be finalized while
  the function runs; the function ends in one of four ways: with nil, with an error, with a panic, or by
  \<open>runtime.Goexit\<close>.
\<close>

section \<open>Transactions\<close>

datatype finalization = Committed | RolledBack

record tx =
  tx_done :: bool
  tx_ctx :: "ctx_err option"
  finalizations :: "finalization list"

datatype db_err =
    ErrTxDone
  | CtxEnded ctx_err
  | DriverErr string
  | FnErr string
  | BeginFailed db_err
  | CommitFailed db_err
  | RollbackFailed db_err
  | Joined db_err db_err

text \<open>What the driver answers to the three requests.\<close>

record driver =
  begin_result :: "db_err option"
  commit_result :: "db_err option"
  rollback_result :: "db_err option"

definition BeginTx :: "driver \<Rightarrow> db_err + tx" where
  "BeginTx d = (case begin_result d of Some e \<Rightarrow> Inl e | None \<Rightarrow> Inr \<lparr>tx_done = False, tx_ctx = None, finalizations = []\<rparr>)"

definition Commit :: "driver \<Rightarrow> tx \<Rightarrow> tx \<times> db_err option" where
  "Commit d t = (case tx_ctx t of
     Some c \<Rightarrow> (t, Some (if tx_done t then ErrTxDone else CtxEnded c))
   | None \<Rightarrow> if tx_done t then (t, Some ErrTxDone)
       else (t\<lparr>tx_done := True, finalizations := finalizations t @ [Committed]\<rparr>, commit_result d))"

definition Rollback :: "driver \<Rightarrow> tx \<Rightarrow> tx \<times> db_err option" where
  "Rollback d t = (if tx_done t then (t, Some ErrTxDone)
     else (t\<lparr>tx_done := True, finalizations := finalizations t @ [RolledBack]\<rparr>, rollback_result d))"

text \<open>The goroutine that watches the context of the transaction, when it gets to act.\<close>

definition awaitDone :: "driver \<Rightarrow> tx \<Rightarrow> tx" where
  "awaitDone d t = (if tx_ctx t \<noteq> None then fst (Rollback d t) else t)"

text \<open>\<open>errors.Is(e, sql.ErrTxDone)\<close>.\<close>

fun is_ErrTxDone :: "db_err \<Rightarrow> bool" where
  "is_ErrTxDone ErrTxDone \<longleftrightarrow> True"
| "is_ErrTxDone (CtxEnded c) \<longleftrightarrow> False"
| "is_ErrTxDone (DriverErr s) \<longleftrightarrow> False"
| "is_ErrTxDone (FnErr s) \<longleftrightarrow> False"
| "is_ErrTxDone (BeginFailed e) \<longleftrightarrow> is_ErrTxDone e"
| "is_ErrTxDone (CommitFailed e) \<longleftrightarrow> is_ErrTxDone e"
| "is_ErrTxDone (RollbackFailed e) \<longleftrightarrow> is_ErrTxDone e"
| "is_ErrTxDone (Joined e f) \<longleftrightarrow> is_ErrTxDone e \<or> is_ErrTxDone f"

section \<open>Transaction\<close>

datatype fn_end = FnNil | FnError db_err | FnPanics string | FnGoexit

type_synonym tx_fn = "tx \<Rightarrow> tx \<times> fn_end"

text \<open>How the call ends: it returns an error or nil, panics, or unwinds the goroutine.\<close>

datatype ending = Returns "db_err option" | Panics string | Goexits

text \<open>
  \<open>Transaction\<close> with the deferred recovery, which acts on a panic only: \<open>recover\<close> is nil while
  \<open>Goexit\<close> unwinds. The result carries the transaction if one was begun.
\<close>

definition Transaction :: "driver option \<Rightarrow> tx_fn option \<Rightarrow> tx option \<times> ending" where
  "Transaction db fn = (case db of
     None \<Rightarrow> (None, Panics ''db: nil database'')
   | Some d \<Rightarrow> (case fn of
       None \<Rightarrow> (None, Panics ''db: nil function'')
     | Some f \<Rightarrow> (case BeginTx d of
         Inl e \<Rightarrow> (None, Returns (Some (BeginFailed e)))
       | Inr t0 \<Rightarrow> (case f t0 of
           (t, FnPanics p) \<Rightarrow> (Some (fst (Rollback d t)), Panics p)
         | (t, FnGoexit) \<Rightarrow> (Some t, Goexits)
         | (t, FnError e) \<Rightarrow>
             (case Rollback d t of
                (t', None) \<Rightarrow> (Some t', Returns (Some e))
              | (t', Some rb) \<Rightarrow>
                  if is_ErrTxDone rb then (Some t', Returns (Some e))
                  else (Some t', Returns (Some (Joined e (RollbackFailed rb)))))
         | (t, FnNil) \<Rightarrow>
             (case Commit d t of
                (t', None) \<Rightarrow> (Some t', Returns None)
              | (t', Some e) \<Rightarrow> (Some t', Returns (Some (CommitFailed e))))))))"

section \<open>Properties\<close>

text \<open>What a function may do to its transaction: it finalizes an open one at most once and leaves a done one alone.\<close>

definition tx_ok :: "tx \<Rightarrow> bool" where
  "tx_ok t \<longleftrightarrow> length (finalizations t) = (if tx_done t then 1 else 0)"

definition demo_driver :: driver where
  "demo_driver = \<lparr>begin_result = None, commit_result = None, rollback_result = Some (DriverErr ''conn lost'')\<rparr>"

text \<open>
  C25. No transaction is left open. On every path on which the function ends by returning or panicking,
  the transaction is finalized by exactly one request to the driver: at once unless its context has
  ended, and then at the latest when the goroutine that watches the context has acted. If the function
  left it open, that request is a commit exactly if the function returned nil and the context has not
  ended. The call returns exactly: after nil, nil if the commit succeeded, and otherwise the commit's
  error under "commit", be it the driver's, that of the context or \<open>ErrTxDone\<close>; after an error, that
  error, joined with the rollback's error if the driver failed to roll back an open transaction; a panic
  passes unchanged. Only \<open>runtime.Goexit\<close> leaves the transaction as the function left it. If no
  transaction can be begun, the function does not run and the call returns that error.
\<close>

theorem Transaction_finalizes_once:
  assumes "begin_result d = None" and "f \<lparr>tx_done = False, tx_ctx = None, finalizations = []\<rparr> = (t, r)" and "tx_ok t"
  shows "\<exists>t' e. Transaction (Some d) (Some f) = (Some t', e) \<and>
    (r \<noteq> FnGoexit \<longrightarrow> tx_done (awaitDone d t') \<and> length (finalizations (awaitDone d t')) = 1) \<and>
    (r \<noteq> FnGoexit \<and> tx_ctx t = None \<longrightarrow> awaitDone d t' = t') \<and>
    (r \<noteq> FnGoexit \<and> \<not> tx_done t \<longrightarrow>
       finalizations (awaitDone d t') = [if r = FnNil \<and> tx_ctx t = None then Committed else RolledBack]) \<and>
    (r = FnNil \<longrightarrow> e = Returns (map_option CommitFailed
       (if tx_done t then Some ErrTxDone else case tx_ctx t of Some c \<Rightarrow> Some (CtxEnded c) | None \<Rightarrow> commit_result d))) \<and>
    (\<forall>err. r = FnError err \<longrightarrow> e = Returns (Some
       (case rollback_result d of
          Some rb \<Rightarrow> if tx_done t \<or> is_ErrTxDone rb then err else Joined err (RollbackFailed rb)
        | None \<Rightarrow> err))) \<and>
    (\<forall>p. r = FnPanics p \<longrightarrow> e = Panics p) \<and>
    (r = FnGoexit \<longrightarrow> t' = t \<and> e = Goexits) \<and>
    (\<forall>d' e'. begin_result d' = Some e' \<longrightarrow> Transaction (Some d') (Some f) = (None, Returns (Some (BeginFailed e'))))"
proof -
  have b: "BeginTx d = Inr \<lparr>tx_done = False, tx_ctx = None, finalizations = []\<rparr>" using assms(1) by (simp add: BeginTx_def)
  have f: "finalizations t = [] \<and> \<not> tx_done t \<or> length (finalizations t) = 1 \<and> tx_done t"
    using assms(3) by (auto simp: tx_ok_def split: if_splits)
  have n: "\<forall>d' e'. begin_result d' = Some e' \<longrightarrow> Transaction (Some d') (Some f) = (None, Returns (Some (BeginFailed e')))"
    by (simp add: Transaction_def BeginTx_def)
  show ?thesis
  proof (cases r)
    case FnNil
    then show ?thesis
      using b f n assms(2)
      by (cases "tx_ctx t"; cases "commit_result d") (auto simp: Transaction_def Commit_def Rollback_def awaitDone_def)
  next
    case (FnError e)
    then show ?thesis
      using b f n assms(2)
      by (cases "rollback_result d"; cases "tx_ctx t") (auto simp: Transaction_def Rollback_def awaitDone_def)
  next
    case (FnPanics p)
    then show ?thesis using b f n assms(2) by (auto simp: Transaction_def Rollback_def awaitDone_def)
  next
    case FnGoexit
    then show ?thesis using b f n assms(2) by (auto simp: Transaction_def)
  qed
qed

theorem Transaction_finalizes_once_witness:
  "\<exists>t' e. Transaction (Some demo_driver) (Some (\<lambda>t. (t, FnError (FnErr ''boom'')))) = (Some t', e) \<and>
    finalizations (awaitDone demo_driver t') = [RolledBack] \<and>
    e = Returns (Some (Joined (FnErr ''boom'') (RollbackFailed (DriverErr ''conn lost''))))"
proof -
  let ?f = "\<lambda>t. (t, FnError (FnErr ''boom''))"
  have d: "begin_result demo_driver = None" "rollback_result demo_driver = Some (DriverErr ''conn lost'')"
    by (simp_all add: demo_driver_def)
  from Transaction_finalizes_once [OF d(1), of ?f, OF refl] d(2) show ?thesis by (auto simp: tx_ok_def)
qed

text \<open>A function that ends its goroutine leaks its transaction.\<close>

lemma Goexit_leaks: "begin_result d = None \<Longrightarrow>
    Transaction (Some d) (Some (\<lambda>t. (t, FnGoexit))) = (Some \<lparr>tx_done = False, tx_ctx = None, finalizations = []\<rparr>, Goexits)"
  by (simp add: Transaction_def BeginTx_def)

end
