(* ===== verification/Fan.thy ===== *)
theory Fan
  imports GoChan "HOL-Library.Sublist"
begin

text \<open>
  Packages \<open>fanin\<close> and \<open>fanout\<close>: goroutines that forward values between channels. Both packages run the
  same forwarder, a loop of two selects, and differ in how the channels are wired and in who closes an
  output. An input channel holds the values its producers sent, those of blocked senders included;
  producers and consumers are the environment. An output records what arrived on it and from which
  forwarder. Several forwarders may read the same input.
\<close>

section \<open>State\<close>

text \<open>
  Where a forwarder stands: at the outer select, at the inner select with a value in hand, returned with
  its deferred call pending, ended.
\<close>

datatype 'a fpc = FSelect | FHold 'a | FExit | FDone

record 'a outch =
  arrived :: "(nat \<times> 'a) list"
  oclosed :: bool

text \<open>
  \<open>produced\<close>, \<open>taken\<close> and \<open>dropped\<close> record what producers sent, what the forwarders received and what
  they abandoned on cancellation; \<open>misused\<close> is a send on or close of a closed output.
\<close>

record 'a fan =
  ins :: "'a chan list"
  src :: "nat list"
  fwd :: "'a fpc list"
  dst :: "nat list"
  outs :: "'a outch list"
  ctx_done :: bool
  produced :: "'a list list"
  taken :: "(nat \<times> 'a) list"
  dropped :: "(nat \<times> 'a) list"
  misused :: bool

definition start_fan :: "'a chan list \<Rightarrow> nat list \<Rightarrow> nat list \<Rightarrow> 'a outch list \<Rightarrow> 'a fan" where
  "start_fan store from to os =
     \<lparr>ins = store, src = from, fwd = replicate (length from) FSelect, dst = to, outs = os,
      ctx_done = False, produced = map buf store, taken = [], dropped = [], misused = False\<rparr>"

text \<open>\<open>Merge\<close>: \<open>args\<close> are the input channels, nil is \<open>None\<close>; the output is fresh and unbuffered.\<close>

definition Merge :: "'a chan list \<Rightarrow> nat option list \<Rightarrow> 'a fan go" where
  "Merge store args =
     (if args = [] then Return (start_fan store [] [] [\<lparr>arrived = [], oclosed = True\<rparr>])
      else if None \<in> set args then Panic ''fanin: nil input channel''
      else Return (start_fan store (map the args) (replicate (length args) 0) [\<lparr>arrived = [], oclosed = False\<rparr>]))"

text \<open>\<open>Split\<close>: the outputs are channels of the caller, here still open and empty.\<close>

definition Split :: "'a chan list \<Rightarrow> nat option \<Rightarrow> nat option list \<Rightarrow> nat \<Rightarrow> 'a fan go" where
  "Split store inp args n =
     (case inp of
        None \<Rightarrow> Panic ''fanout: nil input channel''
      | Some c \<Rightarrow>
          if None \<in> set args then Panic ''fanout: nil output channel''
          else Return (start_fan store (replicate (length args) c) (map the args)
                 (replicate n \<lparr>arrived = [], oclosed = False\<rparr>)))"

section \<open>Steps\<close>

definition put_out :: "nat \<Rightarrow> 'a \<Rightarrow> 'a fan \<Rightarrow> 'a fan" where
  "put_out i v s =
     (let k = dst s ! i; q = outs s ! k
      in if oclosed q then s\<lparr>misused := True\<rparr> else s\<lparr>outs := (outs s)[k := q\<lparr>arrived := arrived q @ [(i, v)]\<rparr>]\<rparr>)"

definition close_out :: "nat \<Rightarrow> 'a fan \<Rightarrow> 'a fan" where
  "close_out k s =
     (let q = outs s ! k in if oclosed q then s\<lparr>misused := True\<rparr> else s\<lparr>outs := (outs s)[k := q\<lparr>oclosed := True\<rparr>]\<rparr>)"

text \<open>The environment: producers, and whoever cancels the context.\<close>

inductive env_step :: "'a fan \<Rightarrow> 'a fan \<Rightarrow> bool" where
  produce: "c < length (ins s) \<Longrightarrow> \<not> chan_closed (ins s ! c) \<Longrightarrow>
    env_step s (s\<lparr>ins := (ins s)[c := (ins s ! c)\<lparr>buf := buf (ins s ! c) @ [v]\<rparr>],
                  produced := (produced s)[c := produced s ! c @ [v]]\<rparr>)"
| close_in: "c < length (ins s) \<Longrightarrow> chan_close (ins s ! c) = Return ch \<Longrightarrow> env_step s (s\<lparr>ins := (ins s)[c := ch]\<rparr>)"
| cancel: "env_step s (s\<lparr>ctx_done := True\<rparr>)"

text \<open>The forwarder loop.\<close>

inductive forward_step :: "'a fan \<Rightarrow> 'a fan \<Rightarrow> bool" where
  recv: "i < length (fwd s) \<Longrightarrow> fwd s ! i = FSelect \<Longrightarrow> chan_recv (ins s ! (src s ! i)) = Some (Some v, ch) \<Longrightarrow>
    forward_step s (s\<lparr>ins := (ins s)[src s ! i := ch], fwd := (fwd s)[i := FHold v], taken := taken s @ [(i, v)]\<rparr>)"
| recv_closed: "i < length (fwd s) \<Longrightarrow> fwd s ! i = FSelect \<Longrightarrow> chan_recv (ins s ! (src s ! i)) = Some (None, ch) \<Longrightarrow>
    forward_step s (s\<lparr>fwd := (fwd s)[i := FExit]\<rparr>)"
| recv_canceled: "i < length (fwd s) \<Longrightarrow> fwd s ! i = FSelect \<Longrightarrow> ctx_done s \<Longrightarrow> forward_step s (s\<lparr>fwd := (fwd s)[i := FExit]\<rparr>)"
| send: "i < length (fwd s) \<Longrightarrow> fwd s ! i = FHold v \<Longrightarrow>
    forward_step s (put_out i v (s\<lparr>fwd := (fwd s)[i := FSelect]\<rparr>))"
| send_canceled: "i < length (fwd s) \<Longrightarrow> fwd s ! i = FHold v \<Longrightarrow> ctx_done s \<Longrightarrow>
    forward_step s (s\<lparr>fwd := (fwd s)[i := FExit], dropped := dropped s @ [(i, v)]\<rparr>)"

inductive fan_step :: "'a fan \<Rightarrow> 'a fan \<Rightarrow> bool" where
  environment: "env_step s t \<Longrightarrow> fan_step s t"
| forwarder: "forward_step s t \<Longrightarrow> fan_step s t"

lemma fan_step_induct [consumes 1, case_names produce close_in cancel recv recv_closed recv_canceled send send_canceled]:
  assumes "fan_step x y"
    and "\<And>c s v. c < length (ins s) \<Longrightarrow> \<not> chan_closed (ins s ! c) \<Longrightarrow>
      P s (s\<lparr>ins := (ins s)[c := (ins s ! c)\<lparr>buf := buf (ins s ! c) @ [v]\<rparr>], produced := (produced s)[c := produced s ! c @ [v]]\<rparr>)"
    and "\<And>c s ch. c < length (ins s) \<Longrightarrow> chan_close (ins s ! c) = Return ch \<Longrightarrow> P s (s\<lparr>ins := (ins s)[c := ch]\<rparr>)"
    and "\<And>s. P s (s\<lparr>ctx_done := True\<rparr>)"
    and "\<And>i s v ch. i < length (fwd s) \<Longrightarrow> fwd s ! i = FSelect \<Longrightarrow> chan_recv (ins s ! (src s ! i)) = Some (Some v, ch) \<Longrightarrow>
      P s (s\<lparr>ins := (ins s)[src s ! i := ch], fwd := (fwd s)[i := FHold v], taken := taken s @ [(i, v)]\<rparr>)"
    and "\<And>i s ch. i < length (fwd s) \<Longrightarrow> fwd s ! i = FSelect \<Longrightarrow> chan_recv (ins s ! (src s ! i)) = Some (None, ch) \<Longrightarrow>
      P s (s\<lparr>fwd := (fwd s)[i := FExit]\<rparr>)"
    and "\<And>i s. i < length (fwd s) \<Longrightarrow> fwd s ! i = FSelect \<Longrightarrow> ctx_done s \<Longrightarrow> P s (s\<lparr>fwd := (fwd s)[i := FExit]\<rparr>)"
    and "\<And>i s v. i < length (fwd s) \<Longrightarrow> fwd s ! i = FHold v \<Longrightarrow> P s (put_out i v (s\<lparr>fwd := (fwd s)[i := FSelect]\<rparr>))"
    and "\<And>i s v. i < length (fwd s) \<Longrightarrow> fwd s ! i = FHold v \<Longrightarrow> ctx_done s \<Longrightarrow>
      P s (s\<lparr>fwd := (fwd s)[i := FExit], dropped := dropped s @ [(i, v)]\<rparr>)"
  shows "P x y"
  using assms(1)
proof cases
  case environment
  then show ?thesis by (induction rule: env_step.induct) (blast intro: assms(2-4))+
next
  case forwarder
  then show ?thesis by (induction rule: forward_step.induct) (blast intro: assms(5-9))+
qed

text \<open>
  Fan-in: a forwarder that returned signals the wait group; the closing goroutine closes the output
  when all have, and ends.
\<close>

inductive merge_step :: "'a fan \<Rightarrow> 'a fan \<Rightarrow> bool" where
  common: "fan_step s t \<Longrightarrow> merge_step s t"
| wg_Done: "i < length (fwd s) \<Longrightarrow> fwd s ! i = FExit \<Longrightarrow> merge_step s (s\<lparr>fwd := (fwd s)[i := FDone]\<rparr>)"
| closer: "list_all (\<lambda>p. p = FDone) (fwd s) \<Longrightarrow> fwd s \<noteq> [] \<Longrightarrow> \<not> oclosed (outs s ! 0) \<Longrightarrow> merge_step s (close_out 0 s)"

text \<open>Fan-out: a forwarder that returned closes its own output.\<close>

inductive split_step :: "'a fan \<Rightarrow> 'a fan \<Rightarrow> bool" where
  common: "fan_step s t \<Longrightarrow> split_step s t"
| close_own: "i < length (fwd s) \<Longrightarrow> fwd s ! i = FExit \<Longrightarrow>
    split_step s (close_out (dst s ! i) (s\<lparr>fwd := (fwd s)[i := FDone]\<rparr>))"

inductive_cases merge_stepE: "merge_step s t"
inductive_cases split_stepE: "split_step s t"

section \<open>What the forwarders did with the values\<close>

text \<open>The values of a log that belong to one forwarder.\<close>

definition by_fwd :: "nat \<Rightarrow> (nat \<times> 'a) list \<Rightarrow> 'a list" where
  "by_fwd i log = map snd (filter (\<lambda>e. fst e = i) log)"

lemma by_fwd_append [simp]: "by_fwd i (xs @ ys) = by_fwd i xs @ by_fwd i ys"
  by (simp add: by_fwd_def)

lemma by_fwd_simps [simp]: "by_fwd i [] = []" "by_fwd i [(j, v)] = (if j = i then [v] else [])"
  by (simp_all add: by_fwd_def)

definition from_chan :: "nat list \<Rightarrow> nat \<Rightarrow> (nat \<times> 'a) list \<Rightarrow> 'a list" where
  "from_chan from c log = map snd (filter (\<lambda>e. from ! fst e = c) log)"

lemma from_chan_append [simp]: "from_chan from c (xs @ ys) = from_chan from c xs @ from_chan from c ys"
  by (simp add: from_chan_def)

lemma from_chan_simps [simp]: "from_chan from c [] = []" "from_chan from c [(j, v)] = (if from ! j = c then [v] else [])"
  by (simp_all add: from_chan_def)

definition held :: "'a fpc \<Rightarrow> 'a list" where
  "held p = (case p of FHold v \<Rightarrow> [v] | _ \<Rightarrow> [])"

lemma held_simps [simp]: "held FSelect = []" "held (FHold v) = [v]" "held FExit = []" "held FDone = []"
  by (simp_all add: held_def)

text \<open>Everything that arrived from a forwarder, on its own output.\<close>

definition arrived_from :: "'a fan \<Rightarrow> nat \<Rightarrow> 'a list" where
  "arrived_from s i = by_fwd i (arrived (outs s ! (dst s ! i)))"

text \<open>
  The shape of the wiring, that every value a channel was sent is taken in order or still inside, that
  every value a forwarder took arrived in order, is in hand, or was dropped by a canceled forwarder as it
  returned, and that a forwarder returns without cancellation only at the end of its input.
\<close>

definition wired :: "'a fan \<Rightarrow> bool" where
  "wired s \<longleftrightarrow> length (src s) = length (fwd s) \<and> length (dst s) = length (fwd s) \<and>
     length (produced s) = length (ins s) \<and>
     (\<forall>i < length (fwd s). src s ! i < length (ins s) \<and> dst s ! i < length (outs s))"

definition chan_accounted :: "'a fan \<Rightarrow> bool" where
  "chan_accounted s \<longleftrightarrow> (\<forall>c < length (ins s). produced s ! c = from_chan (src s) c (taken s) @ buf (ins s ! c))"

definition fwd_accounted :: "'a fan \<Rightarrow> bool" where
  "fwd_accounted s \<longleftrightarrow> (\<forall>i < length (fwd s).
     by_fwd i (taken s) = arrived_from s i @ held (fwd s ! i) @ by_fwd i (dropped s) \<and>
     (by_fwd i (dropped s) \<noteq> [] \<longrightarrow> fwd s ! i \<in> {FExit, FDone}))"

definition exits_justified :: "'a fan \<Rightarrow> bool" where
  "exits_justified s \<longleftrightarrow> (ctx_done s \<or> dropped s = []) \<and>
     (\<forall>i < length (fwd s). fwd s ! i \<in> {FExit, FDone} \<longrightarrow>
        ctx_done s \<or> (chan_closed (ins s ! (src s ! i)) \<and> buf (ins s ! (src s ! i)) = []))"

definition logs_indexed :: "'a fan \<Rightarrow> bool" where
  "logs_indexed s \<longleftrightarrow> (\<forall>e \<in> set (taken s). fst e < length (fwd s)) \<and>
     (\<forall>k < length (outs s). \<forall>e \<in> set (arrived (outs s ! k)). fst e < length (fwd s) \<and> dst s ! fst e = k)"

definition fan_inv :: "'a fan \<Rightarrow> bool" where
  "fan_inv s \<longleftrightarrow> wired s \<and> chan_accounted s \<and> fwd_accounted s \<and> exits_justified s \<and> logs_indexed s"

lemmas fan_inv_defs = fan_inv_def wired_def chan_accounted_def fwd_accounted_def exits_justified_def logs_indexed_def

text \<open>The output a value is put on must be open; each wiring shows that it is.\<close>

definition holders_open :: "'a fan \<Rightarrow> bool" where
  "holders_open s \<longleftrightarrow> (\<forall>i < length (fwd s). fwd s ! i \<noteq> FDone \<longrightarrow> \<not> oclosed (outs s ! (dst s ! i)))"

section \<open>The invariant\<close>

lemma wired_step: "fan_step s t \<Longrightarrow> wired s \<Longrightarrow> wired t"
  by (induction rule: fan_step_induct) (auto simp: wired_def put_out_def Let_def nth_list_update)

lemma chan_accounted_step: "fan_step s t \<Longrightarrow> wired s \<Longrightarrow> chan_accounted s \<Longrightarrow> chan_accounted t"
proof (induction rule: fan_step_induct)
  case (produce c s v)
  then show ?case by (auto simp: chan_accounted_def wired_def nth_list_update)
next
  case (close_in c s ch)
  then show ?case by (auto simp: chan_accounted_def wired_def nth_list_update chan_simps)
next
  case (recv i s v ch)
  have "buf (ins s ! (src s ! i)) = v # buf ch" using go_chan.recv_contents [OF recv(3)] by simp
  then show ?case using recv by (auto simp: chan_accounted_def wired_def nth_list_update)
qed (auto simp: chan_accounted_def put_out_def Let_def)

lemma exits_justified_step: "fan_step s t \<Longrightarrow> wired s \<Longrightarrow> exits_justified s \<Longrightarrow> exits_justified t"
proof (induction rule: fan_step_induct)
  case (recv i s v ch)
  then show ?case by (fastforce simp: exits_justified_def wired_def nth_list_update chan_simps)
qed (auto simp: exits_justified_def wired_def nth_list_update chan_simps put_out_def Let_def)

lemma logs_indexed_step: "fan_step s t \<Longrightarrow> wired s \<Longrightarrow> logs_indexed s \<Longrightarrow> logs_indexed t"
  by (induction rule: fan_step_induct) (auto simp: logs_indexed_def wired_def put_out_def Let_def nth_list_update)

lemma arrived_from_put:
  assumes "wired s" and "i < length (fwd s)" and "j < length (fwd s)" and "\<not> oclosed (outs s ! (dst s ! i))"
  shows "arrived_from (put_out i v (s\<lparr>fwd := f\<rparr>)) j = arrived_from s j @ (if i = j then [v] else [])"
  using assms by (auto simp: arrived_from_def put_out_def Let_def wired_def nth_list_update)

lemma fwd_accounted_step:
  "fan_step s t \<Longrightarrow> wired s \<Longrightarrow> holders_open s \<Longrightarrow> fwd_accounted s \<Longrightarrow> fwd_accounted t"
proof (induction rule: fan_step_induct)
  case (send i s v)
  have opn: "\<not> oclosed (outs s ! (dst s ! i))" using send by (auto simp: holders_open_def)
  let ?t = "put_out i v (s\<lparr>fwd := (fwd s)[i := FSelect]\<rparr>)"
  have f: "fwd ?t = (fwd s)[i := FSelect]" "taken ?t = taken s" "dropped ?t = dropped s"
    by (simp_all add: put_out_def Let_def)
  have d: "by_fwd i (dropped s) = []" using send by (force simp: fwd_accounted_def)
  show ?case
    unfolding fwd_accounted_def f
  proof (intro allI impI)
    fix j assume j: "j < length ((fwd s)[i := FSelect])"
    show "by_fwd j (taken s) = arrived_from ?t j @ held ((fwd s)[i := FSelect] ! j) @ by_fwd j (dropped s) \<and>
        (by_fwd j (dropped s) \<noteq> [] \<longrightarrow> (fwd s)[i := FSelect] ! j \<in> {FExit, FDone})"
      using send j d arrived_from_put [OF send(3,1) _ opn, of j v] by (auto simp: fwd_accounted_def nth_list_update)
  qed
qed (auto simp: fwd_accounted_def arrived_from_def nth_list_update)

lemma fan_inv_step: "fan_step s t \<Longrightarrow> holders_open s \<Longrightarrow> fan_inv s \<Longrightarrow> fan_inv t"
  using wired_step chan_accounted_step fwd_accounted_step exits_justified_step logs_indexed_step
  unfolding fan_inv_def by blast

text \<open>A forwarder that signals its end changes no account; nor does closing an output.\<close>

lemma fan_inv_done: "fan_inv s \<Longrightarrow> i < length (fwd s) \<Longrightarrow> fwd s ! i = FExit \<Longrightarrow> fan_inv (s\<lparr>fwd := (fwd s)[i := FDone]\<rparr>)"
  by (auto simp: fan_inv_defs arrived_from_def nth_list_update)

lemma arrived_close_out: "k < length (outs s) \<Longrightarrow> arrived (outs (close_out k s) ! j) = arrived (outs s ! j)"
  by (auto simp: close_out_def Let_def nth_list_update)

lemma close_out_simps [simp]:
  "ins (close_out k s) = ins s" "src (close_out k s) = src s" "fwd (close_out k s) = fwd s" "dst (close_out k s) = dst s"
  "ctx_done (close_out k s) = ctx_done s" "produced (close_out k s) = produced s" "taken (close_out k s) = taken s"
  "dropped (close_out k s) = dropped s" "length (outs (close_out k s)) = length (outs s)"
  by (simp_all add: close_out_def Let_def)

lemma fan_inv_close: "fan_inv s \<Longrightarrow> k < length (outs s) \<Longrightarrow> fan_inv (close_out k s)"
  by (simp add: fan_inv_defs arrived_from_def arrived_close_out)

lemma by_fwd_self: "\<forall>e \<in> set log. fst e < n \<Longrightarrow> n \<le> i \<Longrightarrow> by_fwd i log = []"
  by (auto simp: by_fwd_def filter_empty_conv)

subsection \<open>Fan-in\<close>

definition merge_inv :: "'a fan \<Rightarrow> bool" where
  "merge_inv s \<longleftrightarrow> fan_inv s \<and> \<not> misused s \<and> length (outs s) = 1 \<and> (oclosed (outs s ! 0) \<longrightarrow> list_all (\<lambda>p. p = FDone) (fwd s)) \<and>
     (fwd s = [] \<longrightarrow> oclosed (outs s ! 0))"

lemma merge_holders_open: "merge_inv s \<Longrightarrow> holders_open s"
  by (auto simp: merge_inv_def holders_open_def fan_inv_def wired_def list_all_length)

lemma fan_step_keeps:
  "fan_step s t \<Longrightarrow> wired s \<Longrightarrow> holders_open s \<Longrightarrow>
     length (outs t) = length (outs s) \<and> dst t = dst s \<and> length (fwd t) = length (fwd s) \<and> misused t = misused s \<and> src t = src s \<and>
     (\<forall>k. oclosed (outs t ! k) = oclosed (outs s ! k)) \<and> (\<forall>i < length (fwd s). fwd s ! i = FDone \<longleftrightarrow> fwd t ! i = FDone)"
  by (induction rule: fan_step_induct) (auto simp: put_out_def Let_def holders_open_def wired_def nth_list_update)

lemma merge_inv_step: "merge_step s t \<Longrightarrow> merge_inv s \<Longrightarrow> merge_inv t"
proof (induction rule: merge_step.induct)
  case (common s t)
  have "holders_open s" "fan_inv s" using common merge_holders_open by (auto simp: merge_inv_def)
  then have "fan_inv t" using common(1) fan_inv_step by blast
  then show ?case
    using common \<open>holders_open s\<close> fan_step_keeps [OF common(1)]
    by (auto simp: merge_inv_def fan_inv_def list_all_length)
next
  case (wg_Done i s)
  then have "\<not> oclosed (outs s ! 0)" by (auto simp: merge_inv_def list_all_length)
  then show ?case using wg_Done fan_inv_done [of s i] by (simp add: merge_inv_def)
next
  case (closer s)
  then show ?case using fan_inv_close [of s 0] by (auto simp: merge_inv_def close_out_def Let_def)
qed

definition merge_start :: "'a fan \<Rightarrow> bool" where
  "merge_start s \<longleftrightarrow> (\<exists>store args. list_all (\<lambda>a. case a of Some c \<Rightarrow> c < length store | None \<Rightarrow> True) args \<and> Merge store args = Return s)"

lemma fan_inv_start:
  "\<forall>c \<in> set from. c < length store \<Longrightarrow> \<forall>k \<in> set to. k < length os \<Longrightarrow> length to = length from \<Longrightarrow>
   \<forall>k < length os. arrived (os ! k) = [] \<Longrightarrow> fan_inv (start_fan store from to os)"
  by (auto simp: fan_inv_defs start_fan_def arrived_from_def)

lemma merge_inv_start: "merge_start s \<Longrightarrow> merge_inv s"
proof -
  assume "merge_start s"
  then obtain store args where a: "list_all (\<lambda>a. case a of Some c \<Rightarrow> c < length store | None \<Rightarrow> True) args" "Merge store args = Return s"
    by (auto simp: merge_start_def)
  show ?thesis
  proof (cases "args = []")
    case True
    then show ?thesis
      using a(2) fan_inv_start [of "[]" store "[]" "[\<lparr>arrived = [], oclosed = True\<rparr>]"]
      by (auto simp: merge_inv_def Merge_def start_fan_def)
  next
    case False
    then have n: "None \<notin> set args" "s = start_fan store (map the args) (replicate (length args) 0) [\<lparr>arrived = [], oclosed = False\<rparr>]"
      using a(2) by (auto simp: Merge_def split: if_splits)
    have "the x < length store" if "x \<in> set args" for x
      using a(1) n(1) that by (cases x) (auto simp: list_all_iff)
    then have "fan_inv s" unfolding n(2) by (intro fan_inv_start) auto
    then show ?thesis using n(2) False by (simp add: merge_inv_def start_fan_def)
  qed
qed

interpretation merge: step_invariant merge_start merge_step merge_inv
  by unfold_locales (auto intro: merge_inv_start merge_inv_step)
text \<open>The values taken from a channel are those its readers took.\<close>

lemma mset_from_chan:
  assumes "\<forall>e \<in> set log. fst e < n"
  shows "mset (from_chan from c log) = (\<Sum>i | i < n \<and> from ! i = c. mset (by_fwd i log))"
  using assms
proof (induction log rule: rev_induct)
  case (snoc e log)
  obtain j v where e: "e = (j, v)" by (cases e)
  have "(\<Sum>i | i < n \<and> from ! i = c. mset (by_fwd i [(j, v)])) = (if from ! j = c then {#v#} else {#})"
  proof (cases "from ! j = c")
    case True
    have "(\<Sum>i | i < n \<and> from ! i = c. mset (by_fwd i [(j, v)])) = (\<Sum>i | i < n \<and> from ! i = c. if i = j then {#v#} else {#})"
      by (rule sum.cong) auto
    then show ?thesis using True snoc.prems e by (simp add: sum.delta)
  next
    case False
    then show ?thesis by (auto intro!: sum.neutral)
  qed
  moreover have "mset (from_chan from c log) = (\<Sum>i | i < n \<and> from ! i = c. mset (by_fwd i log))"
    using snoc by simp
  ultimately show ?case unfolding e by (simp add: sum.distrib del: by_fwd_simps)
qed (simp add: sum.neutral)

lemma from_chan_sole:
  assumes "\<forall>e \<in> set log. fst e < n" and "i < n" and "\<forall>j < n. from ! j = from ! i \<longrightarrow> j = i"
  shows "from_chan from (from ! i) log = by_fwd i log"
proof -
  have "(from ! fst e = from ! i) = (fst e = i)" if "e \<in> set log" for e using assms that by blast
  then have "filter (\<lambda>e. from ! fst e = from ! i) log = filter (\<lambda>e. fst e = i) log" by (intro filter_cong) auto
  then show ?thesis by (simp add: from_chan_def by_fwd_def)
qed

lemma subseq_by_fwd: "subseq (by_fwd i log) (from_chan from (from ! i) log)"
proof -
  have "filter (\<lambda>e. fst e = i) log = filter (\<lambda>e. fst e = i) (filter (\<lambda>e. from ! fst e = from ! i) log)"
    unfolding filter_filter by (rule filter_cong) auto
  then show ?thesis unfolding by_fwd_def from_chan_def by (metis subseq_filter_left subseq_map)
qed

text \<open>At any time, and when everything was forwarded.\<close>

lemma arrivals_of_reader:
  assumes "fan_inv s" and "i < length (fwd s)"
  shows "prefix (arrived_from s i) (by_fwd i (taken s))"
    and "subseq (arrived_from s i) (produced s ! (src s ! i))"
proof -
  have c: "src s ! i < length (ins s)" using assms by (simp add: fan_inv_def wired_def)
  show p: "prefix (arrived_from s i) (by_fwd i (taken s))"
    using assms by (simp add: fan_inv_def fwd_accounted_def)
  have "prefix (from_chan (src s) (src s ! i) (taken s)) (produced s ! (src s ! i))"
    using assms(1) c by (simp add: fan_inv_def chan_accounted_def)
  then show "subseq (arrived_from s i) (produced s ! (src s ! i))"
    using p subseq_by_fwd [of i "taken s" "src s"] by (meson prefix_imp_subseq subseq_order.trans)
qed

lemma all_forwarded:
  assumes "fan_inv s" and "list_all (\<lambda>p. p = FDone) (fwd s)" and "\<not> ctx_done s" and "i < length (fwd s)"
  shows "by_fwd i (taken s) = arrived_from s i"
    and "produced s ! (src s ! i) = from_chan (src s) (src s ! i) (taken s)"
proof -
  have d: "fwd s ! i = FDone" "dropped s = []"
    using assms by (auto simp: list_all_length fan_inv_def exits_justified_def)
  then show "by_fwd i (taken s) = arrived_from s i" using assms by (simp add: fan_inv_def fwd_accounted_def)
  have "src s ! i < length (ins s)" "buf (ins s ! (src s ! i)) = []"
    using assms d by (auto simp: fan_inv_def wired_def exits_justified_def)
  then show "produced s ! (src s ! i) = from_chan (src s) (src s ! i) (taken s)"
    using assms(1) by (simp add: fan_inv_def chan_accounted_def)
qed

lemma mset_forwarded:
  assumes "fan_inv s" and "list_all (\<lambda>p. p = FDone) (fwd s)" and "\<not> ctx_done s" and "i < length (fwd s)"
  shows "mset (produced s ! (src s ! i)) = (\<Sum>j | j < length (fwd s) \<and> src s ! j = src s ! i. mset (arrived_from s j))"
  using all_forwarded [OF assms(1-3)] mset_from_chan [of "taken s" "length (fwd s)" "src s" "src s ! i"] assms(1,4)
  by (simp add: fan_inv_def logs_indexed_def)

definition demo_merge :: "nat fan" where
  "demo_merge = start_fan [\<lparr>buf = [7], cap = 1, chan_closed = True\<rparr>] [0] [0] [\<lparr>arrived = [], oclosed = False\<rparr>]"

text \<open>A run of one forwarder to the end: it takes the value, sends it, sees the closed input and ends.\<close>

definition demo_merged :: "nat fan" where
  "demo_merged = close_out 0 (put_out 0 7 (demo_merge\<lparr>ins := [\<lparr>buf = [], cap = 1, chan_closed = True\<rparr>], fwd := [FDone], taken := [(0, 7)]\<rparr>))"

lemma demo_merge_run: "merge_step\<^sup>*\<^sup>* demo_merge demo_merged"
proof -
  define s1 where "s1 = demo_merge\<lparr>ins := [\<lparr>buf = [], cap = 1, chan_closed = True\<rparr>], fwd := [FHold 7], taken := [(0, 7)]\<rparr>"
  define s2 where "s2 = put_out 0 7 (s1\<lparr>fwd := [FSelect]\<rparr>)"
  define s3 where "s3 = s2\<lparr>fwd := [FExit]\<rparr>"
  define s4 where "s4 = s2\<lparr>fwd := [FDone]\<rparr>"
  note d = demo_merge_def start_fan_def s1_def s2_def s3_def s4_def put_out_def
  have "fan_step demo_merge s1"
    using forwarder [OF forward_step.recv, of 0 demo_merge 7 "\<lparr>buf = [], cap = 1, chan_closed = True\<rparr>"] by (simp add: d chan_recv_def)
  moreover have "fan_step s1 s2" using forwarder [OF forward_step.send, of 0 s1 7] by (simp add: d)
  moreover have "fan_step s2 s3"
    using forwarder [OF forward_step.recv_closed, of 0 s2 "\<lparr>buf = [], cap = 1, chan_closed = True\<rparr>"] by (simp add: d chan_recv_def)
  moreover have "merge_step s3 s4" using merge_step.wg_Done [of 0 s3] by (simp add: d)
  moreover have "merge_step s4 demo_merged" using merge_step.closer [of s4] by (simp add: d demo_merged_def)
  ultimately show ?thesis by (meson merge_step.common converse_rtranclp_into_rtranclp rtranclp.rtrancl_refl)
qed

text \<open>
  C29. \<open>Merge\<close> forwards completely and in order. Whatever the schedule of producers, consumer, forwarders
  and cancellation: no send on or close of a closed channel happens; what arrived from an input that is
  read once is a prefix of what was sent on it, and from any input a subsequence; and when the output is
  closed without cancellation, every value sent on an input has arrived exactly once, in order if the
  input was passed once.
\<close>

theorem Merge_complete_and_ordered:
  assumes "Merge store args = Return s" and "\<forall>c. Some c \<in> set args \<longrightarrow> c < length store" and "merge_step\<^sup>*\<^sup>* s t"
  shows "\<not> misused t \<and>
    (\<forall>i < length (fwd t). subseq (arrived_from t i) (produced t ! (src t ! i)) \<and>
      ((\<forall>j < length (fwd t). src t ! j = src t ! i \<longrightarrow> j = i) \<longrightarrow> prefix (arrived_from t i) (produced t ! (src t ! i)))) \<and>
    (oclosed (outs t ! 0) \<and> \<not> ctx_done t \<longrightarrow> (\<forall>i < length (fwd t).
      mset (produced t ! (src t ! i)) = (\<Sum>j | j < length (fwd t) \<and> src t ! j = src t ! i. mset (arrived_from t j)) \<and>
      ((\<forall>j < length (fwd t). src t ! j = src t ! i \<longrightarrow> j = i) \<longrightarrow> arrived_from t i = produced t ! (src t ! i))))"
proof -
  have "merge_start s"
    using assms(1,2) by (fastforce simp: merge_start_def list_all_iff split: option.splits)
  then have mi: "merge_inv t" using merge.inv_reachable assms(3) by blast
  then have inv: "fan_inv t" and "\<not> misused t" by (auto simp: merge_inv_def)
  have log: "\<forall>e \<in> set (taken t). fst e < length (fwd t)" using inv by (simp add: fan_inv_def logs_indexed_def)
  have pre: "prefix (arrived_from t i) (produced t ! (src t ! i))"
    if i: "i < length (fwd t)" "\<forall>j < length (fwd t). src t ! j = src t ! i \<longrightarrow> j = i" for i
  proof -
    have "src t ! i < length (ins t)" using inv i by (simp add: fan_inv_def wired_def)
    then have "prefix (by_fwd i (taken t)) (produced t ! (src t ! i))"
      using inv from_chan_sole [OF log i] by (simp add: fan_inv_def chan_accounted_def)
    then show ?thesis using arrivals_of_reader(1) [OF inv i(1)] prefix_order.trans by blast
  qed
  have fin: "mset (produced t ! (src t ! i)) = (\<Sum>j | j < length (fwd t) \<and> src t ! j = src t ! i. mset (arrived_from t j)) \<and>
      ((\<forall>j < length (fwd t). src t ! j = src t ! i \<longrightarrow> j = i) \<longrightarrow> arrived_from t i = produced t ! (src t ! i))"
    if c: "oclosed (outs t ! 0) \<and> \<not> ctx_done t" and i: "i < length (fwd t)" for i
  proof -
    have d: "list_all (\<lambda>p. p = FDone) (fwd t)" using mi c by (simp add: merge_inv_def)
    show ?thesis
      using mset_forwarded [OF inv d _ i] all_forwarded [OF inv d _ i] from_chan_sole [OF log i] c by auto
  qed
  show ?thesis using \<open>\<not> misused t\<close> arrivals_of_reader(2) [OF inv] pre fin by blast
qed

theorem Merge_complete_and_ordered_witness:
  "merge_step\<^sup>*\<^sup>* demo_merge demo_merged \<and> oclosed (outs demo_merged ! 0) \<and>
    arrived_from demo_merged 0 = produced demo_merged ! (src demo_merged ! 0) \<and> produced demo_merged ! 0 = [7]"
proof -
  have m: "Merge [\<lparr>buf = [7], cap = 1, chan_closed = True\<rparr>] [Some 0] = Return demo_merge"
    by (simp add: Merge_def demo_merge_def)
  have "length (fwd demo_merged) = 1" "oclosed (outs demo_merged ! 0)" "\<not> ctx_done demo_merged" "produced demo_merged ! 0 = [7]"
    by (simp_all add: demo_merged_def demo_merge_def start_fan_def put_out_def close_out_def)
  then show ?thesis using Merge_complete_and_ordered [OF m _ demo_merge_run] demo_merge_run by simp
qed

subsection \<open>Fan-out\<close>

definition split_inv :: "'a fan \<Rightarrow> bool" where
  "split_inv s \<longleftrightarrow> fan_inv s \<and> \<not> misused s \<and> distinct (dst s) \<and>
     (\<forall>i < length (fwd s). oclosed (outs s ! (dst s ! i)) \<longleftrightarrow> fwd s ! i = FDone) \<and>
     (\<exists>c. \<forall>i < length (fwd s). src s ! i = c)"

lemma split_holders_open: "split_inv s \<Longrightarrow> holders_open s"
  by (auto simp: split_inv_def holders_open_def)

lemma split_inv_step: "split_step s t \<Longrightarrow> split_inv s \<Longrightarrow> split_inv t"
proof (induction rule: split_step.induct)
  case (common s t)
  have opn: "holders_open s" "fan_inv s" using common split_holders_open by (auto simp: split_inv_def)
  then have "fan_inv t" using common(1) fan_inv_step by blast
  moreover have w: "wired s" using opn by (simp add: fan_inv_def)
  note k = fan_step_keeps [OF common(1) w opn(1)]
  have "\<forall>i < length (fwd t). oclosed (outs t ! (dst t ! i)) \<longleftrightarrow> fwd t ! i = FDone"
  proof (intro allI impI)
    fix i assume i: "i < length (fwd t)"
    have "oclosed (outs s ! (dst s ! i)) \<longleftrightarrow> fwd s ! i = FDone" using common(2) i k by (simp add: split_inv_def)
    then show "oclosed (outs t ! (dst t ! i)) \<longleftrightarrow> fwd t ! i = FDone" using i k by simp
  qed
  moreover have "\<not> misused t \<and> distinct (dst t) \<and> (\<exists>c. \<forall>i < length (fwd t). src t ! i = c)"
    using common(2) k by (simp add: split_inv_def)
  ultimately show ?case by (simp add: split_inv_def)
next
  case (close_own i s)
  let ?s = "s\<lparr>fwd := (fwd s)[i := FDone]\<rparr>"
  have k: "dst s ! i < length (outs s)" "length (dst s) = length (fwd s)" "\<not> oclosed (outs s ! (dst s ! i))"
    using close_own by (auto simp: split_inv_def fan_inv_def wired_def)
  have "fan_inv (close_out (dst s ! i) ?s)"
    using fan_inv_close [of ?s "dst s ! i"] fan_inv_done [of s i] close_own k by (simp add: split_inv_def)
  moreover have "(dst s ! i = dst s ! j) = (i = j)" if "j < length (fwd s)" for j
    using close_own that k by (simp add: split_inv_def nth_eq_iff_index_eq)
  ultimately show ?case
    using close_own k by (auto simp: split_inv_def close_out_def Let_def nth_list_update)
qed

definition split_start :: "'a fan \<Rightarrow> bool" where
  "split_start s \<longleftrightarrow> (\<exists>store inp args n. (\<forall>c. inp = Some c \<longrightarrow> c < length store) \<and>
     (\<forall>k. Some k \<in> set args \<longrightarrow> k < n) \<and> distinct args \<and> Split store inp args n = Return s)"

lemma split_inv_start: "split_start s \<Longrightarrow> split_inv s"
proof -
  assume "split_start s"
  then obtain store inp args n where a: "\<forall>c. inp = Some c \<longrightarrow> c < length store" "\<forall>k. Some k \<in> set args \<longrightarrow> k < n"
    "distinct args" "Split store inp args n = Return s" by (auto simp: split_start_def)
  then obtain c where c: "inp = Some c" "None \<notin> set args" and
    s: "s = start_fan store (replicate (length args) c) (map the args) (replicate n \<lparr>arrived = [], oclosed = False\<rparr>)"
    by (auto simp: Split_def split: option.splits if_splits)
  have k: "the x < n" if "x \<in> set args" for x using a(2) c(2) that by (cases x) auto
  have "inj_on the (set args)" using c(2) by (auto simp: inj_on_def) (metis option.expand)
  then have "distinct (map the args)" using a(3) by (simp add: distinct_map)
  moreover have "fan_inv s" unfolding s using a(1) c(1) k by (intro fan_inv_start) auto
  ultimately show ?thesis using s k by (auto simp: split_inv_def start_fan_def)
qed

interpretation split: step_invariant split_start split_step split_inv
  by unfold_locales (auto intro: split_inv_start split_inv_step)

definition demo_split :: "nat fan" where
  "demo_split = start_fan [\<lparr>buf = [7, 8], cap = 2, chan_closed = True\<rparr>] [0, 0] [0, 1]
     (replicate 2 \<lparr>arrived = [], oclosed = False\<rparr>)"

text \<open>Halfway through: the first output has received the first value, the second forwarder holds the second.\<close>

definition demo_halfway :: "nat fan" where
  "demo_halfway = demo_split\<lparr>ins := [\<lparr>buf = [], cap = 2, chan_closed = True\<rparr>], fwd := [FSelect, FHold 8], taken := [(0, 7), (1, 8)],
     outs := [\<lparr>arrived = [(0, 7)], oclosed = False\<rparr>, \<lparr>arrived = [], oclosed = False\<rparr>]\<rparr>"

lemma demo_split_run: "split_step\<^sup>*\<^sup>* demo_split demo_halfway"
proof -
  define s1 where "s1 = demo_split\<lparr>ins := [\<lparr>buf = [8], cap = 2, chan_closed = True\<rparr>], fwd := [FHold 7, FSelect], taken := [(0, 7)]\<rparr>"
  define s2 where "s2 = s1\<lparr>ins := [\<lparr>buf = [], cap = 2, chan_closed = True\<rparr>], fwd := [FHold 7, FHold 8], taken := [(0, 7), (1, 8)]\<rparr>"
  note d = demo_split_def start_fan_def s1_def s2_def demo_halfway_def put_out_def numeral_2_eq_2
  have "fan_step demo_split s1"
    using forwarder [OF forward_step.recv, of 0 demo_split 7 "\<lparr>buf = [8], cap = 2, chan_closed = True\<rparr>"] by (simp add: d chan_recv_def)
  moreover have "fan_step s1 s2"
    using forwarder [OF forward_step.recv, of 1 s1 8 "\<lparr>buf = [], cap = 2, chan_closed = True\<rparr>"] by (simp add: d chan_recv_def)
  moreover have "fan_step s2 demo_halfway" using forwarder [OF forward_step.send, of 0 s2 7] by (simp add: d)
  ultimately show ?thesis by (meson split_step.common converse_rtranclp_into_rtranclp rtranclp.rtrancl_refl)
qed

text \<open>
  C8. \<open>Split\<close> delivers each value to exactly one output. With distinct outputs, whatever the schedule: no
  send on or close of a closed channel happens; an output is closed exactly when its forwarder ended; the
  values an output received are a subsequence of the input; every value sent is on exactly one output, in
  the hand of one forwarder, dropped, or still in the input, once; nothing is dropped without
  cancellation; and when every forwarder has ended without cancellation all values have been delivered.
\<close>

theorem Split_delivers_exactly_once:
  assumes "Split store (Some c) args n = Return s" and "c < length store" and "distinct args"
    and "\<forall>k. Some k \<in> set args \<longrightarrow> k < n" and "split_step\<^sup>*\<^sup>* s t"
  shows "\<not> misused t \<and>
    (\<forall>i < length (fwd t). (oclosed (outs t ! (dst t ! i)) \<longleftrightarrow> fwd t ! i = FDone) \<and>
       map snd (arrived (outs t ! (dst t ! i))) = arrived_from t i \<and>
       subseq (arrived_from t i) (produced t ! (src t ! i)) \<and>
       mset (produced t ! (src t ! i)) = mset (buf (ins t ! (src t ! i))) +
         (\<Sum>j < length (fwd t). mset (arrived_from t j) + mset (held (fwd t ! j)) + mset (by_fwd j (dropped t))) \<and>
       (list_all (\<lambda>p. p = FDone) (fwd t) \<and> \<not> ctx_done t \<longrightarrow>
         mset (produced t ! (src t ! i)) = (\<Sum>j < length (fwd t). mset (arrived_from t j)))) \<and>
    (\<not> ctx_done t \<longrightarrow> dropped t = [])"
proof -
  have "split_start s" unfolding split_start_def using assms(1-4) by (metis option.inject)
  then have si: "split_inv t" using split.inv_reachable assms(5) by blast
  then have inv: "fan_inv t" by (simp add: split_inv_def)
  have log: "\<forall>e \<in> set (taken t). fst e < length (fwd t)" using inv by (simp add: fan_inv_def logs_indexed_def)
  have own: "map snd (arrived (outs t ! (dst t ! i))) = arrived_from t i" if i: "i < length (fwd t)" for i
  proof -
    have "length (dst t) = length (fwd t)" "dst t ! i < length (outs t)" using inv i by (auto simp: fan_inv_def wired_def)
    moreover have "distinct (dst t)" using si by (simp add: split_inv_def)
    moreover have "fst e < length (fwd t) \<and> dst t ! fst e = dst t ! i" if "e \<in> set (arrived (outs t ! (dst t ! i)))" for e
      using inv calculation(2) that by (simp add: fan_inv_def logs_indexed_def)
    ultimately have "\<forall>e \<in> set (arrived (outs t ! (dst t ! i))). fst e = i" using i nth_eq_iff_index_eq by fastforce
    then show ?thesis by (simp add: arrived_from_def by_fwd_def)
  qed
  have readers: "{j. j < length (fwd t) \<and> src t ! j = src t ! i} = {..< length (fwd t)}" if "i < length (fwd t)" for i
    using si that by (auto simp: split_inv_def)
  have acc: "mset (produced t ! (src t ! i)) = mset (buf (ins t ! (src t ! i))) +
         (\<Sum>j < length (fwd t). mset (arrived_from t j) + mset (held (fwd t ! j)) + mset (by_fwd j (dropped t)))"
    if i: "i < length (fwd t)" for i
  proof -
    have "src t ! i < length (ins t)" using inv i by (simp add: fan_inv_def wired_def)
    then have "produced t ! (src t ! i) = from_chan (src t) (src t ! i) (taken t) @ buf (ins t ! (src t ! i))"
      using inv by (simp add: fan_inv_def chan_accounted_def)
    moreover have "mset (by_fwd j (taken t)) = mset (arrived_from t j) + mset (held (fwd t ! j)) + mset (by_fwd j (dropped t))"
      if "j < length (fwd t)" for j using inv that by (simp add: fan_inv_def fwd_accounted_def)
    ultimately show ?thesis
      using mset_from_chan [OF log, of "src t" "src t ! i"] by (simp add: readers [OF i] add.commute)
  qed
  have fin: "mset (produced t ! (src t ! i)) = (\<Sum>j < length (fwd t). mset (arrived_from t j))"
    if "list_all (\<lambda>p. p = FDone) (fwd t) \<and> \<not> ctx_done t" and i: "i < length (fwd t)" for i
    using mset_forwarded [OF inv _ _ i] that readers [OF i] by simp
  have "\<not> misused t" "\<not> ctx_done t \<longrightarrow> dropped t = []"
    using si inv by (auto simp: split_inv_def fan_inv_def exits_justified_def)
  moreover have "oclosed (outs t ! (dst t ! i)) \<longleftrightarrow> fwd t ! i = FDone" if "i < length (fwd t)" for i
    using si that by (simp add: split_inv_def)
  ultimately show ?thesis using own acc fin arrivals_of_reader(2) [OF inv] by blast
qed

theorem Split_delivers_exactly_once_witness:
  "split_step\<^sup>*\<^sup>* demo_split demo_halfway \<and> \<not> misused demo_halfway \<and>
    mset (produced demo_halfway ! 0) = mset (buf (ins demo_halfway ! 0)) +
      (\<Sum>j < 2. mset (arrived_from demo_halfway j) + mset (held (fwd demo_halfway ! j)) + mset (by_fwd j (dropped demo_halfway)))"
proof -
  have d: "Split [\<lparr>buf = [7, 8], cap = 2, chan_closed = True\<rparr>] (Some 0) [Some 0, Some 1] 2 = Return demo_split"
    by (simp add: Split_def demo_split_def numeral_2_eq_2)
  have l: "length (fwd demo_halfway) = 2" "src demo_halfway ! 0 = 0"
    by (simp_all add: demo_halfway_def demo_split_def start_fan_def)
  have "\<not> misused demo_halfway \<and> (\<forall>i < length (fwd demo_halfway).
      mset (produced demo_halfway ! (src demo_halfway ! i)) = mset (buf (ins demo_halfway ! (src demo_halfway ! i))) +
        (\<Sum>j < length (fwd demo_halfway). mset (arrived_from demo_halfway j) + mset (held (fwd demo_halfway ! j)) +
           mset (by_fwd j (dropped demo_halfway))))"
    using Split_delivers_exactly_once [OF d _ _ _ demo_split_run] by simp
  then have "\<not> misused demo_halfway" and "mset (produced demo_halfway ! (src demo_halfway ! 0)) = mset (buf (ins demo_halfway ! (src demo_halfway ! 0))) +
        (\<Sum>j < length (fwd demo_halfway). mset (arrived_from demo_halfway j) + mset (held (fwd demo_halfway ! j)) +
           mset (by_fwd j (dropped demo_halfway)))"
    using l(1) by simp_all
  then show ?thesis unfolding l using demo_split_run by blast
qed

text \<open>Passing the same output twice makes its second forwarder close a closed channel.\<close>

lemma aliased_outputs_misuse:
  "\<exists>t. split_step\<^sup>*\<^sup>* (start_fan [\<lparr>buf = [], cap = 0, chan_closed = True\<rparr>] [0, 0] [0, 0] [\<lparr>arrived = [], oclosed = False\<rparr>]) t \<and> misused t"
proof -
  define s where "s = start_fan [\<lparr>buf = ([] :: 'a list), cap = 0, chan_closed = True\<rparr>] [0, 0] [0, 0] [\<lparr>arrived = [], oclosed = False\<rparr>]"
  define s1 where "s1 = s\<lparr>fwd := [FExit, FSelect]\<rparr>"
  define s2 where "s2 = s\<lparr>fwd := [FExit, FExit]\<rparr>"
  define s3 where "s3 = close_out 0 (s\<lparr>fwd := [FDone, FExit]\<rparr>)"
  define s4 where "s4 = close_out 0 (s3\<lparr>fwd := [FDone, FDone]\<rparr>)"
  note d = s_def s1_def s2_def s3_def s4_def start_fan_def
  have "fan_step s s1" using forwarder [OF forward_step.recv_closed, of 0 s "ins s ! 0"] by (simp add: d chan_recv_def)
  moreover have "fan_step s1 s2" using forwarder [OF forward_step.recv_closed, of 1 s1 "ins s ! 0"] by (simp add: d chan_recv_def)
  moreover have "split_step s2 s3" using split_step.close_own [of 0 s2] by (simp add: d)
  moreover have "split_step s3 s4" using split_step.close_own [of 1 s3] by (simp add: d)
  moreover have "misused s4" by (simp add: d close_out_def)
  ultimately show ?thesis
    unfolding s_def [symmetric] by (meson split_step.common converse_rtranclp_into_rtranclp rtranclp.rtrancl_refl)
qed

end
