(* ===== verification/FanEnd.thy ===== *)
theory FanEnd
  imports Fan
begin

text \<open>
  Packages \<open>fanin\<close> and \<open>fanout\<close> leak no goroutine: once the inputs are closed, or the context is canceled,
  the goroutines end by their own steps and close what they have to close. After a cancellation they do
  so even if nobody receives any more.
\<close>

section \<open>The steps of the goroutines\<close>

text \<open>
  Steps of the package's own goroutines; with \<open>deserted\<close> no consumer receives, so that no value arrives.
\<close>

definition unaided :: "('a fan \<Rightarrow> 'a fan \<Rightarrow> bool) \<Rightarrow> bool \<Rightarrow> 'a fan \<Rightarrow> 'a fan \<Rightarrow> bool" where
  "unaided step deserted s t \<longleftrightarrow> step s t \<and> \<not> env_step s t \<and> (deserted \<longrightarrow> map arrived (outs t) = map arrived (outs s))"

definition released :: "bool \<Rightarrow> 'a fan \<Rightarrow> bool" where
  "released deserted s \<longleftrightarrow> ctx_done s \<or> \<not> deserted \<and> (\<forall>c \<in> set (ins s). chan_closed c)"

lemma env_step_frame: "env_step s t \<Longrightarrow> fwd t = fwd s \<and> outs t = outs s"
  by (induction rule: env_step.induct) simp_all

lemma unaidedI: "step s t \<Longrightarrow> fwd t \<noteq> fwd s \<or> outs t \<noteq> outs s \<Longrightarrow>
    deserted \<longrightarrow> map arrived (outs t) = map arrived (outs s) \<Longrightarrow> unaided step deserted s t"
  using env_step_frame by (auto simp: unaided_def)

lemma forward_released: "forward_step s t \<Longrightarrow> wired s \<Longrightarrow> released d s \<Longrightarrow> released d t"
proof (induction rule: forward_step.induct)
  case (recv i s v ch)
  then have "chan_closed ch = chan_closed (ins s ! (src s ! i))" "ins s ! (src s ! i) \<in> set (ins s)"
    by (auto simp: chan_simps wired_def)
  then show ?case using recv by (auto simp: released_def dest!: in_set_updateD)
qed (auto simp: released_def put_out_def Let_def)

section \<open>The work left\<close>

fun fwd_work :: "'a fpc \<Rightarrow> nat" where
  "fwd_work FSelect = 2"
| "fwd_work (FHold v) = 3"
| "fwd_work FExit = 1"
| "fwd_work FDone = 0"

definition fan_work :: "'a fan \<Rightarrow> nat" where
  "fan_work s = 2 * sum_list (map (\<lambda>c. length (buf c)) (ins s)) + sum_list (map fwd_work (fwd s)) +
     sum_list (map (\<lambda>q. of_bool (\<not> oclosed q)) (outs s))"

lemma fwd_work_update: "i < length fs \<Longrightarrow>
    sum_list (map fwd_work (fs[i := p])) + fwd_work (fs ! i) = sum_list (map fwd_work fs) + fwd_work p"
  by (rule sum_list_map_update)

lemma put_out_work: "wired s \<Longrightarrow> i < length (fwd s) \<Longrightarrow> fan_work (put_out i v s) = fan_work s"
  using sum_list_map_update [of "dst s ! i" "outs s" "\<lambda>q. of_bool (\<not> oclosed q) :: nat"
    "(outs s ! (dst s ! i))\<lparr>arrived := arrived (outs s ! (dst s ! i)) @ [(i, v)]\<rparr>"]
  by (auto simp: fan_work_def put_out_def Let_def wired_def)

lemma close_out_work: "k < length (outs s) \<Longrightarrow> \<not> oclosed (outs s ! k) \<Longrightarrow> Suc (fan_work (close_out k s)) = fan_work s"
  using sum_list_map_update [of k "outs s" "\<lambda>q. of_bool (\<not> oclosed q) :: nat" "(outs s ! k)\<lparr>oclosed := True\<rparr>"]
  by (auto simp: fan_work_def close_out_def Let_def)

lemma forward_decreases: "forward_step s t \<Longrightarrow> wired s \<Longrightarrow> fan_work t < fan_work s"
proof (induction rule: forward_step.induct)
  case (recv i s v ch)
  have "src s ! i < length (ins s)" "length (buf (ins s ! (src s ! i))) = Suc (length (buf ch))"
    using recv by (auto simp: wired_def chan_simps)
  then show ?case
    using sum_list_map_update [of "src s ! i" "ins s" "\<lambda>c. length (buf c)" ch] fwd_work_update [OF recv(1), of "FHold v"] recv(2)
    by (simp add: fan_work_def)
next
  case (send i s v)
  have "wired (s\<lparr>fwd := (fwd s)[i := FSelect]\<rparr>)" using send by (simp add: wired_def)
  then have "fan_work (put_out i v (s\<lparr>fwd := (fwd s)[i := FSelect]\<rparr>)) = fan_work (s\<lparr>fwd := (fwd s)[i := FSelect]\<rparr>)"
    using put_out_work send(1) by fastforce
  then show ?case using fwd_work_update [OF send(1), of FSelect] send(2) by (simp add: fan_work_def)
next
  case (recv_closed i s ch)
  then show ?case using fwd_work_update [OF recv_closed(1), of FExit] by (simp add: fan_work_def)
next
  case (recv_canceled i s)
  then show ?case using fwd_work_update [OF recv_canceled(1), of FExit] by (simp add: fan_work_def)
next
  case (send_canceled i s v)
  then show ?case using fwd_work_update [OF send_canceled(1), of FExit] by (simp add: fan_work_def)
qed

text \<open>A forwarder that is in its loop is never stuck.\<close>

lemma list_update_neq: "i < length xs \<Longrightarrow> xs ! i \<noteq> y \<Longrightarrow> xs[i := y] \<noteq> xs"
  by (metis nth_list_update_eq)

lemma forwarder_not_stuck:
  assumes "wired s" and "released d s" and "i < length (fwd s)" and "fwd s ! i \<notin> {FExit, FDone}"
  shows "\<exists>t. forward_step s t \<and> fwd t \<noteq> fwd s \<and> (d \<longrightarrow> map arrived (outs t) = map arrived (outs s))"
proof (cases "ctx_done s")
  case True
  then show ?thesis
    using assms(3,4) recv_canceled [of i s] send_canceled [of i s] list_update_neq [of i "fwd s" FExit]
    by (cases "fwd s ! i") fastforce+
next
  case False
  then have d: "\<not> d" and "chan_closed (ins s ! (src s ! i))"
    using assms(1-3) by (auto simp: released_def wired_def)
  then obtain y ch where y: "chan_recv (ins s ! (src s ! i)) = Some (y, ch)"
    by (cases "chan_recv (ins s ! (src s ! i))") (auto simp: chan_simps)
  show ?thesis
  proof (cases "fwd s ! i")
    case FSelect
    then show ?thesis
      using d y assms(3) recv [of i s] recv_closed [of i s ch] list_update_neq [of i "fwd s"]
      by (cases y) fastforce+
  next
    case (FHold v)
    have "fwd (put_out i v (s\<lparr>fwd := (fwd s)[i := FSelect]\<rparr>)) = (fwd s)[i := FSelect]" by (simp add: put_out_def Let_def)
    then show ?thesis using d FHold send [OF assms(3) FHold] list_update_neq [OF assms(3), of FSelect] by fastforce
  qed (use assms(4) in simp_all)
qed

lemma released_frame: "ins t = ins s \<Longrightarrow> ctx_done t = ctx_done s \<Longrightarrow> released d t = released d s"
  by (simp add: released_def)

lemma done_work: "i < length (fwd s) \<Longrightarrow> fwd s ! i = FExit \<Longrightarrow> Suc (fan_work (s\<lparr>fwd := (fwd s)[i := FDone]\<rparr>)) = fan_work s"
  using fwd_work_update [of i "fwd s" FDone] by (simp add: fan_work_def)

lemma arrived_close: "k < length (outs s) \<Longrightarrow> map arrived (outs (close_out k s)) = map arrived (outs s)"
  by (auto simp: close_out_def Let_def map_update intro!: list_update_same_conv [THEN iffD2])

lemma in_loop_or_returned: "\<not> list_all (\<lambda>p. p = FDone) fs \<Longrightarrow>
    (\<exists>i < length fs. fs ! i = FExit) \<or> (\<exists>i < length fs. fs ! i \<notin> {FExit, FDone})"
  by (auto simp: list_all_length)

section \<open>Fan-in\<close>

definition merge_ending :: "bool \<Rightarrow> 'a fan \<Rightarrow> bool" where
  "merge_ending d s \<longleftrightarrow> merge_inv s \<and> released d s"

definition merge_ended :: "'a fan \<Rightarrow> bool" where
  "merge_ended s \<longleftrightarrow> list_all (\<lambda>p. p = FDone) (fwd s) \<and> oclosed (outs s ! 0)"

lemma merge_own_step:
  assumes "unaided merge_step d s t" and "merge_ending d s"
  shows "released d t \<and> fan_work t < fan_work s"
proof -
  have m: "merge_step s t" "\<not> env_step s t" "wired s" "released d s" "length (outs s) = 1"
    using assms by (auto simp: unaided_def merge_ending_def merge_inv_def fan_inv_def)
  from m(1) show ?thesis
  proof cases
    case common
    then have "forward_step s t" using m(2) by (auto elim: fan_step.cases)
    then show ?thesis using forward_released forward_decreases m by blast
  next
    case (wg_Done i)
    then show ?thesis using done_work [of i s] m(4) by (simp add: released_def)
  next
    case closer
    then show ?thesis using close_out_work [of 0 s] m(4,5) by (simp add: released_def)
  qed
qed

lemma merge_not_stuck:
  assumes "merge_ending d s" and "\<not> merge_ended s"
  shows "\<exists>t. unaided merge_step d s t"
proof -
  have m: "merge_inv s" "wired s" "released d s" "length (outs s) = 1"
    using assms by (auto simp: merge_ending_def merge_inv_def fan_inv_def)
  consider (all) "list_all (\<lambda>p. p = FDone) (fwd s)" | (returned) i where "i < length (fwd s)" "fwd s ! i = FExit"
    | (loop) i where "i < length (fwd s)" "fwd s ! i \<notin> {FExit, FDone}"
    using in_loop_or_returned [of "fwd s"] by blast
  then show ?thesis
  proof cases
    case all
    then have c: "\<not> oclosed (outs s ! 0)" "fwd s \<noteq> []" using assms(2) m(1) by (auto simp: merge_ended_def merge_inv_def)
    then have "outs (close_out 0 s) \<noteq> outs s"
      using m(4) list_update_neq [of 0 "map oclosed (outs s)" True]
      by (auto simp: close_out_def Let_def map_update dest!: arg_cong [of _ _ "map oclosed"])
    then show ?thesis
      using unaidedI [of merge_step s "close_out 0 s" d] merge_step.closer [OF all c(2,1)] arrived_close [of 0 s] m(4) by auto
  next
    case (returned i)
    then show ?thesis
      using unaidedI [of merge_step s "s\<lparr>fwd := (fwd s)[i := FDone]\<rparr>" d] wg_Done [of i s] list_update_neq [of i "fwd s" FDone] by auto
  next
    case (loop i)
    then obtain t where "forward_step s t" "fwd t \<noteq> fwd s" "d \<longrightarrow> map arrived (outs t) = map arrived (outs s)"
      using forwarder_not_stuck [OF m(2,3)] by blast
    then show ?thesis using unaidedI [of merge_step s t d] merge_step.common forwarder by blast
  qed
qed

interpretation merge_end: step_progress "unaided merge_step d" "merge_ending d" merge_ended fan_work for d
proof unfold_locales
  show "merge_ending d t" if "unaided merge_step d s t" "merge_ending d s" for s t :: "'a fan"
    using that merge_own_step [OF that] merge_inv_step by (auto simp: unaided_def merge_ending_def)
qed (use merge_own_step merge_not_stuck in blast)+

section \<open>Fan-out\<close>

definition split_ending :: "bool \<Rightarrow> 'a fan \<Rightarrow> bool" where
  "split_ending d s \<longleftrightarrow> split_inv s \<and> released d s"

definition split_ended :: "'a fan \<Rightarrow> bool" where
  "split_ended s \<longleftrightarrow> list_all (\<lambda>p. p = FDone) (fwd s) \<and> (\<forall>i < length (fwd s). oclosed (outs s ! (dst s ! i)))"

lemma split_own_step:
  assumes "unaided split_step d s t" and "split_ending d s"
  shows "released d t \<and> fan_work t < fan_work s"
proof -
  have m: "split_step s t" "\<not> env_step s t" "wired s" "released d s" "split_inv s"
    using assms by (auto simp: unaided_def split_ending_def split_inv_def fan_inv_def)
  from m(1) show ?thesis
  proof cases
    case common
    then have "forward_step s t" using m(2) by (auto elim: fan_step.cases)
    then show ?thesis using forward_released forward_decreases m by blast
  next
    case (close_own i)
    let ?s = "s\<lparr>fwd := (fwd s)[i := FDone]\<rparr>"
    have "dst s ! i < length (outs ?s)" "\<not> oclosed (outs ?s ! (dst s ! i))"
      using close_own m(3,5) by (auto simp: wired_def split_inv_def)
    then show ?thesis
      using close_own close_out_work [of "dst s ! i" ?s] done_work [of i s] m(4) by (simp add: released_def)
  qed
qed

lemma split_not_stuck:
  assumes "split_ending d s" and "\<not> split_ended s"
  shows "\<exists>t. unaided split_step d s t"
proof -
  have m: "split_inv s" "wired s" "released d s"
    using assms by (auto simp: split_ending_def split_inv_def fan_inv_def)
  have "\<not> list_all (\<lambda>p. p = FDone) (fwd s)"
    using assms(2) m(1) by (auto simp: split_ended_def split_inv_def list_all_length)
  then consider (returned) i where "i < length (fwd s)" "fwd s ! i = FExit" | (loop) i where "i < length (fwd s)" "fwd s ! i \<notin> {FExit, FDone}"
    using in_loop_or_returned [of "fwd s"] by blast
  then show ?thesis
  proof cases
    case (returned i)
    let ?s = "s\<lparr>fwd := (fwd s)[i := FDone]\<rparr>"
    have "dst s ! i < length (outs ?s)" using returned m(2) by (simp add: wired_def)
    then show ?thesis
      using unaidedI [of split_step s "close_out (dst s ! i) ?s" d] close_own [of i s] returned
        list_update_neq [of i "fwd s" FDone] arrived_close [of "dst s ! i" ?s] by auto
  next
    case (loop i)
    then obtain t where "forward_step s t" "fwd t \<noteq> fwd s" "d \<longrightarrow> map arrived (outs t) = map arrived (outs s)"
      using forwarder_not_stuck [OF m(2,3)] by blast
    then show ?thesis using unaidedI [of split_step s t d] split_step.common forwarder by blast
  qed
qed

interpretation split_end: step_progress "unaided split_step d" "split_ending d" split_ended fan_work for d
proof unfold_locales
  show "split_ending d t" if "unaided split_step d s t" "split_ending d s" for s t :: "'a fan"
    using that split_own_step [OF that] split_inv_step by (auto simp: unaided_def split_ending_def)
qed (use split_own_step split_not_stuck in blast)+

section \<open>Properties\<close>

text \<open>
  C20. \<open>Merge\<close> and \<open>Split\<close> leak no goroutine. Take any state they can reach once the context is canceled,
  or, while consumers receive, once the inputs are closed. From there the goroutines' own steps lead to
  the end in which every forwarder has returned and the outputs are closed; every run of them is bounded
  by the work left, and a run that cannot go on has come to that end. After a cancellation this needs no
  consumer (\<open>deserted\<close>): the goroutines end although no value is received any more.
\<close>

theorem forwarders_end:
  assumes "released deserted s"
  shows "(merge_start m \<and> merge_step\<^sup>*\<^sup>* m s \<longrightarrow> ends_within (unaided merge_step deserted) merge_ended (fan_work s) s) \<and>
    (split_start m \<and> split_step\<^sup>*\<^sup>* m s \<longrightarrow> ends_within (unaided split_step deserted) split_ended (fan_work s) s)"
  using assms merge.inv_reachable [of m s] split.inv_reachable [of m s]
    merge_end.ends [of deserted s] split_end.ends [of deserted s]
  by (auto simp: merge_ending_def split_ending_def)

text \<open>The split of two values, halfway through, is canceled and deserted by its consumers.\<close>

theorem forwarders_end_witness:
  "split_step\<^sup>*\<^sup>* demo_split (demo_halfway\<lparr>ctx_done := True\<rparr>) \<and>
   ends_within (unaided split_step True) split_ended 7 (demo_halfway\<lparr>ctx_done := True\<rparr>)"
proof -
  let ?s = "demo_halfway\<lparr>ctx_done := True\<rparr>"
  have "Split [\<lparr>buf = [7, 8], cap = 2, chan_closed = True\<rparr>] (Some 0) [Some 0, Some 1] 2 = Return demo_split"
    by (simp add: Split_def demo_split_def numeral_2_eq_2)
  then have st: "split_start demo_split"
    unfolding split_start_def
    by (intro exI [of _ "[\<lparr>buf = [7, 8], cap = 2, chan_closed = True\<rparr>]"] exI [of _ "Some 0"] exI [of _ "[Some 0, Some 1]"] exI [of _ 2]) simp
  have "split_step demo_halfway ?s" by (intro split_step.common environment cancel)
  then have r: "split_step\<^sup>*\<^sup>* demo_split ?s" using demo_split_run by simp
  have "fan_work ?s = 7" by (simp add: fan_work_def demo_halfway_def)
  then show ?thesis using forwarders_end [of True ?s demo_split] st r by (simp add: released_def)
qed

end
