(* ===== verification/Pools.thy ===== *)
theory Pools
  imports GoPrelude
begin

text \<open>
  Packages \<open>syncpool\<close> and \<open>semaphore\<close>. Buffers are objects of a store, so that a buffer which two clients
  hold at once is visible in the model; \<open>sync.Pool\<close> may hand out any pooled buffer, allocate a new one,
  or forget pooled ones at any time. The weighted semaphore of \<open>golang.org/x/sync\<close> is third-party code
  and an argument of the adapter, with its documented contract as a predicate.
\<close>

section \<open>Buffers\<close>

record buffer =
  bytes :: string
  capacity :: nat

definition maxRetainedCap :: nat where "maxRetainedCap = 64 * 1024"

text \<open>The pooled addresses, with repetitions, the store, and the addresses clients hold.\<close>

record buffer_pool =
  store :: "nat \<Rightarrow> buffer option"
  pooled :: "nat list"
  held_by_clients :: "nat set"

definition NewBufferPool :: buffer_pool where
  "NewBufferPool = \<lparr>store = (\<lambda>_. None), pooled = [], held_by_clients = {}\<rparr>"

definition Reset :: "buffer \<Rightarrow> buffer" where
  "Reset b = b\<lparr>bytes := []\<rparr>"

text \<open>\<open>Put\<close> of the buffer at an address; nil is \<open>None\<close>. Every address a client has is in the store.\<close>

definition Put :: "nat option \<Rightarrow> buffer_pool \<Rightarrow> buffer_pool" where
  "Put buf p = (case buf of
     None \<Rightarrow> p
   | Some a \<Rightarrow> (case store p a of
       None \<Rightarrow> p
     | Some b \<Rightarrow>
         if maxRetainedCap < capacity b then p
         else p\<lparr>store := (store p)(a \<mapsto> Reset b), pooled := a # pooled p\<rparr>))"

text \<open>\<open>Get\<close>: \<open>pick\<close> is the pooled buffer the pool takes, if it takes one, \<open>fresh\<close> a free address.\<close>

definition Get :: "nat option \<Rightarrow> nat \<Rightarrow> buffer_pool \<Rightarrow> nat \<times> buffer_pool" where
  "Get pick fresh p = (case pick of
     Some a \<Rightarrow> (a, p\<lparr>pooled := remove1 a (pooled p)\<rparr>)
   | None \<Rightarrow> (fresh, p\<lparr>store := (store p)(fresh \<mapsto> \<lparr>bytes = [], capacity = 0\<rparr>)\<rparr>))"

text \<open>
  Clients that follow the contract: they write only to buffers they hold, return one they hold and stop
  holding it, and may bring buffers of their own. The collector may drop a pooled buffer.
\<close>

inductive pool_use :: "buffer_pool \<Rightarrow> buffer_pool \<Rightarrow> bool" where
  use_Get: "(\<forall>a. pick = Some a \<longrightarrow> a \<in> set (pooled p)) \<Longrightarrow> store p fresh = None \<Longrightarrow> Get pick fresh p = (a, p') \<Longrightarrow>
    pool_use p (p'\<lparr>held_by_clients := insert a (held_by_clients p')\<rparr>)"
| use_Put: "a \<in> held_by_clients p \<Longrightarrow> pool_use p (Put (Some a) (p\<lparr>held_by_clients := held_by_clients p - {a}\<rparr>))"
| use_write: "a \<in> held_by_clients p \<Longrightarrow> capacity b \<ge> length (bytes b) \<Longrightarrow> pool_use p (p\<lparr>store := (store p)(a \<mapsto> b)\<rparr>)"
| use_own: "store p a = None \<Longrightarrow> pool_use p (p\<lparr>store := (store p)(a \<mapsto> b), held_by_clients := insert a (held_by_clients p)\<rparr>)"
| collect: "pool_use p (p\<lparr>pooled := remove1 a (pooled p)\<rparr>)"

definition pool_clean :: "buffer_pool \<Rightarrow> bool" where
  "pool_clean p \<longleftrightarrow> distinct (pooled p) \<and> set (pooled p) \<inter> held_by_clients p = {} \<and>
     (\<forall>a \<in> held_by_clients p. store p a \<noteq> None) \<and>
     (\<forall>a \<in> set (pooled p). \<exists>b. store p a = Some b \<and> bytes b = [] \<and> capacity b \<le> maxRetainedCap)"

lemma pool_clean_start: "pool_clean NewBufferPool"
  by (simp add: pool_clean_def NewBufferPool_def)

lemma pool_clean_use: "pool_use p q \<Longrightarrow> pool_clean p \<Longrightarrow> pool_clean q"
proof (induction rule: pool_use.induct)
  case (use_Get pick p fresh a p')
  then show ?case by (cases pick) (fastforce simp: pool_clean_def Get_def)+
next
  case (use_Put a p)
  then obtain b where "store p a = Some b" by (auto simp: pool_clean_def)
  then show ?case using use_Put by (auto simp: pool_clean_def Put_def Reset_def)
next
  case (use_own p a b)
  then show ?case by (force simp: pool_clean_def)
next
  case (collect p a)
  then show ?case using notin_set_remove1 by (fastforce simp: pool_clean_def)
qed (auto simp: pool_clean_def)

interpretation buffer_use: step_invariant "\<lambda>p. p = NewBufferPool" pool_use pool_clean
  by unfold_locales (auto intro: pool_clean_start pool_clean_use)

text \<open>
  C14. However clients that follow the contract use a pool, whatever pooled buffer \<open>Get\<close> takes and
  whenever the collector drops some: the buffer handed out is empty, held by nobody else and no longer
  pooled, and no pooled buffer keeps more than the retention cap of 64 KiB.
\<close>

theorem Get_exclusive_empty:
  assumes "pool_use\<^sup>*\<^sup>* NewBufferPool p" and "\<forall>a. pick = Some a \<longrightarrow> a \<in> set (pooled p)" and "store p fresh = None"
    and "Get pick fresh p = (a, p')"
  shows "(\<exists>b. store p' a = Some b \<and> bytes b = []) \<and> a \<notin> held_by_clients p \<and> a \<notin> set (pooled p') \<and>
    (\<forall>c \<in> set (pooled p'). \<exists>b. store p' c = Some b \<and> bytes b = [] \<and> capacity b \<le> 65536)"
proof -
  have c: "pool_clean p" using buffer_use.inv_reachable [OF refl assms(1)] .
  show ?thesis
  proof (cases pick)
    case None
    then have "a = fresh" "p' = p\<lparr>store := (store p)(fresh \<mapsto> \<lparr>bytes = [], capacity = 0\<rparr>)\<rparr>"
      using assms(4) by (auto simp: Get_def)
    then show ?thesis using c assms(3) by (fastforce simp: pool_clean_def maxRetainedCap_def)
  next
    case (Some b)
    then have e: "a = b" "b \<in> set (pooled p)" "p' = p\<lparr>pooled := remove1 b (pooled p)\<rparr>"
      using assms(2,4) by (auto simp: Get_def)
    have "set (remove1 b (pooled p)) = set (pooled p) - {b}" using c by (simp add: pool_clean_def)
    moreover have d: "\<forall>d \<in> set (pooled p). \<exists>f. store p d = Some f \<and> bytes f = [] \<and> capacity f \<le> 65536"
      and "b \<notin> held_by_clients p"
      using c e(2) by (auto simp: pool_clean_def maxRetainedCap_def)
    moreover have "\<exists>f. store p b = Some f \<and> bytes f = []" using d e(2) by blast
    ultimately show ?thesis unfolding e(1,3) by simp
  qed
qed

text \<open>A client takes a buffer, writes to it and returns it; the next one gets the same buffer, empty.\<close>

theorem Get_exclusive_empty_witness:
  "\<exists>p p'. pool_use\<^sup>*\<^sup>* NewBufferPool p \<and> Get (Some 0) 1 p = (0, p') \<and> pooled p = [0] \<and>
     (\<exists>b. store p' 0 = Some b \<and> bytes b = [])"
proof -
  define p1 where "p1 = snd (Get None 0 NewBufferPool)\<lparr>held_by_clients := {0}\<rparr>"
  define p2 where "p2 = p1\<lparr>store := (store p1)(0 \<mapsto> \<lparr>bytes = ''abc'', capacity = 64\<rparr>)\<rparr>"
  define p3 where "p3 = Put (Some 0) (p2\<lparr>held_by_clients := held_by_clients p2 - {0}\<rparr>)"
  have "pool_use NewBufferPool p1"
    using use_Get [of None NewBufferPool 0 0 "snd (Get None 0 NewBufferPool)"]
    by (simp add: p1_def Get_def NewBufferPool_def)
  moreover have "pool_use p1 p2" unfolding p2_def by (rule use_write) (simp_all add: p1_def)
  moreover have "pool_use p2 p3" unfolding p3_def by (rule use_Put) (simp add: p2_def p1_def)
  ultimately have r: "pool_use\<^sup>*\<^sup>* NewBufferPool p3"
    by (blast intro: converse_rtranclp_into_rtranclp)
  have q: "pooled p3 = [0]" "store p3 1 = None" "Get (Some 0) 1 p3 = (0, p3\<lparr>pooled := []\<rparr>)"
    by (simp_all add: p3_def p2_def p1_def Put_def Get_def NewBufferPool_def maxRetainedCap_def)
  show ?thesis using Get_exclusive_empty [OF r _ q(2,3)] r q by auto
qed

text \<open>Returning a buffer twice is outside the contract: the pool then hands it to two clients.\<close>

lemma double_Put_aliases:
  assumes "store p a = Some b" and "capacity b \<le> maxRetainedCap" and "pooled p = []"
  shows "fst (Get (Some a) f (Put (Some a) (Put (Some a) p))) = a \<and>
    a \<in> set (pooled (snd (Get (Some a) f (Put (Some a) (Put (Some a) p)))))"
  using assms by (simp add: Get_def Put_def Reset_def)

section \<open>The weighted semaphore\<close>

text \<open>
  The operations of the third-party semaphore: \<open>Acquire\<close> returns nil, the error of its context, or does
  not return; \<open>Release\<close> panics when more is released than held.
\<close>

record 'w xsync =
  x_NewWeighted :: "int \<Rightarrow> 'w"
  x_Acquire :: "'w \<Rightarrow> int \<Rightarrow> ctx_err option \<Rightarrow> ('w \<times> ctx_err option) option"
  x_Release :: "'w \<Rightarrow> int \<Rightarrow> 'w go"

definition NewWeighted :: "'w xsync \<Rightarrow> int \<Rightarrow> 'w go" where
  "NewWeighted x c = (if c \<le> 0 then Panic ''semaphore: capacity must be positive'' else Return (x_NewWeighted x c))"

definition Acquire :: "'w xsync \<Rightarrow> 'w \<Rightarrow> int \<Rightarrow> ctx_err option \<Rightarrow> ('w \<times> ctx_err option) go option" where
  "Acquire x w weight ctx =
     (if weight \<le> 0 then Some (Panic ''semaphore: weight must be positive'')
      else map_option Return (x_Acquire x w weight ctx))"

definition Release :: "'w xsync \<Rightarrow> 'w \<Rightarrow> int \<Rightarrow> 'w go" where
  "Release x w weight =
     (if weight \<le> 0 then Panic ''semaphore: weight must be positive'' else x_Release x w weight)"

text \<open>The documented contract, in terms of the weight in use and the size.\<close>

definition xsync_documented :: "'w xsync \<Rightarrow> ('w \<Rightarrow> int) \<Rightarrow> ('w \<Rightarrow> int) \<Rightarrow> bool" where
  "xsync_documented x used cap \<longleftrightarrow>
     (\<forall>c. used (x_NewWeighted x c) = 0 \<and> cap (x_NewWeighted x c) = c) \<and>
     (\<forall>w n ctx w'. x_Acquire x w n ctx = Some (w', None) \<longrightarrow> used w' = used w + n \<and> used w' \<le> cap w \<and> cap w' = cap w) \<and>
     (\<forall>w n ctx w' e. x_Acquire x w n ctx = Some (w', Some e) \<longrightarrow> used w' = used w \<and> cap w' = cap w) \<and>
     (\<forall>w n w'. x_Release x w n = Return w' \<longrightarrow> used w' = used w - n \<and> 0 \<le> used w' \<and> cap w' = cap w)"

text \<open>Any sequence of calls that returned keeps the weight in use between zero and the capacity.\<close>

inductive sem_use :: "'w xsync \<Rightarrow> 'w \<Rightarrow> 'w \<Rightarrow> bool" for x where
  sem_Acquire: "Acquire x w n ctx = Some (Return (w', e)) \<Longrightarrow> sem_use x w w'"
| sem_Release: "Release x w n = Return w' \<Longrightarrow> sem_use x w w'"

lemma semaphore_bounded:
  assumes "xsync_documented x used cap" and "NewWeighted x c = Return w0" and "(sem_use x)\<^sup>*\<^sup>* w0 w"
  shows "0 \<le> used w \<and> used w \<le> cap w \<and> cap w = c"
  using assms(3)
proof (induction rule: rtranclp_induct)
  case base
  then show ?case using assms(1,2) by (auto simp: NewWeighted_def xsync_documented_def split: if_splits)
next
  case (step w w')
  from step(2,3) show ?case
  proof (induction rule: sem_use.induct)
    case (sem_Acquire w n ctx w' e)
    then have "0 < n" "x_Acquire x w n ctx = Some (w', e)" by (auto simp: Acquire_def split: if_splits)
    then show ?case using assms(1) sem_Acquire unfolding xsync_documented_def by (cases e) fastforce+
  next
    case (sem_Release w n w')
    then have "0 < n" "x_Release x w n = Return w'" by (auto simp: Release_def split: if_splits)
    then show ?case using assms(1) sem_Release unfolding xsync_documented_def by fastforce
  qed
qed

end
