(* ===== verification/Logger.thy ===== *)
theory Logger
  imports GoPrelude
begin

text \<open>
  Package \<open>logger\<close>: construction of structured loggers and fields carried by a context. A logger is
  what distinguishes one from another: where it writes, its threshold, whether it adds the source
  position, and the attributes it stamps on every record. The rendering of records is \<open>log/slog\<close>'s.
\<close>

datatype field = FString string string | FInt string int | FBool string bool | FDuration string duration | FAny string string

text \<open>\<open>String\<close>, \<open>Int\<close>, \<open>Bool\<close>, \<open>Duration\<close> and \<open>Any\<close> are the constructors. Levels are slog's integers.\<close>

type_synonym level = int

definition slog_LevelInfo :: level where "slog_LevelInfo = 0"
definition slog_LevelDebug :: level where "slog_LevelDebug = - 4"

record 'w options =
  writer :: 'w
  min_level :: level
  addSource :: bool
  attrs :: "field list"

definition WithWriter :: "'w option \<Rightarrow> 'w options \<Rightarrow> 'w options" where
  "WithWriter w opt = (case w of None \<Rightarrow> opt | Some x \<Rightarrow> opt\<lparr>writer := x\<rparr>)"

definition WithLevel :: "level option \<Rightarrow> 'w options \<Rightarrow> 'w options" where
  "WithLevel l opt = (case l of None \<Rightarrow> opt | Some x \<Rightarrow> opt\<lparr>min_level := x\<rparr>)"

definition WithSource :: "'w options \<Rightarrow> 'w options" where
  "WithSource opt = opt\<lparr>addSource := True\<rparr>"

definition WithAttrs :: "field list \<Rightarrow> 'w options \<Rightarrow> 'w options" where
  "WithAttrs as opt = opt\<lparr>attrs := attrs opt @ as\<rparr>"

text \<open>\<open>NewStructured\<close>: the logger is the handler the options describe.\<close>

definition NewStructured :: "'w \<Rightarrow> ('w options \<Rightarrow> 'w options) list \<Rightarrow> 'w options" where
  "NewStructured stdout opts =
     apply_opts opts \<lparr>writer = stdout, min_level = slog_LevelInfo, addSource = False, attrs = []\<rparr>"

text \<open>\<open>Logger.With\<close> adds attributes; a record is emitted from the threshold on, with all of them.\<close>

definition logger_With :: "field list \<Rightarrow> 'w options \<Rightarrow> 'w options" where
  "logger_With fs l = l\<lparr>attrs := attrs l @ fs\<rparr>"

definition emits :: "'w options \<Rightarrow> level \<Rightarrow> bool" where
  "emits l lv \<longleftrightarrow> min_level l \<le> lv"

section \<open>Fields in a context\<close>

text \<open>The value a context holds under the package's key.\<close>

type_synonym fields_ctx = "field list option"

definition fields_of_ctx :: "fields_ctx \<Rightarrow> field list" where
  "fields_of_ctx ctx = (case ctx of None \<Rightarrow> [] | Some fs \<Rightarrow> fs)"

definition WithFields :: "fields_ctx \<Rightarrow> field list \<Rightarrow> fields_ctx" where
  "WithFields ctx fs = (if fs = [] then ctx else Some (fields_of_ctx ctx @ fs))"

definition FromContext :: "'w options \<Rightarrow> fields_ctx \<Rightarrow> 'w options" where
  "FromContext default_logger ctx =
     (if fields_of_ctx ctx = [] then default_logger else logger_With (fields_of_ctx ctx) default_logger)"

text \<open>
  Fields accumulate down a call chain, in the order they were attached, after the base attributes; the
  other settings are those of the default logger.
\<close>

lemma WithFields_accumulates: "fields_of_ctx (fold (\<lambda>fs ctx. WithFields ctx fs) fss ctx) = fields_of_ctx ctx @ concat fss"
  by (induction fss arbitrary: ctx) (auto simp: WithFields_def fields_of_ctx_def split: option.splits)

lemma FromContext_accumulates:
  "FromContext l (fold (\<lambda>fs ctx. WithFields ctx fs) fss None) = l\<lparr>attrs := attrs l @ concat fss\<rparr>"
  by (simp add: FromContext_def WithFields_accumulates logger_With_def) (simp add: fields_of_ctx_def)

text \<open>Repeated attribute options accumulate, nil arguments keep the defaults.\<close>

lemma NewStructured_attrs:
  "attrs (NewStructured w (map WithAttrs ass)) = concat ass \<and> min_level (NewStructured w (map WithAttrs ass)) = slog_LevelInfo"
proof -
  have "attrs (apply_opts (map WithAttrs ass) opt) = attrs opt @ concat ass \<and>
      min_level (apply_opts (map WithAttrs ass) opt) = min_level opt" for opt :: "'a options"
    by (induction ass arbitrary: opt) (simp_all add: WithAttrs_def)
  then show ?thesis by (simp add: NewStructured_def)
qed

lemma nil_options_ignored: "NewStructured w [WithWriter None, WithLevel None] = NewStructured w []"
  by (simp add: NewStructured_def WithWriter_def WithLevel_def)

end
