(* ===== verification/Service.thy ===== *)
theory Service
  imports Middleware WorkerPool Health Env
begin

text \<open>
  The example service: how the packages are composed. Configuration comes from the environment, the
  worker pool, the recorder and the limiter are built once, the root router sends operational paths to
  their endpoints and everything else through the middleware chain. What happens outside the handlers
  during a request (the clock, the generated id, what the pool answers, how much of the response the
  client took) is the record \<open>inputs\<close>. Paths are in the clean form the router passes on.
\<close>

section \<open>Configuration\<close>

record config =
  Addr :: string
  Debug :: bool
  Workers :: int
  QueueSize :: int
  RateLimit :: int
  Burst :: int
  AllowedOrigin :: string
  ShutdownGrace :: duration

definition loadConfig :: "environ \<Rightarrow> config" where
  "loadConfig env =
     \<lparr>Addr = GetDefault env ''SERVICE_ADDR'' '':8080'',
      Debug = GetBool env ''SERVICE_DEBUG'' False,
      Workers = GetInt env ''SERVICE_WORKERS'' 4,
      QueueSize = GetInt env ''SERVICE_QUEUE_SIZE'' 64,
      RateLimit = GetInt env ''SERVICE_RATE_LIMIT'' 20,
      Burst = GetInt env ''SERVICE_BURST'' 40,
      AllowedOrigin = GetDefault env ''SERVICE_ALLOWED_ORIGIN'' ''https://app.example.com'',
      ShutdownGrace = GetDuration env ''SERVICE_SHUTDOWN_GRACE'' 15000000000\<rparr>"

text \<open>The panic handler of the pool logs and returns.\<close>

record 'tk service =
  cfg :: config
  svc_pool :: "'tk pool \<times> 'tk worker list"
  svc_metrics :: recorder
  svc_limiter :: limiter

definition newService :: "config \<Rightarrow> instant \<Rightarrow> 'tk service go" where
  "newService c now =
     go_bind (WithPanicHandler (Some (\<lambda>m. Return ()))) (\<lambda>onPanicOpt.
     go_bind (pool_New (Workers c) (QueueSize c) [WithNonBlockingSubmit, onPanicOpt]) (\<lambda>p.
     go_bind (NewLimiter (f64_of_int (RateLimit c)) (Burst c) now) (\<lambda>l.
       Return \<lparr>cfg = c, svc_pool = p, svc_metrics = recorder_New, svc_limiter = l\<rparr>)))"

definition corsConfig :: "config \<Rightarrow> CorsConfig" where
  "corsConfig c = \<lparr>AllowedOrigins = [AllowedOrigin c], AllowedMethods = [''GET'', ''POST''],
     AllowedHeaders = [''Content-Type''], ExposedHeaders = [], AllowCredentials = False, MaxAge = 600000000000\<rparr>"

section \<open>The order endpoint\<close>

text \<open>
  \<open>submitted\<close> is what \<open>pool.Submit\<close> returned, \<open>accepted\<close> how many bytes of the body the client took.
\<close>

definition accepted_body :: string where
  "accepted_body = ''{'' @ [CHR 0x22] @ ''status'' @ [CHR 0x22] @ '':'' @ [CHR 0x22] @ ''accepted'' @ [CHR 0x22] @ ''}'' @ [CHR 0x0A]"

definition ctx_err_text :: "ctx_err \<Rightarrow> string" where
  "ctx_err_text e = (case e of Canceled \<Rightarrow> ''context canceled'' | DeadlineExceeded \<Rightarrow> ''context deadline exceeded'')"

definition createOrder :: "submit_err option \<Rightarrow> nat \<Rightarrow> string \<Rightarrow> handler" where
  "createOrder submitted accepted werr r =
     (let request_id = AStr ''request_id'' (RequestIDFrom r) in
      case submitted of
        Some ErrQueueFull \<Rightarrow>
          \<lparr>calls = HSet ''Retry-After'' ''1'' # http_Error ''busy'' 503, panic_with = None, effects = []\<rparr>
      | Some ErrClosed \<Rightarrow>
          \<lparr>calls = http_Error ''shutting down'' 503, panic_with = None, effects = []\<rparr>
      | Some (SubmitCtx e) \<Rightarrow>
          \<lparr>calls = http_Error ''internal error'' 500, panic_with = None,
           effects = [LogRecord LevelError ''submit failed'' [request_id, AStr ''error'' (ctx_err_text e)]]\<rparr>
      | None \<Rightarrow>
          \<lparr>calls = [HSet ''Content-Type'' ''application/json'', WriteHeader 202, Write accepted_body accepted],
           panic_with = None,
           effects = LogRecord LevelInfo ''order accepted'' [request_id] #
             (if accepted < length accepted_body then [LogRecord LevelWarn ''response write failed'' [request_id, AStr ''error'' werr]]
              else [])\<rparr>)"

text \<open>The application's router: one route, the router's own 404 and 405 otherwise.\<close>

definition app_mux :: "handler \<Rightarrow> handler" where
  "app_mux order r =
     (if url_path r = ''/orders'' then
        if req_method r = ''POST'' then order r
        else \<lparr>calls = HSet ''Allow'' ''POST'' # http_Error ''Method Not Allowed'' 405, panic_with = None, effects = []\<rparr>
      else \<lparr>calls = http_Error ''404 page not found'' 404, panic_with = None, effects = []\<rparr>)"

section \<open>The handler\<close>

record inputs =
  clock :: instant
  entropy :: "nat \<Rightarrow> 8 word"
  stack_text :: string
  elapsed_ns :: duration
  elapsed_s :: float64
  submit_result :: "submit_err option"
  body_accepted :: nat
  write_error :: string
  conversion :: "float64 \<Rightarrow> int"
  format_float :: "float64 \<Rightarrow> string"

definition submit_text :: "submit_err \<Rightarrow> string" where
  "submit_text e = (case e of ErrQueueFull \<Rightarrow> ''workerpool: task queue is full'' | ErrClosed \<Rightarrow> ''workerpool: pool is closed'' | SubmitCtx x \<Rightarrow> ctx_err_text x)"

text \<open>The readiness check submits a no-op task.\<close>

definition readiness :: "inputs \<Rightarrow> check" where
  "readiness inp = \<lparr>check_name = ''worker-pool'',
     Probe = Some (\<lambda>r. case submit_result inp of None \<Rightarrow> ProbeOk | Some e \<Rightarrow> ProbeErr (submit_text e))\<rparr>"

text \<open>A health endpoint, by its sequential reference.\<close>

definition health_endpoint :: "check list \<Rightarrow> handler" where
  "health_endpoint cs r = \<lparr>calls = respond (reference r cs), panic_with = None, effects = []\<rparr>"

text \<open>The application chain inside the limiter, and the whole chain; the limiter's state is updated.\<close>

definition limited :: "inputs \<Rightarrow> cors \<Rightarrow> limiter \<Rightarrow> handler" where
  "limited inp c l r =
     snd (limiter_Middleware (conversion inp)
       (cors_handler c (app_mux (createOrder (submit_result inp) (body_accepted inp) (write_error inp)))) (clock inp) l r)"

definition chain :: "inputs \<Rightarrow> cors \<Rightarrow> limiter \<Rightarrow> handler" where
  "chain inp c l =
     recoverer_handler (stack_text inp)
       (request_id_handler (entropy inp)
         (logger_handler (elapsed_ns inp)
           (metrics_handler (elapsed_s inp)
             (limited inp c l))))"

text \<open>The observations of a request reach the recorder.\<close>

definition record_effects :: "effect list \<Rightarrow> recorder \<Rightarrow> recorder" where
  "record_effects es rec =
     fold (\<lambda>e m. case e of Observe mth c secs \<Rightarrow> recorder_observe mth c secs m | LogRecord _ _ _ \<Rightarrow> m) es rec"

definition root :: "'tk service \<Rightarrow> cors \<Rightarrow> inputs \<Rightarrow> request \<Rightarrow> 'tk service \<times> outcome" where
  "root s c inp r =
     (if url_path r = ''/healthz'' then (s, recoverer_handler (stack_text inp) (health_endpoint []) r)
      else if url_path r = ''/readyz'' then (s, recoverer_handler (stack_text inp) (health_endpoint [readiness inp]) r)
      else if url_path r = ''/metrics''
        then (s, recoverer_handler (stack_text inp) (metrics_Handler (format_float inp) (svc_metrics s)) r)
      else
        let out = chain inp c (svc_limiter s) r
        in (s\<lparr>svc_limiter := fst (Allow (svc_limiter s) (clock inp)),
               svc_metrics := record_effects (effects out) (svc_metrics s)\<rparr>, out))"

text \<open>\<open>handler\<close>: building the chain can only fail on the configuration of \<open>Cors\<close>.\<close>

definition service_handler :: "'tk service \<Rightarrow> (inputs \<Rightarrow> request \<Rightarrow> 'tk service \<times> outcome) go" where
  "service_handler s = go_bind (newCors (corsConfig (cfg s))) (\<lambda>c. Return (root s c))"

section \<open>Well-behaved handlers\<close>

text \<open>
  What every handler inside the chain does on every request: it returns, uses final statuses only,
  leaves the request id header alone, and records no observation itself.
\<close>

definition log_only :: "effect \<Rightarrow> bool" where
  "log_only e = (case e of LogRecord _ _ _ \<Rightarrow> True | Observe _ _ _ \<Rightarrow> False)"

definition well_behaved :: "outcome \<Rightarrow> bool" where
  "well_behaved out \<longleftrightarrow> panic_with out = None \<and> list_all plain_call (calls out) \<and>
     list_all (\<lambda>x. \<not> touches canonicalHeaderName x) (calls out) \<and> list_all log_only (effects out)"

lemmas well_behaved_defs = well_behaved_def log_only_def plain_call_def touches_def canonicalHeaderName_def
  http_Error_def valid_code_def informational_code_def

lemma createOrder_well_behaved: "well_behaved (createOrder sub n w r)"
  by (auto simp: createOrder_def well_behaved_defs Let_def split: option.splits submit_err.splits)

lemma app_mux_well_behaved: "(\<And>r. well_behaved (h r)) \<Longrightarrow> well_behaved (app_mux h r)"
  by (auto simp: app_mux_def well_behaved_defs)

lemma cors_well_behaved:
  assumes "\<And>r. well_behaved (h r)"
  shows "well_behaved (cors_handler c h r)"
proof -
  have a: "list_all plain_call (cors_actual c origin b)" "list_all (\<lambda>x. \<not> touches canonicalHeaderName x) (cors_actual c origin b)"
    "list_all plain_call (preflight c r origin b)" "list_all (\<lambda>x. \<not> touches canonicalHeaderName x) (preflight c r origin b)" for origin b
    by (auto simp: cors_actual_def preflight_def writeAllowOrigin_def Let_def plain_call_def touches_def canonicalHeaderName_def
        cors_names valid_code_def informational_code_def)
  show ?thesis using a assms [of r] by (simp add: cors_handler_def Let_def well_behaved_def)
qed

lemma limited_well_behaved: "well_behaved (limited inp c l r)"
proof -
  have "well_behaved (cors_handler c (app_mux (createOrder (submit_result inp) (body_accepted inp) (write_error inp))) r)"
    by (intro cors_well_behaved app_mux_well_behaved createOrder_well_behaved)
  then show ?thesis
    by (auto simp: limited_def limiter_Middleware_def Let_def split: prod.splits)
      (simp add: well_behaved_defs headerRetryAfter_def)
qed

lemma limited_shed:
  "\<not> snd (Allow l (clock inp)) \<Longrightarrow> limited inp c l r = shed (conversion inp) l"
  by (auto simp: limited_def limiter_Middleware_def shed_def split: prod.splits)

text \<open>Header calls before a response do not change its status.\<close>

lemma status_of_header_calls:
  assumes "list_all header_call pre" and "list_all plain_call cs"
  shows "status_of (pre @ cs) = status_of cs"
proof -
  have pre: "list_all plain_call pre" using assms(1) by (auto simp: list_all_iff plain_call_def header_call_def split: hcall.splits)
  have skip: "fold recorder_call pre rr = rr" for rr
    using assms(1)
  proof (induction pre arbitrary: rr)
    case (Cons x xs)
    then show ?case by (cases x) (simp_all add: header_call_def)
  qed simp
  have "status_of (pre @ cs) = status (fold recorder_call (pre @ cs) new_recorder)"
    using assms(2) pre by (intro response_recorder.recorded_is_sent [symmetric]) (simp_all add: new_recorder_def)
  also have "\<dots> = status (fold recorder_call cs new_recorder)" by (simp add: skip)
  also have "\<dots> = status_of cs"
    using assms(2) by (intro response_recorder.recorded_is_sent) (simp_all add: new_recorder_def)
  finally show ?thesis .
qed

lemma status_of_header_call: "list_all plain_call cs \<Longrightarrow> status_of (HSet k v # cs) = status_of cs"
  using status_of_header_calls [of "[HSet k v]" cs] by (simp add: header_call_def)

text \<open>
  A request that is no preflight reaches the handler behind \<open>Cors\<close> whatever its origin, and gets the
  handler's status: the policy only adds headers.
\<close>

lemma cors_forwards:
  assumes "req_method r \<noteq> ''OPTIONS'' \<or> header_Get (req_header r) headerACRequestMethod = ''''"
    and "list_all plain_call (calls (h r))"
  shows "status_of (calls (cors_handler c h r)) = status_of (calls (h r)) \<and> effects (cors_handler c h r) = effects (h r)"
proof -
  have "list_all header_call (cors_actual c origin b)" for origin b
    by (auto simp: cors_actual_def writeAllowOrigin_def Let_def header_call_def)
  then show ?thesis
    using assms by (auto simp: cors_handler_def Let_def status_of_header_calls)
qed

lemma metrics_on_well_behaved:
  assumes "well_behaved (h r)"
  shows "metrics_handler secs h r =
    (h r)\<lparr>effects := effects (h r) @ [Observe (normalizeMethod (req_method r)) (status_of (calls (h r))) secs]\<rparr>"
proof -
  have "sw_status (fold statusWriter_call (calls (h r)) \<lparr>sw_status = 200, sw_wroteHeader = False\<rparr>) = status_of (calls (h r))"
    using assms by (intro status_writer.recorded_is_sent) (simp_all add: well_behaved_def)
  then show ?thesis using assms by (simp add: metrics_handler_def Let_def well_behaved_def)
qed

lemma logger_on_plain:
  assumes "list_all plain_call (calls (h r))"
  shows "\<exists>attrs. logger_handler el h r =
      (h r)\<lparr>effects := effects (h r) @ [LogRecord (levelFor (status_of (calls (h r)))) ''http request'' attrs]\<rparr> \<and>
    AInt ''status'' (status_of (calls (h r))) \<in> set attrs \<and> set (id_attr r) \<subseteq> set attrs"
proof -
  have "status (fold recorder_call (calls (h r)) new_recorder) = status_of (calls (h r))"
    using assms by (intro response_recorder.recorded_is_sent) (simp_all add: new_recorder_def)
  then show ?thesis by (auto simp: logger_handler_def Let_def)
qed

lemma record_effects_log_only: "list_all log_only es \<Longrightarrow> record_effects (es @ fs) rec = record_effects fs rec"
  unfolding record_effects_def
  by (induction es arbitrary: rec) (auto simp: log_only_def split: effect.splits)

lemma recoverer_returns: "panic_with (h r) = None \<Longrightarrow> recoverer_handler st h r = h r"
  by (simp add: recoverer_handler_def Let_def)

text \<open>What the chain does on a request, in terms of the handler inside the limiter.\<close>

lemma chain_on_request:
  fixes inp :: inputs and r :: request and c :: cors and l :: limiter
  defines "i \<equiv> (let i0 = header_Get (req_header r) canonicalHeaderName in if isValidID i0 then i0 else generateID (entropy inp))"
  defines "inner \<equiv> limited inp c l (r\<lparr>ctx_request_id := Some i\<rparr>)"
  shows "\<exists>attrs. chain inp c l r = \<lparr>calls = HSet canonicalHeaderName i # calls inner, panic_with = None,
      effects = effects inner @ [Observe (normalizeMethod (req_method r)) (status_of (calls inner)) (elapsed_s inp),
        LogRecord (levelFor (status_of (calls inner))) ''http request'' attrs]\<rparr> \<and>
    isValidID i \<and> AInt ''status'' (status_of (calls inner)) \<in> set attrs \<and> AStr ''request_id'' i \<in> set attrs"
proof -
  let ?r = "r\<lparr>ctx_request_id := Some i\<rparr>"
  have w: "well_behaved inner" unfolding inner_def by (rule limited_well_behaved)
  then have p: "panic_with inner = None" "list_all plain_call (calls inner)" by (simp_all add: well_behaved_def)
  have m: "metrics_handler (elapsed_s inp) (limited inp c l) ?r =
      inner\<lparr>effects := effects inner @ [Observe (normalizeMethod (req_method r)) (status_of (calls inner)) (elapsed_s inp)]\<rparr>"
    using metrics_on_well_behaved [of "limited inp c l" ?r "elapsed_s inp"] w by (simp add: inner_def)
  have i: "isValidID i" by (simp add: i_def Let_def)
  then have "i \<noteq> ''''" by (auto simp: isValidID_def)
  then have ia: "id_attr ?r = [AStr ''request_id'' i]" by (simp add: id_attr_def RequestIDFrom_def)
  obtain attrs where a: "logger_handler (elapsed_ns inp) (metrics_handler (elapsed_s inp) (limited inp c l)) ?r =
      inner\<lparr>effects := effects inner @ [Observe (normalizeMethod (req_method r)) (status_of (calls inner)) (elapsed_s inp),
        LogRecord (levelFor (status_of (calls inner))) ''http request'' attrs]\<rparr>"
    "AInt ''status'' (status_of (calls inner)) \<in> set attrs" "AStr ''request_id'' i \<in> set attrs"
    using logger_on_plain [of "metrics_handler (elapsed_s inp) (limited inp c l)" ?r "elapsed_ns inp"] p m ia by auto
  define L where "L = logger_handler (elapsed_ns inp) (metrics_handler (elapsed_s inp) (limited inp c l))"
  have q: "request_id_handler (entropy inp) L r = (L ?r)\<lparr>calls := HSet canonicalHeaderName i # calls (L ?r)\<rparr>"
    by (simp add: request_id_handler_def Let_def i_def)
  then have "panic_with (request_id_handler (entropy inp) L r) = None" using a(1) p(1) by (simp add: L_def)
  then have "chain inp c l r = request_id_handler (entropy inp) L r"
    unfolding chain_def L_def [symmetric] by (rule recoverer_returns)
  also have "\<dots> = \<lparr>calls = HSet canonicalHeaderName i # calls inner, panic_with = None,
      effects = effects inner @ [Observe (normalizeMethod (req_method r)) (status_of (calls inner)) (elapsed_s inp),
        LogRecord (levelFor (status_of (calls inner))) ''http request'' attrs]\<rparr>"
    using a(1) p(1) unfolding q L_def [symmetric] by (cases inner) simp
  finally have "chain inp c l r = \<lparr>calls = HSet canonicalHeaderName i # calls inner, panic_with = None,
      effects = effects inner @ [Observe (normalizeMethod (req_method r)) (status_of (calls inner)) (elapsed_s inp),
        LogRecord (levelFor (status_of (calls inner))) ''http request'' attrs]\<rparr>" .
  then show ?thesis using i a(2,3) by blast
qed

lemma newCors_service: "\<exists>c. newCors (corsConfig k) = Return c"
  by (simp add: newCors_def corsConfig_def)

lemma operational_well_behaved:
  "panic_with (health_endpoint cs r) = None" "effects (health_endpoint cs r) = []"
  "panic_with (metrics_Handler fmt rec r) = None" "effects (metrics_Handler fmt rec r) = []"
  by (simp_all add: health_endpoint_def metrics_Handler_def Let_def)

lemma order_status:
  assumes "snd (Allow l (clock inp))" and "url_path r = ''/orders''" and "req_method r = ''POST''"
  shows "status_of (calls (limited inp c l r)) = (case submit_result inp of None \<Rightarrow> 202 | Some (SubmitCtx e) \<Rightarrow> 500 | Some _ \<Rightarrow> 503)"
proof -
  let ?order = "createOrder (submit_result inp) (body_accepted inp) (write_error inp)"
  have "limited inp c l r = cors_handler c (app_mux ?order) r"
    using assms(1) by (auto simp: limited_def limiter_Middleware_def split: prod.splits)
  moreover have "list_all plain_call (calls (app_mux ?order r))"
    using app_mux_well_behaved [OF createOrder_well_behaved] by (simp add: well_behaved_def)
  ultimately have "status_of (calls (limited inp c l r)) = status_of (calls (?order r))"
    using cors_forwards [of r "app_mux ?order" c] assms(2,3) by (simp add: app_mux_def)
  then show ?thesis
    by (auto simp: createOrder_def Let_def status_of_def serve_def fresh_response_def http_Error_def send_status_def valid_code_def
        informational_code_def body_allowed_def split: option.splits submit_err.splits)
qed

text \<open>The status of an order that the limiter admits, as the client of the whole chain sees it.\<close>

lemma root_order_status:
  assumes "snd (Allow (svc_limiter s) (clock inp))"
    and "url_path r = ''/orders''" and "req_method r = ''POST''"
  shows "status_of (calls (snd (root s c inp r))) =
    (case submit_result inp of None \<Rightarrow> 202 | Some (SubmitCtx e) \<Rightarrow> 500 | Some _ \<Rightarrow> 503)"
proof -
  obtain i where ch: "calls (chain inp c (svc_limiter s) r) =
      HSet canonicalHeaderName i # calls (limited inp c (svc_limiter s) (r\<lparr>ctx_request_id := Some i\<rparr>))"
    using chain_on_request [where inp = inp and r = r and c = c and l = "svc_limiter s"] by fastforce
  have "list_all plain_call (calls (limited inp c (svc_limiter s) (r\<lparr>ctx_request_id := Some i\<rparr>)))"
    using limited_well_behaved by (simp add: well_behaved_def)
  then have "status_of (calls (chain inp c (svc_limiter s) r)) = status_of (calls (limited inp c (svc_limiter s) (r\<lparr>ctx_request_id := Some i\<rparr>)))"
    unfolding ch by (rule status_of_header_call)
  also have "\<dots> = (case submit_result inp of None \<Rightarrow> 202 | Some (SubmitCtx e) \<Rightarrow> 500 | Some _ \<Rightarrow> 503)"
    by (rule order_status) (use assms in simp_all)
  finally show ?thesis using assms(2) by (simp add: root_def Let_def)
qed

definition demo_env :: environ where
  "demo_env = [''SERVICE_WORKERS'' \<mapsto> ''2'', ''SERVICE_BURST'' \<mapsto> ''x'']"

definition demo_inputs :: inputs where
  "demo_inputs = \<lparr>clock = 0, entropy = (\<lambda>i. 0), stack_text = '''', elapsed_ns = 5, elapsed_s = Fin 0, submit_result = None,
     body_accepted = 22, write_error = '''', conversion = amd64_conv, format_float = (\<lambda>x. '''')\<rparr>"

definition order_request :: request where
  "order_request = \<lparr>req_method = ''POST'', url_path = ''/orders'', req_header = (\<lambda>_. []), ctx_request_id = None\<rparr>"

text \<open>A malformed variable falls back to its default.\<close>

lemma demo_config: "Workers (loadConfig demo_env) = 2 \<and> QueueSize (loadConfig demo_env) = 64 \<and>
    RateLimit (loadConfig demo_env) = 20 \<and> Burst (loadConfig demo_env) = 40"
  by (simp add: loadConfig_def demo_env_def GetInt_def ParseInt_def ParseUint_def is_digit_def parse_nat_def digit_val_def
      uint64_max_def int64_defs)

lemma demo_service: "\<exists>s :: nat service. newService (loadConfig demo_env) 0 = Return s \<and> cfg s = loadConfig demo_env"
  using f64_of_int_exact [of 20] demo_config
  by (simp add: newService_def WithPanicHandler_def pool_New_def NewLimiter_def Let_def)

text \<open>
  C10. The composed service observes every application request exactly once. On any path but the
  operational ones, the chain returns; the client gets one well-formed request id; the request adds one
  log record that carries that id and one observation, both with the status the client receives, and
  the observation reaches the recorder; a request the limiter sheds is answered with 429, is logged and
  counted, and never reaches the pool; an admitted order, whatever its origin, is answered with 202, 503
  or 500 according to what the pool said. The operational paths spend no token, log nothing and count nothing.
\<close>

theorem service_observes_every_request:
  assumes "service_handler s = Return h" and "h inp r = (s', out)"
  shows "(url_path r \<notin> {''/healthz'', ''/readyz'', ''/metrics''} \<longrightarrow>
      panic_with out = None \<and>
      (\<exists>i attrs inner. isValidID i \<and> header_of (calls out) canonicalHeaderName = [i] \<and>
         effects out = inner @ [Observe (normalizeMethod (req_method r)) (status_of (calls out)) (elapsed_s inp),
           LogRecord (levelFor (status_of (calls out))) ''http request'' attrs] \<and>
         AInt ''status'' (status_of (calls out)) \<in> set attrs \<and> AStr ''request_id'' i \<in> set attrs \<and>
         (\<not> snd (Allow (svc_limiter s) (clock inp)) \<longrightarrow> status_of (calls out) = 429 \<and> inner = [])) \<and>
      svc_metrics s' = recorder_observe (normalizeMethod (req_method r)) (status_of (calls out)) (elapsed_s inp) (svc_metrics s) \<and>
      (snd (Allow (svc_limiter s) (clock inp)) \<and> url_path r = ''/orders'' \<and> req_method r = ''POST'' \<longrightarrow>
         status_of (calls out) = (case submit_result inp of None \<Rightarrow> 202 | Some (SubmitCtx e) \<Rightarrow> 500 | Some _ \<Rightarrow> 503))) \<and>
    (url_path r \<in> {''/healthz'', ''/readyz'', ''/metrics''} \<longrightarrow> s' = s \<and> effects out = [] \<and> panic_with out = None)"
proof -
  obtain c where h: "h = root s c" using assms(1) newCors_service [of "cfg s"] by (auto simp: service_handler_def)
  define i where "i = (let i0 = header_Get (req_header r) canonicalHeaderName in if isValidID i0 then i0 else generateID (entropy inp))"
  define inner where "inner = limited inp c (svc_limiter s) (r\<lparr>ctx_request_id := Some i\<rparr>)"
  have w: "well_behaved inner" unfolding inner_def by (rule limited_well_behaved)
  obtain attrs where ch: "chain inp c (svc_limiter s) r = \<lparr>calls = HSet canonicalHeaderName i # calls inner, panic_with = None,
      effects = effects inner @ [Observe (normalizeMethod (req_method r)) (status_of (calls inner)) (elapsed_s inp),
        LogRecord (levelFor (status_of (calls inner))) ''http request'' attrs]\<rparr>"
    and at: "isValidID i" "AInt ''status'' (status_of (calls inner)) \<in> set attrs" "AStr ''request_id'' i \<in> set attrs"
    using chain_on_request [where inp = inp and r = r and c = c and l = "svc_limiter s"] unfolding i_def inner_def by blast
  have st: "status_of (HSet canonicalHeaderName i # calls inner) = status_of (calls inner)"
    using w by (intro status_of_header_call) (simp add: well_behaved_def)
  have "header_of ([HSet canonicalHeaderName i] @ calls inner) canonicalHeaderName =
      hdr (fold rw_call [HSet canonicalHeaderName i] fresh_response) canonicalHeaderName"
    using w by (intro header_of_untouched) (simp_all add: header_call_def well_behaved_def)
  then have hd: "header_of (HSet canonicalHeaderName i # calls inner) canonicalHeaderName = [i]" by simp
  have sh: "status_of (calls inner) = 429 \<and> effects inner = []" if "\<not> snd (Allow (svc_limiter s) (clock inp))"
    using limited_shed [OF that, of c] shed_response [of "conversion inp" "svc_limiter s"] by (simp add: inner_def shed_def)
  have od: "status_of (calls inner) = (case submit_result inp of None \<Rightarrow> 202 | Some (SubmitCtx e) \<Rightarrow> 500 | Some _ \<Rightarrow> 503)"
    if "snd (Allow (svc_limiter s) (clock inp))" "url_path r = ''/orders''" "req_method r = ''POST''"
    unfolding inner_def by (rule order_status) (use that in simp_all)
  have app: ?thesis if p: "url_path r \<notin> {''/healthz'', ''/readyz'', ''/metrics''}"
  proof -
    have out: "out = chain inp c (svc_limiter s) r" "svc_metrics s' = record_effects (effects out) (svc_metrics s)"
      using assms(2) p unfolding h by (auto simp: root_def Let_def)
    have "svc_metrics s' = recorder_observe (normalizeMethod (req_method r)) (status_of (calls inner)) (elapsed_s inp) (svc_metrics s)"
      using w by (simp add: out ch record_effects_log_only well_behaved_def) (simp add: record_effects_def)
    moreover have "calls out = HSet canonicalHeaderName i # calls inner" "panic_with out = None"
      "effects out = effects inner @ [Observe (normalizeMethod (req_method r)) (status_of (calls out)) (elapsed_s inp),
        LogRecord (levelFor (status_of (calls out))) ''http request'' attrs]"
      by (simp_all add: out(1) ch st)
    ultimately show ?thesis using p at hd sh od st by metis
  qed
  have "s' = s \<and> effects out = [] \<and> panic_with out = None" if "url_path r \<in> {''/healthz'', ''/readyz'', ''/metrics''}"
    using assms(2) that unfolding h root_def by (auto simp: recoverer_returns operational_well_behaved)
  then show ?thesis using app by blast
qed

theorem service_observes_every_request_witness:
  "\<exists>(s :: nat service) h s' out i. newService (loadConfig demo_env) 0 = Return s \<and> service_handler s = Return h \<and>
     h demo_inputs order_request = (s', out) \<and> panic_with out = None \<and> isValidID i \<and>
     header_of (calls out) canonicalHeaderName = [i]"
proof -
  obtain s :: "nat service" where s: "newService (loadConfig demo_env) 0 = Return s" using demo_service by blast
  obtain h where h: "service_handler s = Return h" using newCors_service [of "cfg s"] by (auto simp: service_handler_def)
  obtain s' out where r: "h demo_inputs order_request = (s', out)" by (cases "h demo_inputs order_request")
  have "url_path order_request \<notin> {''/healthz'', ''/readyz'', ''/metrics''}" by (simp add: order_request_def)
  then show ?thesis using service_observes_every_request [OF h r] s h r by blast
qed

text \<open>
  Settings out of range are not malformed: they parse, and the service does not start with them.
\<close>

lemma out_of_range_setting_panics:
  assumes "env ''SERVICE_WORKERS'' = Some ''0''"
  shows "newService (loadConfig env) now = Panic ''workerpool: workers must be > 0''"
  using assms by (simp add: newService_def loadConfig_def GetInt_def ParseInt_def ParseUint_def is_digit_def parse_nat_def
      digit_val_def uint64_max_def int64_defs WithPanicHandler_def pool_New_def)

text \<open>
  A panic inside the chain is logged by the request logger with the status recorded so far, although the
  client receives the 500 of the outermost decorator, and no observation is made of it.
\<close>

lemma panic_logged_as_success:
  assumes "h (r\<lparr>ctx_request_id := Some i\<rparr>) = \<lparr>calls = [], panic_with = Some (OtherPanic v), effects = []\<rparr>"
    and "i = header_Get (req_header r) canonicalHeaderName" and "isValidID i"
  shows "\<exists>attrs rec. effects (recoverer_handler st (request_id_handler g (logger_handler el (metrics_handler secs h))) r) =
      [LogRecord LevelInfo ''http request'' attrs, rec] \<and> AInt ''status'' 200 \<in> set attrs \<and>
    status_of (calls (recoverer_handler st (request_id_handler g (logger_handler el (metrics_handler secs h))) r)) = 500"
  using assms
  by (simp add: recoverer_handler_def request_id_handler_def logger_handler_def metrics_handler_def Let_def new_recorder_def
      levelFor_def status_of_def serve_def fresh_response_def http_Error_def)

end
