(* ===== verification/Orders.thy ===== *)
theory Orders
  imports Service
begin

text \<open>
  The order path of the example service across its components: the HTTP handler, the non-blocking pool
  that \<open>newService\<close> builds, and the \<open>Close\<close> call its shutdown makes. An order is identified with the
  \<open>Submit\<close> call its request makes; what \<open>Submit\<close> returned to the request is the request's
  \<open>submit_result\<close>.
\<close>

section \<open>The pool of the service\<close>

text \<open>The system of the service's pool when \<open>newService\<close> returns.\<close>

definition service_system :: "'tk service \<Rightarrow> 'tk pool_sys" where
  "service_system s = \<lparr>pool = fst (svc_pool s), goroutines = snd (svc_pool s), submits = (\<lambda>_. SNotCalled),
     closes = (\<lambda>_. CNotCalled), ctx_done = (\<lambda>_. None), crashed = None, admitted = [], started = [], finished = []\<rparr>"

definition sheltered :: "'tk pool_sys \<Rightarrow> bool" where
  "sheltered s \<longleftrightarrow> nonBlock (pool s) \<and> onPanic (pool s) = Some (\<lambda>m. Return ()) \<and> crashed s = None \<and>
     (\<forall>tk e. submits s tk \<noteq> SReturned (Some (SubmitCtx e)))"

lemma newService_pool:
  assumes "newService c now = Return s"
  shows "pool_start (Workers c) (QueueSize c) (service_system s) \<and> sheltered (service_system s)"
proof -
  let ?opt = "\<lambda>p :: 'a pool. p\<lparr>onPanic := Some (\<lambda>m. Return ())\<rparr>"
  have n: "pool_New (Workers c) (QueueSize c) [WithNonBlockingSubmit, ?opt] = Return (svc_pool s)"
    using assms
    by (cases "pool_New (Workers c) (QueueSize c) [WithNonBlockingSubmit, ?opt]";
        cases "NewLimiter (f64_of_int (RateLimit c)) (Burst c) now")
      (auto simp: newService_def WithPanicHandler_def)
  have "WithPanicHandler (Some (\<lambda>m. Return ())) = Return ?opt" by (simp add: WithPanicHandler_def)
  then have "\<forall>opt \<in> set [WithNonBlockingSubmit, ?opt]. pool_option opt"
    unfolding pool_option_def by force
  with n have "pool_start (Workers c) (QueueSize c) (service_system s)"
    unfolding pool_start_def service_system_def by (metis prod.collapse)
  moreover have "sheltered (service_system s)"
    using n by (cases "svc_pool s") (auto simp: sheltered_def service_system_def pool_New_def WithNonBlockingSubmit_def Let_def split: if_splits)
  ultimately show ?thesis by blast
qed

text \<open>No task can bring the process down, and no \<open>Submit\<close> waits for its context.\<close>

lemma sheltered_step:
  assumes "pool_step s t" and "sheltered s" and "control_inv s"
  shows "sheltered t"
  using assms(1)
proof cases
  case step_submit
  from step_submit(2) show ?thesis
    by cases (use assms(2,3) in \<open>auto simp: sheltered_def control_inv_def chan_simps\<close>)
next
  case step_worker
  from step_worker(2) show ?thesis
    by cases (use assms(2) in \<open>auto simp: sheltered_def run_def split: go.splits\<close>)
next
  case step_close
  from step_close(2) show ?thesis
    by cases (use assms(2,3) in \<open>auto simp: sheltered_def control_inv_def chan_simps\<close>)
next
  case (step_ctx x e)
  then show ?thesis using assms(2) by (simp add: sheltered_def)
qed

interpretation service_pool: step_invariant "\<lambda>s. pool_start n q s \<and> sheltered s" pool_step
  "\<lambda>s. tasks_inv n q s \<and> control_inv s \<and> sheltered s" for n q
  by unfold_locales (use pool_start_inv pool_step_inv sheltered_step in blast)+

lemma Submit_returned_final: "pool_step\<^sup>*\<^sup>* s t \<Longrightarrow> submits s tk = SReturned x \<Longrightarrow> submits t tk = SReturned x"
proof (induction rule: rtranclp_induct)
  case (step t u)
  then show ?case
    by (auto elim!: pool_step.cases submit_step.cases close_step.cases dest: worker_step_frame)
qed simp

text \<open>In a non-blocking pool a \<open>Submit\<close> that holds the lock returns by a step of its own.\<close>

lemma Submit_does_not_block:
  assumes "control_inv s" and "nonBlock (pool s)" and "submits s tk = SSelect x"
  shows "\<exists>t r. submit_step s t \<and> submits t tk = SReturned r"
proof (cases "chan_send (queue (pool s)) tk")
  case None
  then show ?thesis using Submit_full [OF assms(3,2)] by fastforce
next
  case (Some y)
  then obtain ch where "y = Return ch"
    using assms(1,3) by (cases y) (auto simp: chan_simps control_inv_def)
  then show ?thesis using Submit_send [OF assms(3)] Some by fastforce
qed

lemma drained_dispatches:
  assumes "tasks_inv n q s" and "mset (finished s) = mset (admitted s)" and "submits s tk = SReturned None"
  shows "count_list (finished s) tk = 1"
proof -
  have "distinct (admitted s)" "tk \<in> set (admitted s)" using assms(1,3) by (simp_all add: tasks_inv_def)
  then have "count_list (admitted s) tk = 1" by (simp add: distinct_count_atmost_1 flip: count_mset)
  then show ?thesis using assms(2) by (metis count_mset)
qed

text \<open>A task whose \<open>Submit\<close> did not return nil has not been taken by a worker.\<close>

lemma refused_never_starts: "tasks_inv n q s \<Longrightarrow> submits s tk \<noteq> SReturned None \<Longrightarrow> tk \<notin> set (started s)"
  unfolding tasks_inv_def by (metis Un_iff set_append)

lemma drain_is_run: "drain_step\<^sup>*\<^sup>* s t \<Longrightarrow> pool_step\<^sup>*\<^sup>* s t"
  by (rule rtranclp_mono [THEN predicate2D]) (auto simp: drain_step_def intro: step_worker)

text \<open>A \<open>Submit\<close> that begins after the pool was closed can only return \<open>ErrClosed\<close>.\<close>

lemma late_Submit:
  "pool_step\<^sup>*\<^sup>* s t \<Longrightarrow> closed (pool s) \<Longrightarrow> submits s tk = SNotCalled \<Longrightarrow>
   closed (pool t) \<and> (submits t tk = SReturned x \<longrightarrow> x = Some ErrClosed) \<and> (\<forall>y. submits t tk \<noteq> SSelect y)"
proof (induction rule: rtranclp_induct)
  case (step t u)
  then have t: "closed (pool t)" "submits t tk = SReturned x \<longrightarrow> x = Some ErrClosed" "\<forall>y. submits t tk \<noteq> SSelect y" by blast+
  from step(2) show ?case
  proof cases
    case step_submit
    from step_submit(2) show ?thesis by cases (use t in \<open>auto split: if_splits\<close>)
  next
    case step_worker
    then show ?thesis using t worker_step_frame [of t u] by simp
  next
    case step_close
    from step_close(2) show ?thesis by cases (use t in auto)
  qed (use t in simp)
qed simp

section \<open>Properties\<close>

text \<open>
  C5. An accepted order is dispatched exactly once. For the service that \<open>newService\<close> builds and any
  interleaving of requests, workers, contexts and shutdown: no task can bring the process down and no
  \<open>Submit\<close> blocks on the queue. An order that passes the limiter, whatever the origin it declares, is
  answered with 202 or 503, never with 500. After a 202 its task has run exactly once when the pool's \<open>Close\<close> has returned nil, and once the
  pool is closed the workers' own steps get there. After a 503 its task never runs; and an order whose
  \<open>Submit\<close> begins after the pool was closed is answered with 503.
\<close>

theorem orders_dispatched_exactly_once:
  assumes "newService cf now = Return svc" and "pool_step\<^sup>*\<^sup>* (service_system svc) s"
    and "service_handler svc' = Return h" and "snd (Allow (svc_limiter svc') (clock inp))"
    and "url_path r = ''/orders''" and "req_method r = ''POST''"
    and "submits s tk = SReturned (submit_result inp)" and "code = status_of (calls (snd (h inp r)))"
  shows "crashed s = None \<and> (\<forall>tk' x. submits s tk' = SSelect x \<longrightarrow> (\<exists>t res. submit_step s t \<and> submits t tk' = SReturned res)) \<and>
    code \<in> {202, 503} \<and>
    (code = 202 \<longrightarrow> (\<forall>t c. pool_step\<^sup>*\<^sup>* s t \<and> closes t c = CReturned None \<longrightarrow> count_list (finished t) tk = 1)) \<and>
    (code = 202 \<and> closed (pool s) \<longrightarrow> ends_within drain_step (\<lambda>t. drained t \<and> count_list (finished t) tk = 1) (pool_work s) s) \<and>
    (code = 503 \<longrightarrow> (\<forall>t. pool_step\<^sup>*\<^sup>* s t \<longrightarrow> tk \<notin> set (started t))) \<and>
    (\<forall>t. closed (pool t) \<and> submits t tk = SNotCalled \<and> pool_step\<^sup>*\<^sup>* t s \<longrightarrow> code = 503)"
proof -
  let ?n = "Workers cf" and ?q = "QueueSize cf"
  have i: "tasks_inv ?n ?q s \<and> control_inv s \<and> sheltered s"
    using service_pool.inv_reachable [OF newService_pool [OF assms(1)] assms(2)] .
  then have later: "tasks_inv ?n ?q t \<and> control_inv t" if "pool_step\<^sup>*\<^sup>* s t" for t
    using pool_steps.inv_steps [OF that] by blast
  obtain k where h: "h = root svc' k" using assms(3) newCors_service [of "cfg svc'"] by (auto simp: service_handler_def)
  have code: "code = (case submit_result inp of None \<Rightarrow> 202 | Some (SubmitCtx e) \<Rightarrow> 500 | Some _ \<Rightarrow> 503)"
    unfolding assms(8) h by (rule root_order_status [OF assms(4-6)])
  have "submit_result inp \<noteq> Some (SubmitCtx e)" for e using i assms(7) by (auto simp: sheltered_def)
  then have c: "code \<in> {202, 503}" "code = 202 \<longleftrightarrow> submits s tk = SReturned None"
    using code assms(7) by (auto split: option.splits submit_err.splits)
  have once: "count_list (finished t) tk = 1"
    if "code = 202" "pool_step\<^sup>*\<^sup>* s t" "mset (finished t) = mset (admitted t)" for t
    using drained_dispatches [of ?n ?q t tk] later [OF that(2)] that(3) Submit_returned_final [OF that(2), of tk None] c(2) that(1) by simp
  have closed_once: "count_list (finished t) tk = 1" if "code = 202" "pool_step\<^sup>*\<^sup>* s t" "closes t c = CReturned None" for t c
    using once [OF that(1,2)] Close_nil_drained [of ?n ?q t c] later [OF that(2)] that(3) by (simp add: drained_def)
  have d: "draining ?n ?q s" if "closed (pool s)" using that i by (auto simp: draining_def sheltered_def)
  have ends: "ends_within drain_step (\<lambda>t. drained t \<and> count_list (finished t) tk = 1) (pool_work s) s"
    if "code = 202 \<and> closed (pool s)"
  proof (rule ends_within_mono)
    show "ends_within drain_step drained (pool_work s) s" using drain.ends d that by blast
  qed (use that once drain_is_run [of s] in \<open>simp add: drained_def\<close>)
  have never: "tk \<notin> set (started t)" if "code = 503" "pool_step\<^sup>*\<^sup>* s t" for t
  proof -
    have "submits t tk \<noteq> SReturned None" using Submit_returned_final [OF that(2) assms(7)] that(1) code by (auto split: option.splits)
    then show ?thesis using later [OF that(2)] by (metis refused_never_starts)
  qed
  have late: "code = 503" if "closed (pool t)" "submits t tk = SNotCalled" "pool_step\<^sup>*\<^sup>* t s" for t
    using late_Submit [OF that(3,1,2)] assms(7) code by fastforce
  have "\<exists>t res. submit_step s t \<and> submits t tk' = SReturned res" if "submits s tk' = SSelect x" for tk' x
    using Submit_does_not_block [OF _ _ that] i by (simp add: sheltered_def)
  then show ?thesis
    using i c(1) ends never late closed_once by (simp add: sheltered_def) blast
qed

text \<open>The first order of a fresh service: a worker takes it at once.\<close>

lemma first_order:
  assumes "newService c now = Return svc"
  shows "\<exists>s. pool_step\<^sup>*\<^sup>* (service_system svc) s \<and> submits s = (\<lambda>_. SNotCalled)(tk := SReturned None) \<and>
    started s = [tk] \<and> closes s = (\<lambda>_. CNotCalled) \<and> \<not> closed (pool s)"
proof -
  let ?s = "service_system svc"
  let ?u = "?s\<lparr>submits := (submits ?s)(tk := SSelect 0)\<rparr>"
  have f: "0 < Workers c" "queue (pool ?s) = make_chan (nat (QueueSize c))" "\<not> closed (pool ?s)"
    "goroutines ?s = replicate (nat (Workers c)) WIdle"
    using pool_start_fresh newService_pool [OF assms] by blast+
  have sel: "pool_step\<^sup>*\<^sup>* ?s ?u"
    using f(3) by (intro demo_submit) (simp_all add: service_system_def)
  have "\<exists>t. submit_step ?u t \<and> submits t = (submits ?u)(tk := SReturned None) \<and> started t = started ?s @ [tk] \<and>
      closes t = closes ?s \<and> pool t = pool ?s"
    using Submit_handoff [of ?u tk 0 0] f by (fastforce simp: make_chan_def)
  then obtain t where t: "submit_step ?u t" "submits t = (\<lambda>_. SNotCalled)(tk := SReturned None)" "started t = [tk]"
    "closes t = (\<lambda>_. CNotCalled)" "\<not> closed (pool t)"
    using f(3) by (auto simp: service_system_def)
  have "pool_step ?u t" using t(1) by (intro step_submit) (simp add: service_system_def)
  then show ?thesis using sel t(2-5) by (meson rtranclp.rtrancl_into_rtrancl)
qed

text \<open>A \<open>Close\<close> made while no \<open>Submit\<close> holds the lock can drain the pool and return nil.\<close>

lemma Close_can_drain:
  assumes i: "tasks_inv n q s" "control_inv s" and "crashed s = None" and "\<not> closed (pool s)"
    and "\<forall>tk. \<not> read_locked (submits s tk)" and "closes s c = CNotCalled"
  shows "\<exists>t. pool_step\<^sup>*\<^sup>* s t \<and> closes t c = CReturned None \<and> submits t = submits s"
proof -
  define s1 where "s1 = s\<lparr>closes := (closes s)(c := CWaitLock 0)\<rparr>"
  obtain ch where ch: "chan_close (queue (pool s)) = Return ch"
    using i(2) assms(4) by (auto simp: control_inv_def chan_simps)
  define s2 where "s2 = s1\<lparr>closes := (closes s1)(c := CWaiting 0), pool := (pool s1)\<lparr>closed := True, queue := ch\<rparr>\<rparr>"
  have "pool_step s s1" unfolding s1_def using assms by (intro step_close Close_call) simp_all
  moreover have "pool_step s1 s2"
    unfolding s2_def using assms ch by (intro step_close Close_first) (simp_all add: s1_def)
  ultimately have s2: "pool_step\<^sup>*\<^sup>* s s2" by (meson rtranclp.simps)
  have d: "draining n q s2"
    using pool_steps.inv_steps [OF s2, of n q] i assms(3) by (simp add: draining_def) (simp add: s2_def s1_def)
  obtain t where t: "drain_step\<^sup>*\<^sup>* s2 t" "drained t" using drain.final_reached [OF d] by blast
  have dt: "draining n q t" using drain.progress_invs [OF t(1) d] .
  have sub: "submits t = submits s"
    using t(1) by (induction rule: rtranclp_induct) (auto simp: s2_def s1_def drain_step_def dest: worker_step_frame)
  have "pool_step t (t\<lparr>closes := (closes t)(c := CReturned None), pool := (pool t)\<lparr>hard_stopped := True\<rparr>\<rparr>)"
    using dt drained_no_workers [OF dt t(2)] drain_keeps_closes [OF t(1)]
    by (intro step_close Close_drained) (auto simp: draining_def s2_def s1_def)
  then have "pool_step\<^sup>*\<^sup>* s (t\<lparr>closes := (closes t)(c := CReturned None), pool := (pool t)\<lparr>hard_stopped := True\<rparr>\<rparr>)"
    using s2 drain_is_run [OF t(1)] by (meson rtranclp.rtrancl_into_rtrancl rtranclp_trans)
  with sub show ?thesis by (intro exI [of _ "t\<lparr>closes := (closes t)(c := CReturned None), pool := (pool t)\<lparr>hard_stopped := True\<rparr>\<rparr>"]) simp
qed

lemma fresh_limiter_allows: "snd (Allow \<lparr>rate = r, burst = b, tokens = Fin 40, last_time = now\<rparr> now)"
  by (simp add: Allow_def advance_def Let_def)

theorem orders_dispatched_exactly_once_witness:
  "\<exists>(svc :: nat service) h s. newService (loadConfig demo_env) 0 = Return svc \<and> service_handler svc = Return h \<and>
     pool_step\<^sup>*\<^sup>* (service_system svc) s \<and> started s = [7] \<and> crashed s = None \<and>
     status_of (calls (snd (h demo_inputs
       (order_request\<lparr>req_header := (\<lambda>k. if k = headerOrigin then [''https://elsewhere.example''] else [])\<rparr>)))) = 202"
proof -
  let ?r = "order_request\<lparr>req_header := (\<lambda>k. if k = headerOrigin then [''https://elsewhere.example''] else [])\<rparr>"
  obtain svc :: "nat service" where svc: "newService (loadConfig demo_env) 0 = Return svc" using demo_service by blast
  obtain h where h: "service_handler svc = Return h" using newCors_service [of "cfg svc"] by (auto simp: service_handler_def)
  obtain s where s: "pool_step\<^sup>*\<^sup>* (service_system svc) s" "submits s 7 = SReturned None" "started s = [7]"
    using first_order [OF svc, of 7] by auto
  have "svc_limiter svc = \<lparr>rate = Fin 20, burst = Fin 40, tokens = Fin 40, last_time = 0\<rparr>"
    using svc f64_of_int_exact [of 20] f64_of_int_exact [of 40] demo_config
    by (auto simp: newService_def WithPanicHandler_def pool_New_def NewLimiter_def Let_def)
  then have a: "snd (Allow (svc_limiter svc) (clock demo_inputs))"
    using fresh_limiter_allows by (simp add: demo_inputs_def)
  have sub: "submits s 7 = SReturned (submit_result demo_inputs)" using s(2) by (simp add: demo_inputs_def)
  note ord = orders_dispatched_exactly_once [OF svc s(1) h a _ _ sub refl, of ?r]
  have "crashed s = None" "status_of (calls (snd (h demo_inputs ?r))) \<in> {202, 503}"
    "status_of (calls (snd (h demo_inputs ?r))) = 503 \<longrightarrow> 7 \<notin> set (started s)"
    using ord by (simp_all add: order_request_def header_Get_def)
  then show ?thesis using svc h s by auto
qed

end
