(* ===== verification/ServiceMain.thy ===== *)
theory ServiceMain
  imports Lifecycle Logger Orders
begin

text \<open>
  The example service's \<open>main\<close>: what it builds before it listens, the hooks it registers, what the end of
  the listener does, and the wait for the shutdown signal.
\<close>

section \<open>Startup\<close>

datatype hook = PoolClose | ServerShutdown

datatype signal = Interrupt | SIGTERM

text \<open>The module's version and the service's name, stamped on every log line.\<close>

definition Version :: string where "Version = ''2.0.1''"

definition serviceName :: string where "serviceName = ''example-service''"

definition main_logger :: "'w \<Rightarrow> config \<Rightarrow> 'w Logger.options" where
  "main_logger stdout c =
     NewStructured stdout
       [WithLevel (Some (if Debug c then slog_LevelDebug else slog_LevelInfo)),
        WithAttrs [FString ''service'' serviceName, FString ''egl_utils_version'' Version]]"

definition main_hooks :: "(hook, 'e) coordinator go" where
  "main_hooks = go_bind (Register (Some PoolClose) std) (Register (Some ServerShutdown))"

text \<open>Everything before the listener starts.\<close>

definition main_start ::
  "'w \<Rightarrow> environ \<Rightarrow> instant \<Rightarrow> ('w Logger.options \<times> 'tk service \<times> (hook, 'e) coordinator) go" where
  "main_start stdout env now =
     (let c = loadConfig env; lg = main_logger stdout c in
      go_bind (newService c now) (\<lambda>s.
      go_bind (service_handler s) (\<lambda>h.
      go_bind main_hooks (\<lambda>co. Return (lg, s, co)))))"

section \<open>Running\<close>

text \<open>How \<open>ListenAndServe\<close> ended: because of \<open>Shutdown\<close>, or with another error, which triggers the shutdown.\<close>

datatype listen_end = ErrServerClosed | ListenError string

definition listener_ended :: "listen_end \<Rightarrow> (hook, 'e) coordinator \<Rightarrow> (hook, 'e) coordinator go" where
  "listener_ended e co = (case e of ErrServerClosed \<Rightarrow> Return co | ListenError m \<Rightarrow> Trigger co)"

definition main_wait :: "config \<Rightarrow> instant \<Rightarrow> 'e list \<Rightarrow> (signal, 'e) wait_action list go" where
  "main_wait c now err = WaitForSignals [] (ShutdownGrace c) [Interrupt, SIGTERM] now err"

section \<open>Properties of the composition\<close>

text \<open>The server stops before the pool drains: hooks run in reverse order of registration.\<close>

lemma server_stops_before_pool: "\<exists>c. main_hooks = Return c \<and> rev (hooks c) = [ServerShutdown, PoolClose]"
  by (simp add: main_hooks_def Register_def register_def std_def newCoordinator_def)

text \<open>A listener that fails wakes the wait for signals; a stopped one does not, and waking twice is harmless.\<close>

lemma listener_failure_triggers:
  assumes "main_hooks = Return co"
  shows "\<exists>c1. listener_ended (ListenError m) co = Return c1 \<and> chan_closed (triggered c1) \<and> listener_ended (ListenError m') c1 = Return c1"
    and "listener_ended ErrServerClosed co = Return co"
  using assms
  by (auto simp: main_hooks_def Register_def register_def std_def newCoordinator_def listener_ended_def Trigger_def trigger_def chan_close_def make_chan_def)

text \<open>A negative grace period, which the environment reader accepts, makes the wait panic.\<close>

lemma negative_grace_panics: "ShutdownGrace c < 0 \<Longrightarrow> main_wait c now err = Panic ''lifecycle: negative shutdown timeout''"
  by (simp add: main_wait_def WaitForSignals_def)

text \<open>With every setting at its default the service starts.\<close>

lemma default_configuration_starts: "\<exists>lg (s :: nat service) co. main_start w Map.empty now = Return (lg, s, co)"
proof -
  have c: "loadConfig Map.empty = \<lparr>Addr = '':8080'', Debug = False, Workers = 4, QueueSize = 64, RateLimit = 20, Burst = 40,
      AllowedOrigin = ''https://app.example.com'', ShutdownGrace = 15000000000\<rparr>"
    by (simp add: loadConfig_def GetDefault_def GetBool_def GetInt_def GetDuration_def)
  have "\<exists>s :: nat service. newService (loadConfig Map.empty) now = Return s"
    using f64_of_int_exact [of 20]
    by (simp add: c newService_def WithPanicHandler_def pool_New_def NewLimiter_def Let_def)
  then obtain s :: "nat service" where s: "newService (loadConfig Map.empty) now = Return s" by blast
  obtain h where h: "service_handler s = Return h" using newCors_service [of "cfg s"] by (auto simp: service_handler_def)
  show ?thesis using s h by (simp add: main_start_def main_hooks_def Register_def register_def std_def newCoordinator_def Let_def)
qed

text \<open>
  The stop of the process: whatever the two hooks return, the server is stopped before the pool is closed,
  both run, the wait logs exactly the errors they returned, in that order, and stops listening for signals
  last. A shutdown that was already made is not made again.
\<close>

lemma graceful_stop:
  assumes "main_hooks = Return co" and "call ServerShutdown = Return a" and "call PoolClose = Return b"
  defines "errs \<equiv> errors_of [(ServerShutdown, a), (PoolClose, b)]"
  shows "\<exists>co'. Shutdown call co = Some (Return (co', errs)) \<and> Shutdown call' co' = Some (Return (co', errs)) \<and>
    (0 \<le> ShutdownGrace c \<longrightarrow> (\<exists>d. main_wait c now errs =
       Return ([Notify [Interrupt, SIGTERM], Woken, ShutdownWith d] @ (if errs \<noteq> [] then [LogError errs] else []) @ [StopSignal])))"
proof -
  have co: "co = newCoordinator\<lparr>hooks := [PoolClose, ServerShutdown]\<rparr>"
    using assms(1) by (auto simp: main_hooks_def Register_def register_def std_def newCoordinator_def)
  have "run_hooks call [ServerShutdown, PoolClose] [] = Return errs"
    using assms(2,3) errors_of_append [of "[(ServerShutdown, a)]" PoolClose b] errors_of_append [of "[]" ServerShutdown a]
    by (simp add: errs_def)
  then have s: "\<exists>co'. shutdown call co = Some (Return (co', errs))"
    by (simp add: shutdown_def co newCoordinator_def make_chan_def chan_close_def)
  then obtain co' where co': "shutdown call co = Some (Return (co', errs))" by blast
  have "buf (coordinator.finished co) = []" by (simp add: co newCoordinator_def make_chan_def)
  then have "shutdown call' co' = Some (Return (co', errs))" by (rule shutdown_again [OF co'])
  then show ?thesis using co' by (auto simp: Shutdown_def main_wait_def WaitForSignals_def Let_def)
qed

text \<open>What \<open>main_start\<close> built.\<close>

lemma main_start_service:
  assumes "main_start w env now = Return (lg, svc, co)"
  shows "newService (loadConfig env) now = Return svc" and "main_hooks = Return co"
  using assms unfolding main_start_def Let_def go_bind_eq_Return by auto

text \<open>
  C22. A clean stop loses no accepted order. Take the service and the hooks that \<open>main\<close> builds, any
  interleaving of its requests, workers and contexts up to a state in which the pool's \<open>Close\<close>, which the
  first hook is, has returned, and whatever the server's own shutdown returned. Then the shutdown
  sequence returns and a repeated one returns the same, no task has brought the process down, and the
  wait logs an error exactly if a hook returned one. If it logs none, every worker has exited, every order
  whose \<open>Submit\<close> returned nil has been dispatched exactly once, an order that was refused has not been,
  and any later \<open>Submit\<close> is refused.
\<close>

theorem clean_stop_loses_no_order:
  assumes "main_start w env now = Return (lg, svc, co)" and "pool_step\<^sup>*\<^sup>* (service_system svc) t"
    and "closes t c = CReturned r" and "call PoolClose = Return r" and "call ServerShutdown = Return a"
  shows "\<exists>co' errs. Shutdown call co = Some (Return (co', errs)) \<and> Shutdown call' co' = Some (Return (co', errs)) \<and>
    crashed t = None \<and>
    (0 \<le> ShutdownGrace (loadConfig env) \<longrightarrow> (\<exists>acts. main_wait (loadConfig env) woken errs = Return acts \<and>
       ((\<exists>es. LogError es \<in> set acts) \<longleftrightarrow> a \<noteq> None \<or> r \<noteq> None))) \<and>
    (errs = [] \<longrightarrow> (\<forall>g \<in> set (goroutines t). g = WExited) \<and>
       (\<forall>tk. submits t tk = SReturned None \<longrightarrow> count_list (finished t) tk = 1) \<and>
       (\<forall>tk e. submits t tk = SReturned (Some e) \<longrightarrow> tk \<notin> set (started t)) \<and>
       (\<forall>u tk x. pool_step\<^sup>*\<^sup>* t u \<and> submits t tk = SNotCalled \<and> submits u tk = SReturned x \<longrightarrow> x = Some ErrClosed))"
proof -
  let ?n = "Workers (loadConfig env)" and ?q = "QueueSize (loadConfig env)"
  let ?errs = "errors_of [(ServerShutdown, a), (PoolClose, r)]"
  note m = main_start_service [OF assms(1)]
  have i: "tasks_inv ?n ?q t" "control_inv t" "sheltered t"
    using service_pool.inv_reachable [OF newService_pool [OF m(1)] assms(2)] by blast+
  have e: "?errs = [] \<longleftrightarrow> a = None \<and> r = None"
    by (cases a; cases r) (simp_all add: errors_of_def map_filter_def)
  obtain co' where co': "Shutdown call co = Some (Return (co', ?errs))" "Shutdown call' co' = Some (Return (co', ?errs))"
    "0 \<le> ShutdownGrace (loadConfig env) \<longrightarrow> (\<exists>d. main_wait (loadConfig env) woken ?errs =
       Return ([Notify [Interrupt, SIGTERM], Woken, ShutdownWith d] @ (if ?errs \<noteq> [] then [LogError ?errs] else []) @ [StopSignal]))"
    using graceful_stop [OF m(2) assms(5,4)] by blast
  have w: "0 \<le> ShutdownGrace (loadConfig env) \<longrightarrow> (\<exists>acts. main_wait (loadConfig env) woken ?errs = Return acts \<and>
       ((\<exists>es. LogError es \<in> set acts) \<longleftrightarrow> a \<noteq> None \<or> r \<noteq> None))"
    using co'(3) e by auto
  have d: "drained t" "closed (pool t)" if "r = None"
    using Close_nil_drained [OF i(1,2)] assms(3) i(2) that by (auto simp: control_inv_def)
  have clean: "(\<forall>g \<in> set (goroutines t). g = WExited) \<and>
       (\<forall>tk. submits t tk = SReturned None \<longrightarrow> count_list (finished t) tk = 1) \<and>
       (\<forall>tk e. submits t tk = SReturned (Some e) \<longrightarrow> tk \<notin> set (started t)) \<and>
       (\<forall>u tk x. pool_step\<^sup>*\<^sup>* t u \<and> submits t tk = SNotCalled \<and> submits u tk = SReturned x \<longrightarrow> x = Some ErrClosed)"
    if "?errs = []"
  proof (intro conjI allI impI)
    have r: "r = None" using that e by blast
    show "\<forall>g \<in> set (goroutines t). g = WExited" using d(1) [OF r] by (simp add: drained_def)
    show "count_list (finished t) tk = 1" if "submits t tk = SReturned None" for tk
      using drained_dispatches [OF i(1) _ that] d(1) [OF r] by (simp add: drained_def)
    show "tk \<notin> set (started t)" if "submits t tk = SReturned (Some e)" for tk e
      using refused_never_starts [OF i(1)] that by simp
    show "x = Some ErrClosed"
      if "pool_step\<^sup>*\<^sup>* t u \<and> submits t tk = SNotCalled \<and> submits u tk = SReturned x" for u tk x
      using late_Submit [of t u tk x] d(2) [OF r] that by blast
  qed
  have "crashed t = None" using i(3) by (simp add: sheltered_def)
  note parts = conjI [OF co'(1) conjI [OF co'(2) conjI [OF this conjI [OF w impI]]]]
  show ?thesis by (rule exI, rule exI, rule parts, rule clean)
qed

text \<open>One order against the default configuration, then a stop.\<close>

theorem clean_stop_loses_no_order_witness:
  "\<exists>lg (svc :: nat service) (co :: (hook, ctx_err) coordinator) t co'. main_start (0 :: nat) Map.empty 0 = Return (lg, svc, co) \<and>
     pool_step\<^sup>*\<^sup>* (service_system svc) t \<and>
     Shutdown (\<lambda>_. Return None) co = Some (Return (co', [])) \<and> count_list (finished t) 7 = 1"
proof -
  obtain lg and svc :: "nat service" and co :: "(hook, ctx_err) coordinator" where m: "main_start (0 :: nat) Map.empty 0 = Return (lg, svc, co)"
    using default_configuration_starts [of "0 :: nat" 0] by blast
  obtain s where s: "pool_step\<^sup>*\<^sup>* (service_system svc) s" "submits s = (\<lambda>_. SNotCalled)(7 := SReturned None)"
    "closes s = (\<lambda>_. CNotCalled)" "\<not> closed (pool s)"
    using first_order [OF main_start_service(1) [OF m], of 7] by auto
  have i: "tasks_inv (Workers (loadConfig Map.empty)) (QueueSize (loadConfig Map.empty)) s" "control_inv s" "crashed s = None"
    using service_pool.inv_reachable [OF newService_pool [OF main_start_service(1) [OF m]] s(1)] by (simp_all add: sheltered_def)
  have "\<forall>tk. \<not> read_locked (submits s tk)" by (simp add: s(2))
  then obtain t where t: "pool_step\<^sup>*\<^sup>* s t" "closes t 0 = CReturned None" "submits t = submits s"
    using Close_can_drain [OF i s(4), of 0] s(3) by auto
  note clean_stop_loses_no_order [OF m rtranclp_trans [OF s(1) t(1)] t(2), of "\<lambda>_. Return None" None "\<lambda>_. Return None" 0, OF refl refl]
  then obtain co' errs where c: "Shutdown (\<lambda>_. Return None) co = Some (Return (co', errs))"
    "errs = [] \<longrightarrow> count_list (finished t) 7 = 1"
    using t(3) s(2) by auto
  moreover have "errs = []"
    using graceful_stop [OF main_start_service(2) [OF m], of "\<lambda>_. Return None" None None] c(1) by (auto simp: errors_of_def map_filter_def)
  ultimately show ?thesis using m s(1) t(1) by (meson rtranclp_trans)
qed


end
