(* ===== verification/Spec2Isabelle.thy ===== *)
theory Spec2Isabelle
  imports CircuitBreaker Retry RateLimit Cache WorkerPool PoolSpec PubSub Lifecycle Metrics Middleware
    Validator Config Errx Hash Health Env Db Fan FanEnd Pools Logger Service Orders ServiceMain
begin

text \<open>
  A verification library for egl-utils-go, a Go library of service components (resilience, concurrency,
  HTTP middleware, observability, configuration and validation) with an example service that composes
  them.

  \<^bold>\<open>The program and its parts.\<close> The packages under \<open>src/pkg\<close> are independent of each other but for a few
  edges: \<open>config\<close> validates with \<open>validator\<close>, the rate limiter and the metrics recorder each bring an HTTP
  middleware, the contrib modules build checks for \<open>health\<close>, and \<open>src/examples/service\<close> wires environment,
  worker pool, limiter, recorder, middleware chain, health endpoints and shutdown hooks into one process.

  \<^bold>\<open>Foundations.\<close>
  \<^item> \<open>GoPrelude\<close>: returning and panicking calls (type \<open>go\<close>), contexts, functional options, 64-bit integers
    with their wrap-around, instants and durations, and the interfaces of transition systems:
    \<open>step_invariant\<close> (what every reachable state satisfies), \<open>step_simulation\<close> (every run is a run of a
    specification) and \<open>step_progress\<close> (every run of certain steps is bounded and can be brought to an end;
    the conclusion is the predicate \<open>ends_within\<close>).
  \<^item> \<open>GoChan\<close>: channels, with the interface \<open>fifo_queue\<close> that the channel model implements.
  \<^item> \<open>GoStrings\<close>, \<open>GoText\<close>: decimal formatting and parsing with range errors, joining, splitting, cutting,
    UTF-8 decoding and white space, with their round trips.
  \<^item> \<open>Float64\<close>: IEEE binary64 with round to nearest even on rationals, infinities and NaN, the rounding error
    bounds, and the implementation-specific conversion to int64.
  \<^item> \<open>Http\<close>: requests, handlers as the calls they make on a response writer, what the client receives, and
    the interface \<open>status_recorder\<close> of the two status-recording writers.

  \<^bold>\<open>Resilience.\<close>
  \<^item> \<open>CircuitBreaker\<close> (\<open>pkg/circuitbreaker\<close>): admission, outcome recording and state as operations of the
    critical section; concurrent callers as steps. Probe budget, stale outcomes, tripping, and recovery with probes that
    succeed or fail at any count; the concurrent breaker simulates the documented state diagram.
  \<^item> \<open>Retry\<close> (\<open>pkg/retry\<close>): the backoff loop with its wrapping doubling and jitter. It returns for every
    policy and environment, with exactly the specified calls and sleeps; each sleep and their sum are capped.
  \<^item> \<open>RateLimit\<close> (\<open>pkg/ratelimit/ratelimit.go\<close>): the token bucket in binary64. Admissions of any history are
    bounded by burst and rate with the rounding error explicit.

  \<^bold>\<open>State and concurrency.\<close>
  \<^item> \<open>Cache\<close> (\<open>pkg/cache\<close>): the sharded store and its sweeper refine a map with expiry times (interface
    \<open>ttl_store\<close>), and a sweep reclaims exactly the expired entries.
  \<^item> \<open>WorkerPool\<close> (\<open>pkg/workerpool\<close>): submission, workers and close over lock, queue and wait group. Tasks run
    exactly once in order, close drains. What \<open>runtime.Goexit\<close> in a task does is an extension of the relation.
  \<^item> \<open>PoolSpec\<close>: the promise of the pool as an abstract first-in first-out executor, and the simulation.
  \<^item> \<open>PubSub\<close> (\<open>pkg/pubsub\<close>): publishers, subscribers, policies for slow ones, removal and close. Messages are
    accounted for, no channel is misused, and publishing never blocks on subscribers.
  \<^item> \<open>Lifecycle\<close> (\<open>pkg/lifecycle\<close>): hooks run once in reverse order, all callers get the same result and, unless
    a hook panics, return; a panicking hook strands them. A single call as an executable function is a run of the concurrent coordinator.
  \<^item> \<open>Fan\<close> (\<open>pkg/fanin\<close>, \<open>pkg/fanout\<close>): one forwarder model, wired as \<open>Merge\<close> and as \<open>Split\<close>. Order, exactly
    once delivery and channel safety under every schedule.
  \<^item> \<open>FanEnd\<close>: the goroutines of both end when inputs are closed or the context is canceled, in the latter
    case even with no consumer left.
  \<^item> \<open>Pools\<close> (\<open>pkg/syncpool\<close>, \<open>pkg/semaphore\<close>): buffers handed out are empty and exclusive; the semaphore
    adapter keeps the weight within capacity.

  \<^bold>\<open>HTTP and observability.\<close>
  \<^item> \<open>Metrics\<close> (\<open>pkg/metrics\<close>): atomic observations and concurrent scrapes, the recorder, the exposition text.
  \<^item> \<open>Middleware\<close> (\<open>pkg/middleware\<close>, \<open>pkg/ratelimit/middleware.go\<close>, the middleware of \<open>pkg/metrics\<close>): request
    ids (with the generator over the random bytes), logging, recovery, CORS, shedding and recording.
  \<^item> \<open>Health\<close> (\<open>pkg/health\<close>, \<open>contrib/pgxhealth\<close>, \<open>contrib/redishealth\<close>): probes on goroutines against a
    sequential reference, with probes that return, panic or end their goroutine; the JSON body; checks with
    timeouts.
  \<^item> \<open>Logger\<close> (\<open>pkg/logger\<close>): logger construction and fields carried by a context.

  \<^bold>\<open>Configuration, validation, errors, storage.\<close>
  \<^item> \<open>Validator\<close> (\<open>pkg/validator\<close>): values as \<open>reflect\<close> sees them, over a heap of addresses, struct types in a
    type environment. Type soundness of tags, exact reports, non-termination on pointer cycles, and the
    language of the email pattern.
  \<^item> \<open>Config\<close> (\<open>pkg/config\<close>): expansion of variables and loading, all or nothing.
  \<^item> \<open>Env\<close> (\<open>pkg/env\<close>): the getters over models of the number, bool and duration parsers: round trips,
    and the fallback for whatever is not a literal.
  \<^item> \<open>Errx\<close> (\<open>pkg/errx\<close>): error trees, stacks and transparency of wrapping.
  \<^item> \<open>Hash\<close> (\<open>pkg/hash\<close>): the bcrypt adapter and its round trip.
  \<^item> \<open>Db\<close> (\<open>pkg/db\<close>): a transaction is finalized exactly once, also when its context ends before the
    commit, and the error returned is pinned on every path.

  \<^bold>\<open>Composition.\<close>
  \<^item> \<open>Service\<close> (\<open>examples/service/service.go\<close>) composes \<open>Middleware\<close>, \<open>RateLimit\<close>, \<open>Metrics\<close>, \<open>WorkerPool\<close>,
    \<open>Health\<close> and \<open>Env\<close>: every application request is identified, logged and counted once, and an order
    is answered alike whatever its origin.
  \<^item> \<open>Orders\<close> follows an order through handler, non-blocking pool and close: 202 means that its task runs
    exactly once before the drain is over, 503 that it never runs, and no task can end the process.
  \<^item> \<open>ServiceMain\<close> (\<open>examples/service/main.go\<close>) adds \<open>Lifecycle\<close> and \<open>Logger\<close>: startup, hooks, and the
    order and result of the graceful stop; a stop that logs no error has lost no accepted order.

  \<^bold>\<open>How code is modelled.\<close> A struct is a record, an error a datatype value, a panic the value \<open>Panic\<close>. Code
  without concurrency is a function of its state. Concurrent code is an inductive step relation whose steps
  are critical sections, channel operations and atomic accesses; invariants hold in every reachable state.
  Integers carry their width where an operation can leave it. Loops are structural recursions or
  have a termination proof; that concurrent code comes to an end is stated with \<open>ends_within\<close>: some run
  reaches the end, every run is at most as long as an explicit measure of the work left, and a run that
  cannot go on is at the end. Only the pointer walks of the validator may not end; there not returning
  is the value \<open>None\<close> of a partial function. No definition uses fuel.

  \<^bold>\<open>Arguments of the model.\<close> Third-party code is an argument with its documented behaviour as a named
  predicate: bcrypt (\<open>bcrypt_documented\<close>), the semaphore of \<open>golang.org/x/sync\<close> (\<open>xsync_documented\<close>), the
  database driver, the Redis and PostgreSQL clients, the YAML decoder. So are the environment's inputs:
  clocks, random numbers, entropy, files, variables, schedules, the float conversion of the platform, the
  symbolization of program counters, and, in the validator, the text form of floats and the quoting of
  \<open>%q\<close>, about which nothing is assumed.

  \<^bold>\<open>Not modelled.\<close> The network listener and signal delivery, the rendering of log records by \<open>log/slog\<close>,
  router redirects for paths not in clean form, weak memory effects (accesses to atomics and critical
  sections are sequentially consistent), allocation and performance, the \<open>Unwrap\<close> methods through which
  \<open>http.ResponseController\<close> finds the writer inside a recording one, and the fuzz, benchmark and lint
  tooling. Negative zero is identified with zero in binary64.
\<close>

end
